(* ===== verification/Prelude.thy ===== *)
theory Prelude
  imports Main "HOL-Library.Word"
begin

unbundle bit_operations_syntax

text \<open>
  Shared vocabulary of the development: the machine integers of the kernel, the panic
  values of Rust code, overflow-checked arithmetic, and the facts on words, bits and lists
  that several components use.

  A Rust panic (arithmetic overflow of the dev profile, an index out of bounds, an explicit
  \<^verbatim>\<open>panic!\<close>, \<^verbatim>\<open>unwrap\<close> or \<^verbatim>\<open>expect\<close> on an error) is the left
  summand of an \<open>outcome\<close>. A theorem that shows an \<open>Inr\<close> result thus also shows that no
  addition, subtraction or multiplication on the way wraps around, so the dev profile and
  the release profile agree on it.
\<close>

type_synonym u8 = "8 word"
type_synonym u16 = "16 word"
type_synonym u32 = "32 word"
type_synonym u64 = "64 word"

datatype panic =
    Overflow
  | IndexOutOfBounds
  | UnwrapNone
  | PanicMsg string
  | OutOfFuel

type_synonym 'a outcome = "panic + 'a"

named_theorems outcome_simps \<open>evaluation of checked operations that do not panic\<close>

subsection \<open>Sequencing of operations that may panic\<close>

fun and_then :: "'e + 'a \<Rightarrow> ('a \<Rightarrow> 'e + 'b) \<Rightarrow> 'e + 'b" where
  "and_then (Inl e) f = Inl e"
| "and_then (Inr x) f = f x"

subsection \<open>Overflow-checked arithmetic on \<open>u64\<close> and \<open>usize\<close>\<close>

definition u64_add :: "u64 \<Rightarrow> u64 \<Rightarrow> u64 outcome" where
  "u64_add a b = (if unat a + unat b < 2 ^ 64 then Inr (a + b) else Inl Overflow)"

definition u64_sub :: "u64 \<Rightarrow> u64 \<Rightarrow> u64 outcome" where
  "u64_sub a b = (if b \<le> a then Inr (a - b) else Inl Overflow)"

definition u64_mul :: "u64 \<Rightarrow> u64 \<Rightarrow> u64 outcome" where
  "u64_mul a b = (if unat a * unat b < 2 ^ 64 then Inr (a * b) else Inl Overflow)"

definition u64_shl :: "u64 \<Rightarrow> nat \<Rightarrow> u64 outcome" where
  "u64_shl a n = (if n < 64 then Inr (push_bit n a) else Inl Overflow)"

text \<open>Rust's \<^verbatim>\<open>NonNull::new\<close>: the null address is \<open>None\<close>.\<close>

definition nonnull_new :: "u64 \<Rightarrow> u64 option" where
  "nonnull_new p = (if p = 0 then None else Some p)"

lemma and_then_eq_Inr: "and_then m f = Inr y \<longleftrightarrow> (\<exists>x. m = Inr x \<and> f x = Inr y)"
  by (cases m) auto

lemma and_then_assoc: "and_then (and_then m f) g = and_then m (\<lambda>x. and_then (f x) g)"
  by (cases m) auto

lemma and_then_cong [fundef_cong]:
  "m = m' \<Longrightarrow> (\<And>x. m' = Inr x \<Longrightarrow> f x = f' x) \<Longrightarrow> and_then m f = and_then m' f'"
  by (cases m') auto

lemma u64_add_ok [outcome_simps]: "unat a + unat b < 2 ^ 64 \<Longrightarrow> u64_add a b = Inr (a + b)"
  by (simp add: u64_add_def)

lemma u64_sub_ok [outcome_simps]: "b \<le> a \<Longrightarrow> u64_sub a b = Inr (a - b)"
  by (simp add: u64_sub_def)

lemma u64_mul_ok [outcome_simps]: "unat a * unat b < 2 ^ 64 \<Longrightarrow> u64_mul a b = Inr (a * b)"
  by (simp add: u64_mul_def)

lemma u64_shl_ok [outcome_simps]: "n < 64 \<Longrightarrow> u64_shl a n = Inr (push_bit n a)"
  by (simp add: u64_shl_def)

lemma u64_add_Inr: "u64_add a b = Inr c \<Longrightarrow> unat c = unat a + unat b"
  by (auto simp: u64_add_def unat_word_ariths split: if_splits)

lemma u64_sub_Inr: "u64_sub a b = Inr c \<Longrightarrow> unat c = unat a - unat b \<and> unat b \<le> unat a"
  by (auto simp: u64_sub_def unat_sub word_le_nat_alt split: if_splits)

lemma nonnull_new_Some [simp]: "p \<noteq> 0 \<Longrightarrow> nonnull_new p = Some p"
  by (simp add: nonnull_new_def)

subsection \<open>Words as natural numbers\<close>

lemma unat_add_u64: "unat (a :: u64) + unat b < 2 ^ 64 \<Longrightarrow> unat (a + b) = unat a + unat b"
  by (simp add: unat_word_ariths)

lemma unat_of_nat_u64: "n < 2 ^ 64 \<Longrightarrow> unat (of_nat n :: u64) = n"
  by (simp add: unat_of_nat)

subsection \<open>Alignment\<close>

text \<open>\<^verbatim>\<open>x & !(a - 1)\<close> with \<open>a\<close> a power of two rounds down to a multiple of \<open>a\<close>.\<close>

lemma unat_and_not_mask:
  "unat ((x :: u64) AND NOT (mask n)) = unat x div 2 ^ n * 2 ^ n"
proof -
  have "x - take_bit n x = x AND NOT (take_bit n x)"
    by (rule disjunctive_diff_eq_and_not) (auto intro: bit_eqI simp: bit_simps)
  also have "\<dots> = x AND NOT (mask n)"
    by (rule bit_eqI) (auto simp: bit_simps)
  finally have eq: "x AND NOT (mask n) = x - take_bit n x" ..
  have t: "unat (take_bit n x) = unat x mod 2 ^ n"
    unfolding unsigned_take_bit_eq by (rule take_bit_eq_mod)
  have "take_bit n x \<le> x"
    by (simp add: word_le_nat_alt t)
  then have "unat (x - take_bit n x) = unat x - unat x mod 2 ^ n"
    by (simp add: unat_sub t)
  also have "\<dots> = unat x div 2 ^ n * 2 ^ n"
    by (simp add: minus_mod_eq_div_mult)
  finally show ?thesis by (simp only: eq)
qed

text \<open>Rounding up on natural numbers: the least multiple of \<open>a\<close> that is at least \<open>x\<close>.\<close>

definition round_up :: "nat \<Rightarrow> nat \<Rightarrow> nat" where
  "round_up x a = (x + a - 1) div a * a"

lemma round_up_bounds:
  assumes "0 < a"
  shows "x \<le> round_up x a" "round_up x a < x + a" "a dvd round_up x a"
proof -
  have "x + a - 1 = round_up x a + (x + a - 1) mod a" "(x + a - 1) mod a < a"
    using assms by (simp_all add: round_up_def)
  then show "x \<le> round_up x a" "round_up x a < x + a" using assms by linarith+
  show "a dvd round_up x a" by (simp add: round_up_def)
qed

lemma round_up_le:
  assumes "0 < a" "a dvd y" "x \<le> y"
  shows "round_up x a \<le> y"
proof -
  obtain q where q: "y = q * a" using assms(2) by (metis dvd_def mult.commute)
  have "x + a - 1 < (q + 1) * a" using assms q by (simp add: algebra_simps)
  then have "(x + a - 1) div a \<le> q" using assms(1) by (simp add: div_less_iff_less_mult less_Suc_eq_le [symmetric])
  then show ?thesis by (simp add: round_up_def q)
qed

lemma round_up_id: "0 < a \<Longrightarrow> a dvd x \<Longrightarrow> round_up x a = x"
  using round_up_bounds(1) [of a x] round_up_le [of a x x] by simp

lemma page_dvd_round_up:
  assumes "4096 dvd x"
  shows "4096 dvd round_up x (2 ^ k)"
proof (cases "k \<le> 12")
  case True
  then have "(2 :: nat) ^ k dvd 2 ^ 12" by (rule le_imp_power_dvd)
  then have "2 ^ k dvd x" using assms by (auto intro: dvd_trans)
  then show ?thesis using assms round_up_id [of "2 ^ k" x] by simp
next
  case False
  then have "(2 :: nat) ^ 12 dvd 2 ^ k" by (intro le_imp_power_dvd) simp
  then have "4096 dvd (2 :: nat) ^ k" by simp
  then show ?thesis using round_up_bounds(3) [of "2 ^ k" x] by (auto intro: dvd_trans)
qed

text \<open>Rounding up to \<open>2 ^ k\<close> the way the kernel writes it on machine words.\<close>

lemma unat_round_up_word:
  assumes "unat (x :: u64) + 2 ^ k \<le> 2 ^ 63" "k < 63"
  shows "unat ((x + 2 ^ k - 1) AND NOT (2 ^ k - 1)) = round_up (unat x) (2 ^ k)"
proof -
  have k: "unat (2 ^ k :: u64) = 2 ^ k"
    using unat_of_nat_u64 [of "2 ^ k"] power_strict_increasing [of k 64 "2 :: nat"] assms(2) by simp
  have s: "unat (x + 2 ^ k) = unat x + 2 ^ k"
    using assms(1) by (subst unat_add_u64) (simp_all add: k)
  have "1 \<le> x + 2 ^ k"
    by (simp add: word_le_nat_alt s Suc_le_eq)
  then have "unat (x + 2 ^ k - 1) = unat x + 2 ^ k - 1"
    by (simp add: unat_sub s)
  then show ?thesis
    by (simp add: mask_eq_exp_minus_1 [symmetric] unat_and_not_mask round_up_def)
qed

text \<open>
  What the kernel relies on of the \<^verbatim>\<open>x86_64\<close> crate: a page-aligned address below
  \<open>2 ^ 52\<close> is a valid physical address, and the frame containing it starts there.
\<close>

definition phys_frame_laws :: "(u64 \<Rightarrow> 'f outcome) \<Rightarrow> ('f \<Rightarrow> u64) \<Rightarrow> bool" where
  "phys_frame_laws phys_frame start_address \<longleftrightarrow>
     (\<forall>a. unat a < 2 ^ 52 \<and> 4096 dvd unat a \<longrightarrow>
        (\<exists>f. phys_frame a = Inr f \<and> start_address f = a))"

lemma phys_frame_lawsD:
  "phys_frame_laws phys_frame start_address \<Longrightarrow> unat a < 2 ^ 52 \<Longrightarrow> 4096 dvd unat a \<Longrightarrow>
   \<exists>f. phys_frame a = Inr f \<and> start_address f = a"
  by (simp add: phys_frame_laws_def)

subsection \<open>Singly linked lists in memory\<close>

text \<open>Following \<open>nx\<close> from \<open>x\<close> visits exactly the nodes \<open>as\<close>.\<close>

fun lpath :: "('a \<Rightarrow> 'a option) \<Rightarrow> 'a option \<Rightarrow> 'a list \<Rightarrow> bool" where
  "lpath nx x [] \<longleftrightarrow> x = None"
| "lpath nx x (a # as) \<longleftrightarrow> x = Some a \<and> lpath nx (nx a) as"

lemma lpath_cong: "(\<And>a. a \<in> set as \<Longrightarrow> nx a = nx' a) \<Longrightarrow> lpath nx x as = lpath nx' x as"
  by (induction as arbitrary: x) auto

lemma lpath_upd [simp]: "a \<notin> set as \<Longrightarrow> lpath (nx(a := v)) x as = lpath nx x as"
  by (rule lpath_cong) auto

lemma lpath_None [simp]: "lpath nx None as \<longleftrightarrow> as = []"
  by (cases as) auto

lemma lpath_Some: "lpath nx (Some a) as \<longleftrightarrow> (\<exists>bs. as = a # bs \<and> lpath nx (nx a) bs)"
  by (cases as) auto

lemma lpath_unique: "lpath nx x as \<Longrightarrow> lpath nx x bs \<Longrightarrow> as = bs"
  by (induction as arbitrary: x bs) (auto simp: lpath_Some)

end
