(* ===== verification/Boot_Frames.thy ===== *)
theory Boot_Frames
  imports Prelude
begin

text \<open>
  \<open>BootInfoFrameAllocator\<close> of \<^verbatim>\<open>kernel/src/mm/memory.rs\<close>: the frame allocator that
  runs before the heap exists. Its state is an array of \<open>MAX_RANGES\<close> physical ranges of
  which the first \<open>range_count\<close> are in use. Every loop over the array is written as the
  code has it, with array updates, and shown equal to a function on the list of ranges in
  use; the properties of allocation and release are proved on those lists.

  Two functions of the \<^verbatim>\<open>x86_64\<close> crate are parameters: \<open>phys_frame\<close> stands for
  \<^verbatim>\<open>PhysFrame::containing_address(PhysAddr::new(_))\<close> and \<open>start_address\<close> for
  \<^verbatim>\<open>frame.start_address().as_u64()\<close>.
\<close>

abbreviation PAGE :: u64 where "PAGE \<equiv> 4096"

definition HUGE_PAGE_SIZE :: u64 where "HUGE_PAGE_SIZE = 2 * 1024 * 1024"
definition MAX_RANGES :: nat where "MAX_RANGES = 256"

record phys_range =
  rstart :: u64
  rend :: u64

definition range_empty :: phys_range where
  "range_empty = \<lparr>rstart = 0, rend = 0\<rparr>"

definition range_new :: "u64 \<Rightarrow> u64 \<Rightarrow> phys_range" where
  "range_new s e = \<lparr>rstart = s, rend = e\<rparr>"

record boot_alloc =
  free_ranges :: "phys_range list"
  range_count :: nat
  allocated_bytes :: u64
  total_bytes :: u64

text \<open>A region of the bootloader's memory map; the code only tests its kind against \<open>Usable\<close>.\<close>

datatype region_kind = Usable | Unusable

record mem_region =
  reg_start :: u64
  reg_end :: u64
  reg_kind :: region_kind

subsection \<open>Construction from the memory map\<close>

fun collect_regions :: "mem_region list \<Rightarrow> phys_range list \<Rightarrow> nat \<Rightarrow> u64 \<Rightarrow>
    (phys_range list \<times> nat \<times> u64) outcome" where
  "collect_regions [] fr count tot = Inr (fr, count, tot)"
| "collect_regions (region # rest) fr count tot =
     (if reg_kind region = Usable then
        and_then (u64_add (reg_start region) PAGE) (\<lambda>a.
        and_then (u64_sub a 1) (\<lambda>a.
        let s = a AND NOT (PAGE - 1);
            e = reg_end region AND NOT (PAGE - 1)
        in if e > s \<and> count < MAX_RANGES then
             and_then (u64_add tot (e - s)) (\<lambda>tot.
             collect_regions rest (fr[count := range_new s e]) (count + 1) tot)
           else collect_regions rest fr count tot))
      else collect_regions rest fr count tot)"

fun shift_greater :: "phys_range list \<Rightarrow> phys_range \<Rightarrow> nat \<Rightarrow> phys_range list \<times> nat" where
  "shift_greater fr key 0 = (fr, 0)"
| "shift_greater fr key (Suc j) =
     (if rstart (fr ! j) > rstart key then shift_greater (fr[Suc j := fr ! j]) key j
      else (fr, Suc j))"

definition sort_step :: "phys_range list \<Rightarrow> nat \<Rightarrow> phys_range list" where
  "sort_step fr i = (let key = fr ! i; (fr', j) = shift_greater fr key i in fr'[j := key])"

definition sort_ranges :: "phys_range list \<Rightarrow> nat \<Rightarrow> phys_range list" where
  "sort_ranges fr count = foldl sort_step fr [1..<count]"

definition boot_init :: "mem_region list \<Rightarrow> boot_alloc outcome" where
  "boot_init memory_map =
     and_then (collect_regions memory_map (replicate MAX_RANGES range_empty) 0 0)
       (\<lambda>(fr, count, tot).
     Inr \<lparr>free_ranges = sort_ranges fr count, range_count = count,
          allocated_bytes = 0, total_bytes = tot\<rparr>)"

subsection \<open>Array maintenance\<close>

definition remove_range :: "boot_alloc \<Rightarrow> nat \<Rightarrow> boot_alloc outcome" where
  "remove_range s index =
     (if range_count s = 0 then Inl Overflow
      else let fr = foldl (\<lambda>fr j. fr[j := fr ! (j + 1)]) (free_ranges s) [index..<range_count s - 1];
               count = range_count s - 1
           in Inr (s\<lparr>free_ranges := fr[count := range_empty], range_count := count\<rparr>))"

fun find_pos :: "phys_range list \<Rightarrow> phys_range \<Rightarrow> nat \<Rightarrow> nat \<Rightarrow> nat" where
  "find_pos fr rng i 0 = i"
| "find_pos fr rng i (Suc n) =
     (if rstart rng < rstart (fr ! i) then i else find_pos fr rng (Suc i) n)"

definition insert_range_sorted :: "boot_alloc \<Rightarrow> phys_range \<Rightarrow> boot_alloc outcome" where
  "insert_range_sorted s rng =
     (if range_count s \<ge> MAX_RANGES
      then Inl (PanicMsg ''BootInfoFrameAllocator: exceeded maximum number of free ranges'')
      else let count = range_count s;
               pos = find_pos (free_ranges s) rng 0 count;
               fr = foldl (\<lambda>fr j. fr[j + 1 := fr ! j]) (free_ranges s) (rev [pos..<count])
           in Inr (s\<lparr>free_ranges := fr[pos := rng], range_count := count + 1\<rparr>))"

lemma remove_range_count: "remove_range s i = Inr s' \<Longrightarrow> range_count s' = range_count s - 1 \<and> 0 < range_count s"
  by (auto simp: remove_range_def Let_def split: if_splits)

function coalesce_loop :: "boot_alloc \<Rightarrow> nat \<Rightarrow> boot_alloc outcome" where
  "coalesce_loop s i =
     (if i < range_count s - 1 then
        if rend (free_ranges s ! i) = rstart (free_ranges s ! (i + 1)) then
          let fr = (free_ranges s)[i := (free_ranges s ! i)\<lparr>rend := rend (free_ranges s ! (i + 1))\<rparr>]
          in and_then (remove_range (s\<lparr>free_ranges := fr\<rparr>) (i + 1)) (\<lambda>s. coalesce_loop s i)
        else coalesce_loop s (i + 1)
      else Inr s)"
  by pat_completeness auto
termination
  by (relation "measure (\<lambda>(s, i). range_count s - i)") (auto dest!: remove_range_count)

definition coalesce_ranges :: "boot_alloc \<Rightarrow> boot_alloc outcome" where
  "coalesce_ranges s = (if range_count s < 2 then Inr s else coalesce_loop s 0)"

subsection \<open>Allocation and release\<close>

definition align_up :: "u64 \<Rightarrow> u64 \<Rightarrow> u64 outcome" where
  "align_up start alignment =
     and_then (u64_add start alignment) (\<lambda>a.
     and_then (u64_sub a 1) (\<lambda>a.
     and_then (u64_sub alignment 1) (\<lambda>m. Inr (a AND NOT m))))"

definition take_from_range :: "boot_alloc \<Rightarrow> nat \<Rightarrow> u64 \<Rightarrow> u64 \<Rightarrow> boot_alloc outcome" where
  "take_from_range s i aligned_start required_size =
     (let rng = free_ranges s ! i;
          alloc_end = aligned_start + required_size;
          has_before = aligned_start > rstart rng;
          has_after = alloc_end < rend rng
      in and_then (remove_range s i) (\<lambda>s.
         and_then (if has_before then insert_range_sorted s (range_new (rstart rng) aligned_start)
                   else Inr s) (\<lambda>s.
         and_then (if has_after then insert_range_sorted s (range_new alloc_end (rend rng))
                   else Inr s) (\<lambda>s.
         and_then (u64_add (allocated_bytes s) required_size) (\<lambda>b.
         Inr (s\<lparr>allocated_bytes := b\<rparr>))))))"

function alloc_loop :: "(u64 \<Rightarrow> 'f outcome) \<Rightarrow> boot_alloc \<Rightarrow> u64 \<Rightarrow> u64 \<Rightarrow> nat \<Rightarrow>
    ('f option \<times> boot_alloc) outcome" where
  "alloc_loop phys_frame s required_size alignment i =
     (if i < range_count s then
        let rng = free_ranges s ! i
        in and_then (align_up (rstart rng) alignment) (\<lambda>aligned_start.
           and_then (if aligned_start \<ge> rstart rng
                     then and_then (u64_add aligned_start required_size) (\<lambda>e. Inr (e \<le> rend rng))
                     else Inr False) (\<lambda>fits.
           if fits \<and> \<not> (aligned_start > rstart rng \<and>
                aligned_start + required_size < rend rng \<and> range_count s \<ge> MAX_RANGES)
           then and_then (take_from_range s i aligned_start required_size) (\<lambda>s.
                and_then (phys_frame aligned_start) (\<lambda>frame. Inr (Some frame, s)))
           else alloc_loop phys_frame s required_size alignment (i + 1)))
      else Inr (None, s))"
  by pat_completeness auto
termination
  by (relation "measure (\<lambda>(pf, s, r, a, i). range_count s - i)") auto

declare coalesce_loop.simps [simp del] alloc_loop.simps [simp del]

definition allocate_contiguous_aligned ::
    "(u64 \<Rightarrow> 'f outcome) \<Rightarrow> boot_alloc \<Rightarrow> u64 \<Rightarrow> u64 \<Rightarrow> ('f option \<times> boot_alloc) outcome" where
  "allocate_contiguous_aligned phys_frame s count alignment =
     (if count = 0 then Inr (None, s)
      else and_then (u64_mul count PAGE) (\<lambda>required_size.
           alloc_loop phys_frame s required_size alignment 0))"

definition allocate_contiguous :: "(u64 \<Rightarrow> 'f outcome) \<Rightarrow> boot_alloc \<Rightarrow> u64 \<Rightarrow> ('f option \<times> boot_alloc) outcome" where
  "allocate_contiguous phys_frame s count = allocate_contiguous_aligned phys_frame s count PAGE"

definition boot_allocate_frame :: "(u64 \<Rightarrow> 'f outcome) \<Rightarrow> boot_alloc \<Rightarrow> ('f option \<times> boot_alloc) outcome" where
  "boot_allocate_frame phys_frame s = allocate_contiguous phys_frame s 1"

definition allocate_huge_page ::
    "(u64 \<Rightarrow> 'f outcome) \<Rightarrow> ('f \<Rightarrow> u64) \<Rightarrow> (u64 \<Rightarrow> 'g) \<Rightarrow> boot_alloc \<Rightarrow> ('g option \<times> boot_alloc) outcome" where
  "allocate_huge_page phys_frame start_address huge_frame s =
     and_then (allocate_contiguous_aligned phys_frame s 512 HUGE_PAGE_SIZE) (\<lambda>(res, s).
     case res of
       None \<Rightarrow> Inr (None, s)
     | Some frame \<Rightarrow> Inr (Some (huge_frame (start_address frame)), s))"

definition saturating_sub :: "u64 \<Rightarrow> u64 \<Rightarrow> u64" where
  "saturating_sub a b = (if b \<le> a then a - b else 0)"

definition free_contiguous :: "('f \<Rightarrow> u64) \<Rightarrow> boot_alloc \<Rightarrow> 'f \<Rightarrow> u64 \<Rightarrow> boot_alloc outcome" where
  "free_contiguous start_address s frame count =
     (if count = 0 then Inr s
      else
        let start = start_address frame
        in and_then (u64_mul count PAGE) (\<lambda>size.
           and_then (u64_add start size) (\<lambda>e.
           and_then (insert_range_sorted
                       (s\<lparr>allocated_bytes := saturating_sub (allocated_bytes s) size\<rparr>)
                       (range_new start e)) (\<lambda>s.
           coalesce_ranges s))))"

definition free_frame_boot :: "('f \<Rightarrow> u64) \<Rightarrow> boot_alloc \<Rightarrow> 'f \<Rightarrow> boot_alloc outcome" where
  "free_frame_boot start_address s frame = free_contiguous start_address s frame 1"

definition free_memory :: "boot_alloc \<Rightarrow> u64 outcome" where
  "free_memory s = u64_sub (total_bytes s) (allocated_bytes s)"

text \<open>The frame addresses a range yields in \<open>usable_frames\<close>: \<^verbatim>\<open>(start..end).step_by(4096)\<close>.\<close>

definition allocated_memory :: "boot_alloc \<Rightarrow> u64" where
  "allocated_memory s = allocated_bytes s"

definition range_addrs :: "phys_range \<Rightarrow> u64 list" where
  "range_addrs r =
     map (\<lambda>k. rstart r + of_nat (k * 4096)) [0..<(unat (rend r) - unat (rstart r) + 4095) div 4096]"

definition usable_frames :: "(u64 \<Rightarrow> 'f outcome) \<Rightarrow> boot_alloc \<Rightarrow> 'f outcome list" where
  "usable_frames phys_frame s =
     map phys_frame (concat (map range_addrs (take (range_count s) (free_ranges s))))"

subsection \<open>The array loops as functions on the ranges in use\<close>

definition active :: "boot_alloc \<Rightarrow> phys_range list" where
  "active s = take (range_count s) (free_ranges s)"

definition ins :: "phys_range \<Rightarrow> phys_range list \<Rightarrow> phys_range list" where
  "ins r xs = takeWhile (\<lambda>x. rstart x \<le> rstart r) xs @ r # dropWhile (\<lambda>x. rstart x \<le> rstart r) xs"

fun coal :: "phys_range list \<Rightarrow> phys_range list" where
  "coal (x # y # zs) = (if rend x = rstart y then coal (x\<lparr>rend := rend y\<rparr> # zs) else x # coal (y # zs))"
| "coal xs = xs"

lemma shift_left_nth:
  assumes "i \<le> n" "n < length fr"
  shows "length (foldl (\<lambda>fr j. fr[j := fr ! (j + 1)]) fr [i..<n]) = length fr \<and>
    (\<forall>m < length fr. foldl (\<lambda>fr j. fr[j := fr ! (j + 1)]) fr [i..<n] ! m =
       (if i \<le> m \<and> m < n then fr ! Suc m else fr ! m))"
  using assms
proof (induction rule: dec_induct)
  case base
  then show ?case by auto
next
  case (step n)
  then show ?case by (auto simp: nth_list_update less_Suc_eq)
qed

lemma shift_left_take:
  assumes "i < c" "c \<le> length fr"
  shows "take (c - 1) ((foldl (\<lambda>fr j. fr[j := fr ! (j + 1)]) fr [i..<c - 1])[c - 1 := v]) =
    take i (take c fr) @ drop (Suc i) (take c fr)"
proof -
  define res where "res = foldl (\<lambda>fr j. fr[j := fr ! (j + 1)]) fr [i..<c - 1]"
  have r: "length res = length fr" "\<And>m. m < length fr \<Longrightarrow> res ! m = (if i \<le> m \<and> m < c - 1 then fr ! Suc m else fr ! m)"
    using shift_left_nth [of i "c - 1" fr] assms by (auto simp: res_def)
  have "take (c - 1) (res[c - 1 := v]) = take i (take c fr) @ drop (Suc i) (take c fr)"
  proof (rule nth_equalityI)
    show "length (take (c - 1) (res[c - 1 := v])) = length (take i (take c fr) @ drop (Suc i) (take c fr))"
      using assms r(1) by simp
    fix m assume "m < length (take (c - 1) (res[c - 1 := v]))"
    then have "m < c - 1" by simp
    then show "take (c - 1) (res[c - 1 := v]) ! m = (take i (take c fr) @ drop (Suc i) (take c fr)) ! m"
      using assms r(2) [of m] by (simp add: nth_append)
  qed
  then show ?thesis by (simp only: res_def)
qed

lemma remove_range_active:
  assumes "i < range_count s" "range_count s \<le> length (free_ranges s)"
  shows "\<exists>s'. remove_range s i = Inr s' \<and> active s' = take i (active s) @ drop (Suc i) (active s) \<and>
    length (free_ranges s') = length (free_ranges s) \<and> range_count s' = range_count s - 1 \<and>
    allocated_bytes s' = allocated_bytes s \<and> total_bytes s' = total_bytes s"
proof -
  let ?c = "range_count s"
  have "length (foldl (\<lambda>fr j. fr[j := fr ! (j + 1)]) (free_ranges s) [i..<?c - 1]) = length (free_ranges s)"
    using shift_left_nth [of i "?c - 1" "free_ranges s"] assms by simp
  then show ?thesis
    using assms shift_left_take [of i ?c "free_ranges s" range_empty]
    by (simp add: remove_range_def Let_def active_def)
qed

lemma shift_right_nth:
  assumes "n < length fr"
  shows "length (foldl (\<lambda>fr j. fr[j + 1 := fr ! j]) fr (rev [p..<n])) = length fr \<and>
    (\<forall>m < length fr. foldl (\<lambda>fr j. fr[j + 1 := fr ! j]) fr (rev [p..<n]) ! m =
       (if p < m \<and> m \<le> n then fr ! (m - 1) else fr ! m))"
  using assms
proof (induction n arbitrary: fr)
  case 0
  then show ?case by auto
next
  case (Suc n)
  show ?case
  proof (cases "p \<le> n")
    case True
    let ?fr = "fr[Suc n := fr ! n]"
    define res where "res = foldl (\<lambda>fr j. fr[j + 1 := fr ! j]) ?fr (rev [p..<n])"
    have eq: "foldl (\<lambda>fr j. fr[j + 1 := fr ! j]) fr (rev [p..<Suc n]) = res"
      using True by (simp add: res_def)
    have IH: "length res = length ?fr" "\<And>m. m < length ?fr \<Longrightarrow> res ! m = (if p < m \<and> m \<le> n then ?fr ! (m - 1) else ?fr ! m)"
      using Suc.IH [of ?fr] Suc.prems unfolding res_def by simp_all
    have "res ! m = (if p < m \<and> m \<le> Suc n then fr ! (m - 1) else fr ! m)" if "m < length fr" for m
      using IH(2) [of m] that Suc.prems True by (cases "m = Suc n") (auto simp: le_Suc_eq nth_list_update)
    then show ?thesis unfolding eq using IH(1) by simp
  next
    case False
    then show ?thesis by auto
  qed
qed

lemma find_pos_eq:
  "i + n \<le> length fr \<Longrightarrow>
   find_pos fr r i n = i + length (takeWhile (\<lambda>x. rstart x \<le> rstart r) (take n (drop i fr)))"
proof (induction n arbitrary: i)
  case (Suc n)
  then have "take (Suc n) (drop i fr) = fr ! i # take n (drop (Suc i) fr)"
    by (simp add: take_Suc_conv_app_nth Cons_nth_drop_Suc [symmetric])
  then show ?case using Suc by (simp add: not_less)
qed simp

lemma shift_right_take:
  assumes "p \<le> c" "c < length fr"
  shows "take (Suc c) ((foldl (\<lambda>fr j. fr[j + 1 := fr ! j]) fr (rev [p..<c]))[p := v]) =
    take p (take c fr) @ v # drop p (take c fr)"
proof -
  define res where "res = foldl (\<lambda>fr j. fr[j + 1 := fr ! j]) fr (rev [p..<c])"
  have r: "length res = length fr" "\<And>m. m < length fr \<Longrightarrow> res ! m = (if p < m \<and> m \<le> c then fr ! (m - 1) else fr ! m)"
    using shift_right_nth [of c fr p] assms by (auto simp: res_def)
  have "take (Suc c) (res[p := v]) = take p (take c fr) @ v # drop p (take c fr)"
  proof (rule nth_equalityI)
    show "length (take (Suc c) (res[p := v])) = length (take p (take c fr) @ v # drop p (take c fr))"
      using assms r(1) by simp
    fix m assume "m < length (take (Suc c) (res[p := v]))"
    then have m: "m < Suc c" by simp
    consider "m < p" | "m = p" | k where "m = p + Suc k" by (metis less_imp_Suc_add linorder_cases add_Suc_right)
    then show "take (Suc c) (res[p := v]) ! m = (take p (take c fr) @ v # drop p (take c fr)) ! m"
      using assms r(1) r(2) [of m] m by cases (simp_all add: nth_append)
  qed
  then show ?thesis by (simp only: res_def)
qed

lemma insert_range_active:
  assumes "range_count s < MAX_RANGES" "length (free_ranges s) = MAX_RANGES"
  shows "\<exists>s'. insert_range_sorted s r = Inr s' \<and> active s' = ins r (active s) \<and>
    length (free_ranges s') = MAX_RANGES \<and> range_count s' = Suc (range_count s) \<and>
    allocated_bytes s' = allocated_bytes s \<and> total_bytes s' = total_bytes s"
proof -
  let ?n = "range_count s" and ?fr = "free_ranges s" and ?P = "\<lambda>x. rstart x \<le> rstart r"
  define p where "p = find_pos ?fr r 0 ?n"
  have p: "p = length (takeWhile ?P (active s))"
    using find_pos_eq [of 0 ?n ?fr r] assms by (simp add: p_def active_def)
  have pn: "p \<le> ?n"
    using p length_takeWhile_le [of ?P "active s"] assms by (simp add: active_def)
  define res where "res = foldl (\<lambda>fr j. fr[j + 1 := fr ! j]) ?fr (rev [p..<?n])"
  define s' where "s' = s\<lparr>free_ranges := res[p := r], range_count := Suc ?n\<rparr>"
  have "insert_range_sorted s r = Inr s'"
    using assms(1) by (simp add: insert_range_sorted_def Let_def s'_def res_def p_def)
  moreover have "active s' = ins r (active s)"
  proof -
    have "take (Suc ?n) (res[p := r]) = take p (active s) @ r # drop p (active s)"
      using shift_right_take [of p ?n ?fr r] assms pn unfolding res_def active_def by simp
    moreover have "ins r (active s) = take p (active s) @ r # drop p (active s)"
      unfolding ins_def p takeWhile_eq_take [symmetric] dropWhile_eq_drop [symmetric] ..
    ultimately show ?thesis by (simp add: active_def s'_def)
  qed
  moreover have "length res = MAX_RANGES"
    using shift_right_nth [of ?n ?fr p] assms unfolding res_def by simp
  ultimately show ?thesis by (simp add: s'_def)
qed

text \<open>The shape of the array, and what the maintenance operations leave alone.\<close>

definition arr_ok :: "boot_alloc \<Rightarrow> bool" where
  "arr_ok s \<longleftrightarrow> length (free_ranges s) = MAX_RANGES \<and> range_count s \<le> MAX_RANGES"

definition same_bytes :: "boot_alloc \<Rightarrow> boot_alloc \<Rightarrow> bool" where
  "same_bytes s s' \<longleftrightarrow> allocated_bytes s' = allocated_bytes s \<and> total_bytes s' = total_bytes s"

lemma length_active: "arr_ok s \<Longrightarrow> length (active s) = range_count s"
  by (simp add: active_def arr_ok_def)

lemma nth_active: "i < range_count s \<Longrightarrow> active s ! i = free_ranges s ! i"
  by (simp add: active_def)

lemma remove_range_ok:
  assumes "arr_ok s" "i < range_count s"
  shows "\<exists>s'. remove_range s i = Inr s' \<and> active s' = take i (active s) @ drop (Suc i) (active s) \<and>
    arr_ok s' \<and> same_bytes s s' \<and> range_count s' = range_count s - 1"
  using remove_range_active [OF assms(2)] assms(1) by (auto simp: arr_ok_def same_bytes_def)

lemma insert_range_ok:
  assumes "arr_ok s" "range_count s < MAX_RANGES"
  shows "\<exists>s'. insert_range_sorted s r = Inr s' \<and> active s' = ins r (active s) \<and>
    arr_ok s' \<and> same_bytes s s' \<and> range_count s' = Suc (range_count s)"
proof -
  have "length (free_ranges s) = MAX_RANGES" using assms(1) by (simp add: arr_ok_def)
  from insert_range_active [OF assms(2) this, of r] assms(2) show ?thesis
    by (auto simp: arr_ok_def same_bytes_def Suc_le_eq)
qed

lemma coalesce_loop_ok:
  assumes "arr_ok s" "i < range_count s"
  shows "\<exists>s'. coalesce_loop s i = Inr s' \<and> active s' = take i (active s) @ coal (drop i (active s)) \<and>
    arr_ok s' \<and> same_bytes s s'"
  using assms
proof (induction s i rule: coalesce_loop.induct)
  case (1 s i)
  let ?x = "active s ! i" and ?y = "active s ! Suc i" and ?a = "active s"
  note len = length_active [OF "1.prems"(1)]
  show ?case
  proof (cases "i < range_count s - 1")
    case False
    then have "drop i ?a = [?x]"
      using "1.prems"(2) len by (metis Cons_nth_drop_Suc drop_all le_less_Suc_eq less_Suc_eq_le
          not_less_eq Suc_pred' gr_zeroI less_nat_zero_code not_le)
    then have "active s = take i ?a @ coal (drop i ?a)"
      using append_take_drop_id [of i ?a] by simp
    then show ?thesis
      using False "1.prems"(1) by (simp add: coalesce_loop.simps [of s i] same_bytes_def)
  next
    case True
    have d: "drop i ?a = ?x # ?y # drop (Suc (Suc i)) ?a"
      using True len by (simp add: Cons_nth_drop_Suc)
    have xy: "free_ranges s ! i = ?x" "free_ranges s ! Suc i = ?y"
      using True by (simp_all add: nth_active)
    show ?thesis
    proof (cases "rend ?x = rstart ?y")
      case eq: True
      let ?x' = "?x\<lparr>rend := rend ?y\<rparr>"
      let ?s1 = "s\<lparr>free_ranges := (free_ranges s)[i := ?x']\<rparr>"
      have a1: "active ?s1 = ?a[i := ?x']" by (simp add: active_def take_update_swap)
      have "arr_ok ?s1" using "1.prems"(1) by (simp add: arr_ok_def)
      then obtain s2 where s2: "remove_range ?s1 (Suc i) = Inr s2" "arr_ok s2" "same_bytes ?s1 s2"
          "active s2 = take (Suc i) (?a[i := ?x']) @ drop (Suc (Suc i)) (?a[i := ?x'])"
          "range_count s2 = range_count s - 1"
        using remove_range_ok [of ?s1 "Suc i"] less_diff_conv [THEN iffD1, OF True] a1 by auto
      have a2: "active s2 = take i ?a @ ?x' # drop (Suc (Suc i)) ?a"
        using s2(4) True len by (simp add: take_Suc_conv_app_nth)
      have il: "i < length ?a" using True len by simp
      obtain s' where s': "coalesce_loop s2 i = Inr s'"
          "active s' = take i (active s2) @ coal (drop i (active s2))" "arr_ok s'" "same_bytes s2 s'"
        using "1.IH"(1) [of "(free_ranges s)[i := ?x']" s2] True eq xy s2 by auto
      have "active s' = take i ?a @ coal (?x' # drop (Suc (Suc i)) ?a)"
        using s'(2) a2 il by simp
      also have "\<dots> = take i ?a @ coal (drop i ?a)" using d eq by simp
      finally show ?thesis
        using s'(1,3,4) s2(1,3) True eq xy
        by (simp add: coalesce_loop.simps [of s i] Let_def same_bytes_def)
    next
      case ne: False
      obtain s' where s': "coalesce_loop s (Suc i) = Inr s'"
          "active s' = take (Suc i) ?a @ coal (drop (Suc i) ?a)" "arr_ok s'" "same_bytes s s'"
        using "1.IH"(2) less_diff_conv [THEN iffD1, OF True] True ne xy "1.prems" by auto
      have d2: "drop (Suc i) ?a = ?y # drop (Suc (Suc i)) ?a"
        using d by (metis drop_Suc drop_drop list.sel(3) plus_1_eq_Suc tl_drop)
      have il: "i < length ?a" using True len by simp
      have "active s' = (take i ?a @ [?x]) @ coal (drop (Suc i) ?a)"
        using s'(2) il by (simp only: take_Suc_conv_app_nth)
      also have "\<dots> = take i ?a @ coal (drop i ?a)"
        unfolding d d2 using ne by simp
      finally have "active s' = take i ?a @ coal (drop i ?a)" .
      then show ?thesis
        using s'(1,3,4) True ne xy by (simp add: coalesce_loop.simps [of s i])
    qed
  qed
qed

lemma coalesce_ranges_ok:
  assumes "arr_ok s"
  shows "\<exists>s'. coalesce_ranges s = Inr s' \<and> active s' = coal (active s) \<and> arr_ok s' \<and> same_bytes s s'"
proof (cases "range_count s < 2")
  case True
  then have "length (active s) < 2" using length_active [OF assms] by simp
  then have "coal (active s) = active s" by (cases "active s"; cases "tl (active s)") auto
  with True assms show ?thesis by (simp add: coalesce_ranges_def same_bytes_def)
next
  case False
  then show ?thesis using coalesce_loop_ok [OF assms, of 0] by (simp add: coalesce_ranges_def)
qed

end
