(* ===== verification/Boot_Frames_Correct.thy ===== *)
theory Boot_Frames_Correct
  imports Boot_Frames
begin

text \<open>
  Correctness of \<open>BootInfoFrameAllocator\<close>: the ranges in use stay non-empty, page-aligned,
  disjoint and sorted, the byte accounting is exact, allocation removes exactly the block it
  returns from the free bytes, release adds exactly the block it is given, and both choose
  and merge ranges as the comments of the source say.
\<close>

subsection \<open>Free bytes and the invariant\<close>

definition range_bytes :: "phys_range \<Rightarrow> nat set" where
  "range_bytes r = {unat (rstart r)..<unat (rend r)}"

definition bytes :: "phys_range list \<Rightarrow> nat set" where
  "bytes xs = (\<Union>r\<in>set xs. range_bytes r)"

definition range_ok :: "phys_range \<Rightarrow> bool" where
  "range_ok r \<longleftrightarrow> rstart r < rend r \<and> 4096 dvd unat (rstart r) \<and> 4096 dvd unat (rend r) \<and>
     unat (rend r) \<le> 2 ^ 52"

definition ranges_wf :: "phys_range list \<Rightarrow> bool" where
  "ranges_wf xs \<longleftrightarrow> list_all range_ok xs \<and> sorted_wrt (\<lambda>x y. rend x \<le> rstart y) xs"

text \<open>No two neighbouring ranges could be merged.\<close>

definition separated :: "phys_range list \<Rightarrow> bool" where
  "separated xs \<longleftrightarrow> sorted_wrt (\<lambda>x y. rend x < rstart y) xs"

definition free_bytes :: "boot_alloc \<Rightarrow> nat set" where
  "free_bytes s = bytes (active s)"

definition boot_inv :: "boot_alloc \<Rightarrow> bool" where
  "boot_inv s \<longleftrightarrow> arr_ok s \<and> ranges_wf (active s) \<and>
     unat (allocated_bytes s) + card (free_bytes s) = unat (total_bytes s)"

lemma bytes_simps [simp]:
  "bytes [] = {}" "bytes (r # xs) = range_bytes r \<union> bytes xs" "bytes (xs @ ys) = bytes xs \<union> bytes ys"
  by (auto simp: bytes_def)

lemma finite_bytes [simp]: "finite (bytes xs)"
  by (simp add: bytes_def range_bytes_def)

lemma ranges_wf_append:
  "ranges_wf (xs @ ys) \<longleftrightarrow> ranges_wf xs \<and> ranges_wf ys \<and>
     (\<forall>x\<in>set xs. \<forall>y\<in>set ys. rend x \<le> rstart y)"
  by (auto simp: ranges_wf_def sorted_wrt_append)

lemma ranges_wf_Cons:
  "ranges_wf (x # ys) \<longleftrightarrow> range_ok x \<and> ranges_wf ys \<and> (\<forall>y\<in>set ys. rend x \<le> rstart y)"
  by (auto simp: ranges_wf_def)

lemma ranges_wf_ok: "ranges_wf xs \<Longrightarrow> x \<in> set xs \<Longrightarrow> range_ok x"
  by (simp add: ranges_wf_def list_all_iff)

lemma range_ok_less: "range_ok r \<Longrightarrow> rstart r < rend r"
  by (simp add: range_ok_def)

lemma bytes_bound: "list_all range_ok xs \<Longrightarrow> b \<in> bytes xs \<Longrightarrow> b < 2 ^ 52"
  by (auto simp: bytes_def range_bytes_def range_ok_def list_all_iff)

lemma bytes_below: "\<forall>x\<in>set xs. unat (rend x) \<le> m \<Longrightarrow> bytes xs \<inter> {m..} = {}"
  by (fastforce simp: bytes_def range_bytes_def)

lemma bytes_above: "\<forall>y\<in>set ys. m \<le> unat (rstart y) \<Longrightarrow> bytes ys \<inter> {..<m} = {}"
  by (fastforce simp: bytes_def range_bytes_def)

lemma ins_mid:
  assumes "\<forall>x\<in>set pre. rstart x \<le> rstart r" "\<forall>y\<in>set post. rstart r < rstart y"
  shows "ins r (pre @ post) = pre @ r # post"
proof -
  have "takeWhile (\<lambda>x. rstart x \<le> rstart r) post = []" "dropWhile (\<lambda>x. rstart x \<le> rstart r) post = post"
    using assms(2) by (cases post; auto simp: not_le)+
  with assms(1) show ?thesis by (simp add: ins_def)
qed

subsection \<open>Taking a block out of a range\<close>

definition pieces :: "phys_range \<Rightarrow> u64 \<Rightarrow> u64 \<Rightarrow> phys_range list" where
  "pieces r a e = (if a > rstart r then [range_new (rstart r) a] else []) @
     (if e < rend r then [range_new e (rend r)] else [])"

lemma pieces_wf:
  assumes "range_ok r" "rstart r \<le> a" "a < e" "e \<le> rend r" "4096 dvd unat a" "4096 dvd unat e"
  shows "ranges_wf (pieces r a e)"
    and "bytes (pieces r a e) = range_bytes r - {unat a..<unat e}"
    and "\<forall>x\<in>set (pieces r a e). rstart r \<le> rstart x \<and> rend x \<le> rend r"
proof -
  note word = word_less_nat_alt word_le_nat_alt
  have u: "unat (rstart r) \<le> unat a" "unat a < unat e" "unat e \<le> unat (rend r)" "unat (rend r) \<le> 2 ^ 52"
    using assms by (auto simp: word range_ok_def)
  show "ranges_wf (pieces r a e)"
    using assms u by (auto simp: pieces_def ranges_wf_def range_ok_def range_new_def word)
  show "bytes (pieces r a e) = range_bytes r - {unat a..<unat e}"
    using u by (auto simp: pieces_def range_bytes_def range_new_def word)
  show "\<forall>x\<in>set (pieces r a e). rstart r \<le> rstart x \<and> rend x \<le> rend r"
    using u by (auto simp: pieces_def range_new_def word)
qed

lemma split_wf:
  assumes wf: "ranges_wf (pre @ r # post)"
    and a: "rstart r \<le> a" "a < e" "e \<le> rend r" "4096 dvd unat a" "4096 dvd unat e"
  shows "ranges_wf (pre @ pieces r a e @ post)"
    and "bytes (pre @ pieces r a e @ post) = bytes (pre @ r # post) - {unat a..<unat e}"
proof -
  have w: "ranges_wf pre" "range_ok r" "ranges_wf post" "\<forall>x\<in>set pre. rend x \<le> rstart r"
      "\<forall>y\<in>set post. rend r \<le> rstart y" "\<forall>x\<in>set pre. \<forall>y\<in>set post. rend x \<le> rstart y"
    using wf by (auto simp: ranges_wf_append ranges_wf_Cons)
  note p = pieces_wf [OF w(2) a]
  show "ranges_wf (pre @ pieces r a e @ post)"
  proof -
    have "\<forall>x\<in>set pre. \<forall>y\<in>set (pieces r a e). rend x \<le> rstart y"
      using w(4) p(3) by (meson order_trans)
    moreover have "\<forall>x\<in>set (pieces r a e). \<forall>y\<in>set post. rend x \<le> rstart y"
      using w(5) p(3) by (meson order_trans)
    ultimately show ?thesis
      unfolding ranges_wf_append using w p(1) by auto
  qed
  have "bytes pre \<inter> {unat a..<unat e} = {}"
    using bytes_below [of pre "unat a"] w(4) a(1) by (force simp: word_le_nat_alt)
  moreover have "bytes post \<inter> {unat a..<unat e} = {}"
    using bytes_above [of post "unat e"] w(5) a(3) by (force simp: word_le_nat_alt)
  ultimately show "bytes (pre @ pieces r a e @ post) = bytes (pre @ r # post) - {unat a..<unat e}"
    using p(2) by auto
qed

lemma take_from_range_ok:
  assumes s: "arr_ok s" "ranges_wf (active s)" "i < range_count s"
    and r: "r = active s ! i" "rstart r \<le> a" "a < a + sz" "a + sz \<le> rend r"
    and room: "range_count s < MAX_RANGES \<or> a = rstart r \<or> a + sz = rend r"
    and bytes: "unat (allocated_bytes s) + unat sz < 2 ^ 64"
  shows "\<exists>s'. take_from_range s i a sz = Inr s' \<and> arr_ok s' \<and>
    active s' = take i (active s) @ pieces r a (a + sz) @ drop (Suc i) (active s) \<and>
    allocated_bytes s' = allocated_bytes s + sz \<and> total_bytes s' = total_bytes s"
proof -
  define pre where "pre = take i (active s)"
  define post where "post = drop (Suc i) (active s)"
  have act: "active s = pre @ r # post"
    using id_take_nth_drop [of i "active s"] s length_active [OF s(1)] r(1) by (simp add: pre_def post_def)
  have w: "\<forall>x\<in>set pre. rstart x < rstart r" "\<forall>y\<in>set post. rend r \<le> rstart y"
  proof -
    have p: "ranges_wf pre" "\<forall>x\<in>set pre. rend x \<le> rstart r" "\<forall>y\<in>set post. rend r \<le> rstart y"
      using s(2) unfolding act ranges_wf_append ranges_wf_Cons by auto
    show "\<forall>x\<in>set pre. rstart x < rstart r"
      using p(2) range_ok_less [OF ranges_wf_ok [OF p(1)]] by (meson order_less_le_trans)
    show "\<forall>y\<in>set post. rend r \<le> rstart y" by (rule p(3))
  qed
  have fr: "free_ranges s ! i = r" using nth_active [OF s(3)] r(1) by simp
  obtain s1 where s1: "remove_range s i = Inr s1" "active s1 = pre @ post" "arr_ok s1" "same_bytes s s1"
      "range_count s1 = range_count s - 1"
    using remove_range_ok [OF s(1,3)] by (auto simp: pre_def post_def)
  have le: "range_count s \<le> MAX_RANGES" using s(1) by (simp add: arr_ok_def)
  have c1: "range_count s1 < MAX_RANGES" using s1(5) s(3) le by linarith
  define b where "b = (if a > rstart r then [range_new (rstart r) a] else [])"
  obtain s2 where s2: "(if a > rstart r then insert_range_sorted s1 (range_new (rstart r) a) else Inr s1) = Inr s2"
      "active s2 = pre @ b @ post" "arr_ok s2" "same_bytes s s2"
      "a > rstart r \<Longrightarrow> range_count s2 = range_count s" "\<not> a > rstart r \<Longrightarrow> range_count s2 = range_count s - 1"
  proof (cases "a > rstart r")
    case True
    have "ins (range_new (rstart r) a) (pre @ post) = pre @ range_new (rstart r) a # post"
      by (rule ins_mid) (use w r True in \<open>auto simp: range_new_def intro: less_imp_le order_less_le_trans\<close>)
    moreover have "Suc (range_count s1) = range_count s" using s1(5) s(3) by linarith
    ultimately show ?thesis
      using insert_range_ok [OF s1(3) c1, of "range_new (rstart r) a"] s1(2,4) True that
      by (auto simp: b_def same_bytes_def)
  next
    case False
    then show ?thesis using that s1 by (simp add: b_def)
  qed
  have b1: "\<forall>x\<in>set b. rstart x < a + sz" using r by (auto simp: b_def range_new_def)
  define c where "c = (if a + sz < rend r then [range_new (a + sz) (rend r)] else [])"
  obtain s3 where s3: "(if a + sz < rend r then insert_range_sorted s2 (range_new (a + sz) (rend r)) else Inr s2) = Inr s3"
      "active s3 = pre @ b @ c @ post" "arr_ok s3" "same_bytes s s3"
  proof (cases "a + sz < rend r")
    case True
    have "range_count s2 < MAX_RANGES"
      using s2(5,6) c1 s1(5) room True r(2) by (cases "a > rstart r") auto
    moreover have "ins (range_new (a + sz) (rend r)) ((pre @ b) @ post) = (pre @ b) @ range_new (a + sz) (rend r) # post"
      by (rule ins_mid) (use w b1 r True in \<open>auto simp: range_new_def less_imp_le intro: order_less_le_trans\<close>)
    ultimately show ?thesis
      using insert_range_ok [OF s2(3), of "range_new (a + sz) (rend r)"] s2(2,4) True that
      by (auto simp: c_def same_bytes_def)
  next
    case False
    then show ?thesis using that s2 by (simp add: c_def)
  qed
  have "take_from_range s i a sz = Inr (s3\<lparr>allocated_bytes := allocated_bytes s + sz\<rparr>)"
    using s1(1) s2(1) s3(1,4) bytes fr
    by (simp add: take_from_range_def Let_def outcome_simps same_bytes_def)
  moreover have "active (s3\<lparr>allocated_bytes := allocated_bytes s + sz\<rparr>) = active s3"
    by (simp add: active_def)
  ultimately show ?thesis
    using s3(2,3,4) by (simp add: arr_ok_def same_bytes_def pieces_def b_def c_def pre_def post_def)
qed

subsection \<open>The search for a range\<close>

lemma align_up_ok:
  assumes "unat st < 2 ^ 52" "k \<le> 52"
  shows "\<exists>a. align_up st (2 ^ k) = Inr a \<and> unat a = round_up (unat st) (2 ^ k)"
proof -
  have pk: "(2 :: nat) ^ k \<le> 2 ^ 52" using assms(2) by (rule power_increasing) simp
  have k: "unat (2 ^ k :: u64) = 2 ^ k"
    using unat_of_nat_u64 [of "2 ^ k"] pk by simp
  have s: "unat (st + 2 ^ k) = unat st + 2 ^ k"
    by (subst unat_add_u64) (use assms pk k in simp_all)
  have "align_up st (2 ^ k) = Inr ((st + 2 ^ k - 1) AND NOT (2 ^ k - 1))"
    using assms(1) pk by (simp add: align_up_def u64_add_def u64_sub_def k s word_le_nat_alt Suc_le_eq)
  moreover have "unat ((st + 2 ^ k - 1) AND NOT (2 ^ k - 1)) = round_up (unat st) (2 ^ k)"
    by (rule unat_round_up_word) (use assms pk in simp_all)
  ultimately show ?thesis by blast
qed

text \<open>
  Range \<open>j\<close> can serve a request of \<open>sz\<close> bytes at alignment \<open>al\<close>: the block fits at the
  first aligned address, and cutting it out does not need an array slot that is not there.
\<close>

definition serves :: "boot_alloc \<Rightarrow> nat \<Rightarrow> nat \<Rightarrow> nat \<Rightarrow> bool" where
  "serves s sz al j \<longleftrightarrow>
     (let st = unat (rstart (active s ! j)); en = unat (rend (active s ! j)); a = round_up st al
      in a + sz \<le> en \<and> (range_count s < MAX_RANGES \<or> a = st \<or> a + sz = en))"

lemma alloc_loop_step:
  assumes "arr_ok s" "ranges_wf (active s)" "i < range_count s" "k \<le> 52" "unat sz < 2 ^ 63"
  obtains a where "unat a = round_up (unat (rstart (active s ! i))) (2 ^ k)"
    "serves s (unat sz) (2 ^ k) i \<Longrightarrow> alloc_loop pf s sz (2 ^ k) i =
       and_then (take_from_range s i a sz) (\<lambda>s. and_then (pf a) (\<lambda>frame. Inr (Some frame, s)))"
    "\<not> serves s (unat sz) (2 ^ k) i \<Longrightarrow> alloc_loop pf s sz (2 ^ k) i = alloc_loop pf s sz (2 ^ k) (Suc i)"
proof -
  let ?r = "active s ! i"
  have "?r \<in> set (active s)" using assms(1,3) length_active by simp
  then have ok: "range_ok ?r" using assms(2) ranges_wf_ok by blast
  then have lt: "unat (rstart ?r) < 2 ^ 52" "unat (rend ?r) \<le> 2 ^ 52"
    by (auto simp: range_ok_def word_less_nat_alt)
  obtain a where a: "align_up (rstart ?r) (2 ^ k) = Inr a" "unat a = round_up (unat (rstart ?r)) (2 ^ k)"
    using align_up_ok [OF lt(1) assms(4)] by blast
  have pk: "(2 :: nat) ^ k \<le> 2 ^ 52" using assms(4) by (rule power_increasing) simp
  have ub: "unat (rstart ?r) \<le> unat a" "unat a < 2 ^ 53"
    using round_up_bounds [of "2 ^ k" "unat (rstart ?r)"] lt pk a(2) by simp_all
  then have sum: "unat a + unat sz < 2 ^ 64" "unat (a + sz) = unat a + unat sz"
    using assms(5) by (simp_all add: unat_add_u64)
  have fr: "free_ranges s ! i = ?r" using nth_active [OF assms(3)] by simp
  have eq: "alloc_loop pf s sz (2 ^ k) i =
      (if serves s (unat sz) (2 ^ k) i
       then and_then (take_from_range s i a sz) (\<lambda>s. and_then (pf a) (\<lambda>frame. Inr (Some frame, s)))
       else alloc_loop pf s sz (2 ^ k) (Suc i))"
    using assms(3) ub(1) sum
    by (subst alloc_loop.simps)
      (auto simp: fr a(1) u64_add_def serves_def Let_def a(2) [symmetric] word_less_nat_alt word_le_nat_alt)
  show ?thesis by (rule that [OF a(2)]) (use eq in simp_all)
qed

lemma alloc_loop_ok:
  assumes s: "arr_ok s" "ranges_wf (active s)"
    and k: "k \<le> 52" and sz: "unat sz < 2 ^ 63" "0 < sz" "4096 dvd unat sz"
    and bytes: "unat (allocated_bytes s) + card (free_bytes s) < 2 ^ 64"
    and pf: "phys_frame_laws pf start_address"
  shows "(alloc_loop pf s sz (2 ^ k) i = Inr (None, s) \<and> (\<forall>j. i \<le> j \<and> j < range_count s \<longrightarrow> \<not> serves s (unat sz) (2 ^ k) j)) \<or>
    (\<exists>j f s'. i \<le> j \<and> j < range_count s \<and> serves s (unat sz) (2 ^ k) j \<and>
       (\<forall>m. i \<le> m \<and> m < j \<longrightarrow> \<not> serves s (unat sz) (2 ^ k) m) \<and>
       alloc_loop pf s sz (2 ^ k) i = Inr (Some f, s') \<and>
       unat (start_address f) = round_up (unat (rstart (active s ! j))) (2 ^ k) \<and>
       take_from_range s j (start_address f) sz = Inr s')"
proof (induction "range_count s - i" arbitrary: i)
  case 0
  then show ?case by (auto simp: alloc_loop.simps [of pf s sz "2 ^ k" i])
next
  case (Suc n)
  then have i: "i < range_count s" by linarith
  obtain a where a: "unat a = round_up (unat (rstart (active s ! i))) (2 ^ k)"
    "serves s (unat sz) (2 ^ k) i \<Longrightarrow> alloc_loop pf s sz (2 ^ k) i =
       and_then (take_from_range s i a sz) (\<lambda>s. and_then (pf a) (\<lambda>frame. Inr (Some frame, s)))"
    "\<not> serves s (unat sz) (2 ^ k) i \<Longrightarrow> alloc_loop pf s sz (2 ^ k) i = alloc_loop pf s sz (2 ^ k) (Suc i)"
    using alloc_loop_step [OF s i k sz(1)] by metis
  show ?case
  proof (cases "serves s (unat sz) (2 ^ k) i")
    case False
    have "n = range_count s - Suc i" using Suc(2) by linarith
    note IH = Suc(1) [OF this, folded a(3) [OF False]]
    have le: "\<not> serves s (unat sz) (2 ^ k) m" if "i \<le> m" "Suc i \<le> m \<Longrightarrow> \<not> serves s (unat sz) (2 ^ k) m" for m
      using that False by (cases "m = i") auto
    from IH show ?thesis
    proof (elim disjE exE conjE)
      fix j f s'
      assume "Suc i \<le> j" "j < range_count s" "serves s (unat sz) (2 ^ k) j"
        "\<forall>m. Suc i \<le> m \<and> m < j \<longrightarrow> \<not> serves s (unat sz) (2 ^ k) m"
        "alloc_loop pf s sz (2 ^ k) i = Inr (Some f, s')"
        "unat (start_address f) = round_up (unat (rstart (active s ! j))) (2 ^ k)"
        "take_from_range s j (start_address f) sz = Inr s'"
      then show ?thesis using le by (intro disjI2 exI [of _ j] exI [of _ f] exI [of _ s']) auto
    qed (use le in auto)
  next
    case True
    let ?r = "active s ! i"
    have "?r \<in> set (active s)" using s(1) i length_active by simp
    then have ok: "range_ok ?r" using s(2) ranges_wf_ok by blast
    have fits: "unat a + unat sz \<le> unat (rend ?r)"
      using True a(1) by (simp add: serves_def Let_def)
    have sum: "unat (a + sz) = unat a + unat sz"
      using fits ok by (subst unat_add_u64) (auto simp: range_ok_def)
    have room: "range_count s < MAX_RANGES \<or> a = rstart ?r \<or> a + sz = rend ?r"
      using True a(1) sum by (simp add: serves_def Let_def word_unat_eq_iff)
    have ge: "unat (rstart ?r) \<le> unat a" using a(1) round_up_bounds [of "2 ^ k"] by simp
    have "0 < unat sz" using sz(2) by (simp add: word_less_nat_alt)
    have "{unat a..<unat a + unat sz} \<subseteq> range_bytes ?r"
      using ge fits by (auto simp: range_bytes_def)
    then have "card {unat a..<unat a + unat sz} \<le> card (bytes (active s))"
      using \<open>?r \<in> set (active s)\<close> by (intro card_mono finite_bytes) (auto simp: bytes_def)
    then have "unat (allocated_bytes s) + unat sz < 2 ^ 64"
      using bytes by (simp add: free_bytes_def)
    then obtain s' where s': "take_from_range s i a sz = Inr s'"
      using take_from_range_ok [OF s i refl, of a sz] fits ge room sum \<open>0 < unat sz\<close>
      by (auto simp: word_le_nat_alt word_less_nat_alt)
    have "4096 dvd unat a"
      unfolding a(1) by (rule page_dvd_round_up) (use ok in \<open>simp add: range_ok_def\<close>)
    moreover have "unat a < 2 ^ 52" using fits ok \<open>0 < unat sz\<close> by (simp add: range_ok_def)
    ultimately obtain f where "pf a = Inr f" "start_address f = a"
      using phys_frame_lawsD [OF pf] by blast
    with True i s' a(1,2) show ?thesis by (intro disjI2 exI [of _ i]) auto
  qed
qed

subsection \<open>Allocation\<close>

text \<open>Cutting the chosen block out of a range keeps the invariant and the accounting.\<close>

lemma take_from_range_inv:
  assumes inv: "boot_inv s" and j: "j < range_count s" "serves s (unat sz) (2 ^ k) j"
    and sz: "0 < sz" "4096 dvd unat sz"
    and a: "unat a = round_up (unat (rstart (active s ! j))) (2 ^ k)"
    and s': "take_from_range s j a sz = Inr s'"
  shows "boot_inv s'" "{unat a..<unat a + unat sz} \<subseteq> range_bytes (active s ! j)"
    "{unat a..<unat a + unat sz} \<subseteq> free_bytes s"
    "free_bytes s' = free_bytes s - {unat a..<unat a + unat sz}"
    "unat (allocated_bytes s') = unat (allocated_bytes s) + unat sz" "total_bytes s' = total_bytes s"
    "4096 dvd unat a"
proof -
  let ?r = "active s ! j" and ?B = "{unat a..<unat a + unat sz}"
  have s: "arr_ok s" "ranges_wf (active s)" "unat (allocated_bytes s) + card (free_bytes s) = unat (total_bytes s)"
    using inv by (simp_all add: boot_inv_def)
  have mem: "?r \<in> set (active s)" using s(1) j(1) length_active by simp
  have ok: "range_ok ?r" using ranges_wf_ok [OF s(2) mem] .
  have fits: "unat a + unat sz \<le> unat (rend ?r)" "unat (rstart ?r) \<le> unat a"
    using j(2) a round_up_bounds [of "2 ^ k"] by (simp_all add: serves_def Let_def)
  have sum: "unat (a + sz) = unat a + unat sz"
    using fits ok by (subst unat_add_u64) (auto simp: range_ok_def)
  have room: "range_count s < MAX_RANGES \<or> a = rstart ?r \<or> a + sz = rend ?r"
    using j(2) a sum by (simp add: serves_def Let_def word_unat_eq_iff)
  show sub: "?B \<subseteq> range_bytes ?r" using fits by (auto simp: range_bytes_def)
  then show free: "?B \<subseteq> free_bytes s" using mem by (auto simp: free_bytes_def bytes_def)
  have card: "unat sz \<le> card (free_bytes s)"
    using card_mono [OF _ free] by (simp add: free_bytes_def)
  have big: "unat (total_bytes s) < 2 ^ 64" using unsigned_less [of "total_bytes s"] by simp
  have nz: "0 < unat sz" using sz(1) by (simp add: word_less_nat_alt)
  have dv: "4096 dvd unat a"
    unfolding a by (rule page_dvd_round_up) (use ok in \<open>simp add: range_ok_def\<close>)
  show "4096 dvd unat a" by (rule dv)
  have alloc: "unat (allocated_bytes s) + unat sz < 2 ^ 64" using card s(3) big by linarith
  have rng: "rstart ?r \<le> a" "a < a + sz" "a + sz \<le> rend ?r" "4096 dvd unat (a + sz)"
    using fits sum nz dv sz(2) by (simp_all add: word_le_nat_alt word_less_nat_alt dvd_add)
  have act: "active s' = take j (active s) @ pieces ?r a (a + sz) @ drop (Suc j) (active s)"
    and st: "arr_ok s'" "allocated_bytes s' = allocated_bytes s + sz" "total_bytes s' = total_bytes s"
    using take_from_range_ok [OF s(1,2) j(1) refl rng(1-3) room alloc] s' by auto
  have split: "active s = take j (active s) @ ?r # drop (Suc j) (active s)"
    using id_take_nth_drop [of j "active s"] j(1) length_active [OF s(1)] by simp
  have wf: "ranges_wf (take j (active s) @ ?r # drop (Suc j) (active s))" using s(2) split by simp
  show fb: "free_bytes s' = free_bytes s - ?B"
    using split_wf(2) [OF wf rng(1-3) dv rng(4)] split sum by (simp add: free_bytes_def act)
  show ab: "unat (allocated_bytes s') = unat (allocated_bytes s) + unat sz"
    using st(2) alloc by (simp add: unat_add_u64)
  show "total_bytes s' = total_bytes s" by (rule st(3))
  have "card (free_bytes s') = card (free_bytes s) - unat sz"
    unfolding fb using free by (subst card_Diff_subset) auto
  with card s(3) ab st(3) have "unat (allocated_bytes s') + card (free_bytes s') = unat (total_bytes s')"
    by simp
  with st(1) split_wf(1) [OF wf rng(1-3) dv rng(4)] show "boot_inv s'"
    by (simp add: boot_inv_def act)
qed

text \<open>The two outcomes of a request, in terms of the ranges that can serve it.\<close>

lemma allocate_cases:
  assumes "boot_inv s" "phys_frame_laws phys_frame start_address" "0 < count" "unat count < 2 ^ 51" "k \<le> 52"
  obtains (none) "allocate_contiguous_aligned phys_frame s count (2 ^ k) = Inr (None, s)"
      "\<And>j. j < range_count s \<Longrightarrow> \<not> serves s (unat count * 4096) (2 ^ k) j"
  | (some) j f s' where "j < range_count s" "serves s (unat count * 4096) (2 ^ k) j"
      "\<And>m. m < j \<Longrightarrow> \<not> serves s (unat count * 4096) (2 ^ k) m"
      "allocate_contiguous_aligned phys_frame s count (2 ^ k) = Inr (Some f, s')"
      "unat (start_address f) = round_up (unat (rstart (active s ! j))) (2 ^ k)"
      "take_from_range s j (start_address f) (count * 4096) = Inr s'"
      "unat (count * 4096) = unat count * 4096" "0 < count * 4096"
proof -
  have sz: "unat (count * 4096) = unat count * 4096"
    using assms(4) by (simp add: unat_word_ariths)
  have nz: "0 < count * 4096" using assms(3) by (simp add: word_less_nat_alt sz)
  have s: "arr_ok s" "ranges_wf (active s)" "unat (allocated_bytes s) + card (free_bytes s) < 2 ^ 64"
    using assms(1) unsigned_less [of "total_bytes s"] by (simp_all add: boot_inv_def)
  have eq: "allocate_contiguous_aligned phys_frame s count (2 ^ k) =
      alloc_loop phys_frame s (count * 4096) (2 ^ k) 0"
    using assms(3,4) by (auto simp: allocate_contiguous_aligned_def u64_mul_def)
  have small: "unat (count * 4096) < 2 ^ 63" using sz assms(4) by simp
  from alloc_loop_ok [OF s(1,2) assms(5) small nz _ s(3) assms(2), of 0] show thesis
    using none some sz nz by (auto simp: eq)
qed




text \<open>
  C12: With the invariant in place, \<open>allocate_contiguous_aligned\<close> never panics: it either leaves
  the state unchanged and returns \<open>None\<close>, or returns a frame at an address that is a multiple
  of the alignment and of the page size, whose \<open>count\<close> pages were all free, after which exactly
  these bytes are no longer free, the byte counter has grown by exactly their number and the
  invariant holds again.
\<close>

theorem boot_alloc_correct:
  assumes "boot_inv s" "phys_frame_laws phys_frame start_address" "0 < count" "unat count < 2 ^ 51" "k \<le> 52"
  shows "\<exists>res s'. allocate_contiguous_aligned phys_frame s count (2 ^ k) = Inr (res, s') \<and> boot_inv s' \<and>
    (case res of
       None \<Rightarrow> s' = s
     | Some f \<Rightarrow>
         let a = unat (start_address f); block = {a..<a + unat count * 4096}
         in 2 ^ k dvd a \<and> 4096 dvd a \<and> block \<subseteq> free_bytes s \<and> free_bytes s' = free_bytes s - block \<and>
            unat (allocated_bytes s') = unat (allocated_bytes s) + unat count * 4096)"
  using assms
proof (cases rule: allocate_cases)
  case none
  with assms(1) show ?thesis by simp
next
  case (some j f s')
  have dv: "4096 dvd unat (count * 4096)" by (simp add: some(7))
  note t = take_from_range_inv [OF assms(1) some(1) some(2) [folded some(7)] some(8) dv some(5,6)]
  have "2 ^ k dvd unat (start_address f)"
    unfolding some(5) by (rule round_up_bounds) simp
  with t some(4,7) show ?thesis by (simp add: Let_def)
qed











subsection \<open>Release\<close>

lemma coal_lower: "x \<in> set (coal (y # zs)) \<Longrightarrow> ranges_wf (y # zs) \<Longrightarrow> rstart y \<le> rstart x"
proof (induction "y # zs" arbitrary: y zs rule: coal.induct)
  case (1 a b zs)
  have wf: "range_ok b" "range_ok a" "rend a \<le> rstart b" "ranges_wf (b # zs)"
    using "1.prems"(2) by (auto simp: ranges_wf_Cons)
  show ?case
  proof (cases "rend a = rstart b")
    case True
    have "ranges_wf (a\<lparr>rend := rend b\<rparr> # zs)"
      using "1.prems"(2) True by (auto simp: ranges_wf_Cons range_ok_def)
    with "1.hyps"(1) [OF True] "1.prems"(1) True show ?thesis by simp
  next
    case False
    have "rstart a \<le> rstart b" using wf(2,3) by (auto dest: range_ok_less)
    with "1.hyps"(2) [OF False _ wf(4)] "1.prems"(1) False show ?thesis by (auto intro: order_trans)
  qed
qed auto

lemma coal_ok:
  "ranges_wf xs \<Longrightarrow> ranges_wf (coal xs) \<and> bytes (coal xs) = bytes xs \<and> separated (coal xs)"
proof (induction xs rule: coal.induct)
  case (1 x y zs)
  have wf: "range_ok x" "range_ok y" "rend x \<le> rstart y" "ranges_wf (y # zs)"
    using "1.prems" by (auto simp: ranges_wf_Cons)
  show ?case
  proof (cases "rend x = rstart y")
    case True
    have "ranges_wf (x\<lparr>rend := rend y\<rparr> # zs)"
      using "1.prems" True by (auto simp: ranges_wf_Cons range_ok_def)
    moreover have "range_bytes (x\<lparr>rend := rend y\<rparr>) = range_bytes x \<union> range_bytes y"
      using True wf by (auto simp: range_bytes_def range_ok_def word_less_nat_alt)
    ultimately show ?thesis using "1.IH"(1) [OF True] True by (simp add: Un_assoc)
  next
    case False
    then have lt: "rend x < rstart y" using wf(3) by simp
    have low: "\<forall>z\<in>set (coal (y # zs)). rend x < rstart z"
      using coal_lower [OF _ wf(4)] lt by (auto intro: order_less_le_trans)
    with "1.IH"(2) [OF False wf(4)] False wf(1) show ?thesis
      by (auto simp: ranges_wf_Cons separated_def less_imp_le)
  qed
qed (auto simp: separated_def)

lemma ins_ok:
  assumes wf: "ranges_wf xs" and r: "range_ok r" "range_bytes r \<inter> bytes xs = {}"
  shows "ranges_wf (ins r xs)" "bytes (ins r xs) = range_bytes r \<union> bytes xs"
proof -
  let ?P = "\<lambda>x. rstart x \<le> rstart r"
  define pre where "pre = takeWhile ?P xs"
  define post where "post = dropWhile ?P xs"
  have xs: "xs = pre @ post" by (simp add: pre_def post_def)
  have w: "ranges_wf pre" "ranges_wf post" "\<forall>x\<in>set pre. \<forall>y\<in>set post. rend x \<le> rstart y"
    using wf unfolding xs ranges_wf_append by auto
  have rr: "unat (rstart r) \<in> range_bytes r" using r(1) by (simp add: range_bytes_def range_ok_def word_less_nat_alt)
  have left: "rend x \<le> rstart r" if x: "x \<in> set pre" for x
  proof (rule ccontr)
    assume "\<not> ?thesis"
    moreover have "rstart x \<le> rstart r" using x unfolding pre_def by (rule set_takeWhileD [THEN conjunct2])
    ultimately have "unat (rstart r) \<in> range_bytes x"
      by (simp add: range_bytes_def word_le_nat_alt not_le)
    then have "unat (rstart r) \<in> bytes xs" using x by (auto simp: bytes_def xs)
    with rr r(2) show False by blast
  qed
  have gt: "rstart r < rstart y" if y: "y \<in> set post" for y
  proof (cases post)
    case (Cons z zs)
    then have "\<not> ?P z" using hd_dropWhile [of ?P xs] by (simp add: post_def)
    moreover have "rstart z \<le> rstart y"
      using y w(2) range_ok_less [of z] unfolding Cons ranges_wf_Cons by auto
    ultimately show ?thesis by simp
  qed (use y in simp)
  have right: "rend r \<le> rstart y" if y: "y \<in> set post" for y
  proof (rule ccontr)
    assume "\<not> ?thesis"
    then have "unat (rstart y) \<in> range_bytes r"
      using gt [OF y] by (simp add: range_bytes_def word_le_nat_alt word_less_nat_alt)
    moreover have "unat (rstart y) \<in> range_bytes y"
      using ranges_wf_ok [OF w(2) y] by (simp add: range_bytes_def range_ok_def word_less_nat_alt)
    then have "unat (rstart y) \<in> bytes xs" using y by (auto simp: bytes_def xs)
    ultimately show False using r(2) by blast
  qed
  have eq: "ins r xs = pre @ r # post" by (simp add: ins_def pre_def post_def)
  show "ranges_wf (ins r xs)"
    unfolding eq using w r(1) left right by (auto simp: ranges_wf_append ranges_wf_Cons)
  show "bytes (ins r xs) = range_bytes r \<union> bytes xs"
    unfolding eq by (auto simp: xs)
qed

text \<open>Two merged, sorted range lists with the same bytes are the same list.\<close>

lemma separated_head:
  assumes "list_all range_ok (a # as)" "separated (a # as)"
  shows "n \<in> bytes (a # as) \<Longrightarrow> unat (rstart a) \<le> n"
    and "unat (rstart a) \<in> bytes (a # as)" "unat (rend a) \<notin> bytes (a # as)"
    and "range_bytes a \<inter> bytes as = {}"
proof -
  have ok: "unat (rstart a) < unat (rend a)" using assms(1) by (simp add: range_ok_def word_less_nat_alt)
  have after: "unat (rend a) < m" if "m \<in> bytes as" for m
    using assms(2) that by (force simp: separated_def bytes_def range_bytes_def word_less_nat_alt)
  show "unat (rstart a) \<le> n" if "n \<in> bytes (a # as)"
    using that ok after [of n] by (auto simp: range_bytes_def)
  show "unat (rstart a) \<in> bytes (a # as)" using ok by (simp add: range_bytes_def)
  show "unat (rend a) \<notin> bytes (a # as)" using after [of "unat (rend a)"] by (auto simp: range_bytes_def)
  show "range_bytes a \<inter> bytes as = {}" using after by (force simp: range_bytes_def)
qed

lemma separated_unique:
  assumes "list_all range_ok xs" "separated xs" "list_all range_ok ys" "separated ys" "bytes xs = bytes ys"
  shows "xs = ys"
  using assms
proof (induction xs arbitrary: ys)
  case Nil
  then show ?case
    using separated_head(2) [of "hd ys" "tl ys"] by (cases ys) auto
next
  case (Cons x xs)
  then obtain y ys' where ys: "ys = y # ys'"
    using separated_head(2) [of x xs] by (cases ys) auto
  note hx = separated_head [OF Cons.prems(1,2)]
    and hy = separated_head [OF Cons.prems(3,4) [unfolded ys]]
    and eq = Cons.prems(5) [unfolded ys]
  have st: "unat (rstart x) = unat (rstart y)"
    by (rule antisym) (rule hx(1), unfold eq, rule hy(2), rule hy(1), fold eq, rule hx(2))
  have "\<not> unat (rend x) < unat (rend y)" "\<not> unat (rend y) < unat (rend x)"
    using hx(1-3) hy(1-3) eq st Cons.prems(1,3)
    by (auto simp: ys range_bytes_def range_ok_def word_less_nat_alt)
  then have xy: "x = y" using st by (simp add: word_unat_eq_iff)
  then have "bytes xs = bytes ys'" using eq hx(4) hy(4) by auto
  then show ?case
    using Cons.IH [of ys'] Cons.prems xy by (simp add: ys separated_def)
qed

lemma free_contiguous_ok:
  assumes inv: "boot_inv s" and a: "4096 dvd unat (start_address frame)"
    "unat (start_address frame) + unat count * 4096 \<le> 2 ^ 52" "0 < count"
    and out: "{unat (start_address frame)..<unat (start_address frame) + unat count * 4096} \<inter> free_bytes s = {}"
    and acc: "unat count * 4096 \<le> unat (allocated_bytes s)" and room: "range_count s < MAX_RANGES"
  shows "\<exists>s'. free_contiguous start_address s frame count = Inr s' \<and> boot_inv s' \<and> separated (active s') \<and>
    free_bytes s' = free_bytes s \<union>
      {unat (start_address frame)..<unat (start_address frame) + unat count * 4096} \<and>
    unat (allocated_bytes s') = unat (allocated_bytes s) - unat count * 4096 \<and>
    total_bytes s' = total_bytes s"
proof -
  let ?a = "start_address frame" and ?n = "unat count * 4096"
  let ?r = "range_new ?a (?a + count * 4096)"
  let ?s0 = "s\<lparr>allocated_bytes := saturating_sub (allocated_bytes s) (count * 4096)\<rparr>"
  have sz: "unat (count * 4096) = ?n" using a(2) by (simp add: unat_word_ariths)
  have e: "unat (?a + count * 4096) = unat ?a + ?n"
    using a(2) sz by (subst unat_add_u64) simp_all
  have nz: "0 < ?n" using a(3) by (simp add: word_less_nat_alt)
  have r: "range_ok ?r" "range_bytes ?r = {unat ?a..<unat ?a + ?n}"
    using a e nz by (simp_all add: range_ok_def range_new_def range_bytes_def word_less_nat_alt dvd_add)
  have s: "arr_ok s" "ranges_wf (active s)" "unat (allocated_bytes s) + card (free_bytes s) = unat (total_bytes s)"
    using inv by (simp_all add: boot_inv_def)
  have s0: "arr_ok ?s0" "active ?s0 = active s" using s(1) by (simp_all add: arr_ok_def active_def)
  have al: "unat (allocated_bytes ?s0) = unat (allocated_bytes s) - ?n"
    using acc by (simp add: saturating_sub_def word_le_nat_alt sz unat_sub)
  obtain s1 where s1: "insert_range_sorted ?s0 ?r = Inr s1" "active s1 = ins ?r (active s)" "arr_ok s1" "same_bytes ?s0 s1"
    using insert_range_ok [OF s0(1), of ?r] room s0(2) by auto
  obtain s2 where s2: "coalesce_ranges s1 = Inr s2" "active s2 = coal (ins ?r (active s))" "arr_ok s2" "same_bytes s1 s2"
    using coalesce_ranges_ok [OF s1(3)] s1(2) by auto
  have i: "ranges_wf (ins ?r (active s))" "bytes (ins ?r (active s)) = range_bytes ?r \<union> free_bytes s"
    using ins_ok [OF s(2) r(1)] out r(2) by (simp_all add: free_bytes_def)
  have run: "free_contiguous start_address s frame count = Inr s2"
    using a nz s1(1) s2(1) sz by (auto simp: free_contiguous_def Let_def u64_mul_def u64_add_def word_less_nat_alt)
  have fb: "free_bytes s2 = free_bytes s \<union> {unat ?a..<unat ?a + ?n}"
    using coal_ok [OF i(1)] i(2) r(2) by (auto simp: free_bytes_def s2(2))
  have card: "card (free_bytes s2) = card (free_bytes s) + ?n"
    unfolding fb using out by (subst card_Un_disjoint) (auto simp: free_bytes_def)
  have b: "allocated_bytes s2 = allocated_bytes ?s0" "total_bytes s2 = total_bytes s"
    using s1(4) s2(4) by (simp_all add: same_bytes_def)
  have "boot_inv s2"
    using s(3) card b al acc s2(3) coal_ok [OF i(1)] by (simp add: boot_inv_def s2(2))
  with run fb b al coal_ok [OF i(1)] show ?thesis by (auto simp: s2(2))
qed

text \<open>
  C20: Releasing \<open>count\<close> page-aligned frames that are not free (and whose bytes are accounted as
  allocated) while the range array has a spare slot never panics, adds exactly these bytes to the
  free bytes, subtracts exactly their number from the byte counter, restores the invariant, and
  leaves the free ranges fully merged: no two of them touch any more.
\<close>

theorem boot_free_correct:
  assumes "boot_inv s" "4096 dvd unat (start_address frame)"
    "unat (start_address frame) + unat count * 4096 \<le> 2 ^ 52" "0 < count"
    "{unat (start_address frame)..<unat (start_address frame) + unat count * 4096} \<inter> free_bytes s = {}"
    "unat count * 4096 \<le> unat (allocated_bytes s)" "range_count s < MAX_RANGES"
  shows "\<exists>s'. free_contiguous start_address s frame count = Inr s' \<and> boot_inv s' \<and> separated (active s') \<and>
    free_bytes s' = free_bytes s \<union>
      {unat (start_address frame)..<unat (start_address frame) + unat count * 4096} \<and>
    unat (allocated_bytes s') = unat (allocated_bytes s) - unat count * 4096"
  using free_contiguous_ok [of s start_address frame count, OF assms] by blast

text \<open>
  C21: Releasing what was just allocated restores the allocator exactly: starting from fully merged
  ranges, an allocation followed by the release of the frame it returned gives back the same list
  of free ranges and the same byte counters.
\<close>

theorem boot_alloc_free_roundtrip:
  assumes "boot_inv s" "phys_frame_laws phys_frame start_address" "0 < count" "unat count < 2 ^ 51" "k \<le> 52"
    and "separated (active s)"
    and "allocate_contiguous_aligned phys_frame s count (2 ^ k) = Inr (Some f, s')" "range_count s' < MAX_RANGES"
  shows "\<exists>s''. free_contiguous start_address s' f count = Inr s'' \<and> active s'' = active s \<and>
    allocated_bytes s'' = allocated_bytes s \<and> total_bytes s'' = total_bytes s"
  using assms(1-5)
proof (cases rule: allocate_cases)
  case none
  with assms(7) show ?thesis by simp
next
  case (some j f' t)
  then have eq: "f' = f" "t = s'" using assms(7) by simp_all
  let ?a = "unat (start_address f)" and ?n = "unat count * 4096"
  have dv: "4096 dvd unat (count * 4096)" by (simp add: some(7))
  note t = take_from_range_inv [OF assms(1) some(1) some(2) [folded some(7)] some(8) dv some(5,6),
      unfolded eq some(7)]
  have wf: "list_all range_ok (active s)" using assms(1) by (simp add: boot_inv_def ranges_wf_def)
  have n: "0 < ?n" using assms(3) by (simp add: word_less_nat_alt)
  have "?a + ?n - 1 \<in> free_bytes s" using t(3) n by auto
  then have "?a + ?n \<le> 2 ^ 52" using bytes_bound [OF wf] n by (fastforce simp: free_bytes_def)
  then obtain s'' where s'': "free_contiguous start_address s' f count = Inr s''" "boot_inv s''"
      "separated (active s'')" "free_bytes s'' = free_bytes s' \<union> {?a..<?a + ?n}"
      "unat (allocated_bytes s'') = unat (allocated_bytes s') - ?n" "total_bytes s'' = total_bytes s'"
    using free_contiguous_ok [of s' start_address f count, OF t(1) t(7) _ assms(3) _ _ assms(8)] t(4,5) by auto
  have "free_bytes s'' = free_bytes s" using s''(4) t(3,4) by auto
  then have "active s'' = active s"
    using s''(2,3) wf assms(6) by (intro separated_unique) (auto simp: boot_inv_def ranges_wf_def free_bytes_def)
  with s'' t(5,6) show ?thesis by (auto simp: word_unat_eq_iff)
qed

text \<open>
  C23: A release while all \<open>MAX_RANGES\<close> slots are in use panics, whatever the state of the free
  ranges: the new range is inserted before merging, even where it would merge with a neighbour.
\<close>

theorem boot_free_full_panics:
  assumes "range_count s \<ge> MAX_RANGES" "0 < count"
    "unat (start_address frame) + unat count * 4096 < 2 ^ 64"
  shows "free_contiguous start_address s frame count =
    Inl (PanicMsg ''BootInfoFrameAllocator: exceeded maximum number of free ranges'')"
proof -
  have "unat (count * 4096) = unat count * 4096" using assms(3) by (simp add: unat_word_ariths)
  with assms show ?thesis
    by (auto simp: free_contiguous_def Let_def u64_mul_def u64_add_def insert_range_sorted_def)
qed

text \<open>
  \<open>free_memory\<close> is exact: under the invariant it never underflows and returns the number of
  bytes in the free ranges.
\<close>

lemma boot_free_memory_exact:
  assumes "boot_inv s"
  shows "\<exists>n. free_memory s = Inr n \<and> unat n = card (free_bytes s)"
proof -
  have "allocated_bytes s \<le> total_bytes s"
    using assms by (simp add: boot_inv_def word_le_nat_alt)
  then show ?thesis
    using assms by (auto simp: free_memory_def u64_sub_def boot_inv_def unat_sub)
qed

subsection \<open>Construction\<close>

lemma shift_greater_spec:
  assumes "j < length fr"
  shows "case shift_greater fr key j of (fr', p) \<Rightarrow>
    p \<le> j \<and> length fr' = length fr \<and>
    (\<forall>m < length fr. fr' ! m = (if p < m \<and> m \<le> j then fr ! (m - 1) else fr ! m)) \<and>
    (\<forall>m. p \<le> m \<and> m < j \<longrightarrow> rstart (fr ! m) > rstart key) \<and>
    (0 < p \<longrightarrow> rstart (fr ! (p - 1)) \<le> rstart key)"
  using assms
proof (induction j arbitrary: fr)
  case 0
  then show ?case by simp
next
  case (Suc j)
  show ?case
  proof (cases "rstart (fr ! j) > rstart key")
    case False
    then show ?thesis by (auto simp: not_less)
  next
    case True
    let ?fr = "fr[Suc j := fr ! j]"
    obtain fr' p where sg: "shift_greater ?fr key j = (fr', p)" by fastforce
    have "j < length ?fr" using Suc.prems by simp
    from Suc.IH [OF this] have IH: "p \<le> j" "length fr' = length fr"
        "\<And>m. m < length fr \<Longrightarrow> fr' ! m = (if p < m \<and> m \<le> j then ?fr ! (m - 1) else ?fr ! m)"
        "\<And>m. p \<le> m \<Longrightarrow> m < j \<Longrightarrow> rstart (?fr ! m) > rstart key"
        "0 < p \<Longrightarrow> rstart (?fr ! (p - 1)) \<le> rstart key"
      by (auto simp: sg)
    have nth: "fr' ! m = (if p < m \<and> m \<le> Suc j then fr ! (m - 1) else fr ! m)" if m: "m < length fr" for m
      using IH(3) [OF m] IH(1) Suc.prems by (auto simp: nth_list_update le_Suc_eq)
    have gt: "rstart (fr ! m) > rstart key" if "p \<le> m" "m < Suc j" for m
      using that IH(4) [of m] True by (cases "m = j") auto
    have "0 < p \<Longrightarrow> rstart (fr ! (p - 1)) \<le> rstart key" using IH(1,5) by simp
    with True sg IH(1,2) nth gt show ?thesis by simp
  qed
qed

lemma sort_step_take:
  assumes "i < length fr" "sorted_wrt (\<lambda>x y. rstart x \<le> rstart y) (take i fr)"
  shows "take (Suc i) (sort_step fr i) = ins (fr ! i) (take i fr)" "length (sort_step fr i) = length fr"
    "drop (Suc i) (sort_step fr i) = drop (Suc i) fr"
proof -
  let ?key = "fr ! i" and ?P = "\<lambda>x. rstart x \<le> rstart (fr ! i)"
  obtain fr' p where sg: "shift_greater fr ?key i = (fr', p)" by fastforce
  have p: "p \<le> i" "length fr' = length fr"
      "\<And>m. m < length fr \<Longrightarrow> fr' ! m = (if p < m \<and> m \<le> i then fr ! (m - 1) else fr ! m)"
      "\<And>m. p \<le> m \<Longrightarrow> m < i \<Longrightarrow> rstart (fr ! m) > rstart ?key"
      "0 < p \<Longrightarrow> rstart (fr ! (p - 1)) \<le> rstart ?key"
    using shift_greater_spec [OF assms(1), of ?key] by (auto simp: sg)
  have step: "sort_step fr i = fr'[p := ?key]" by (simp add: sort_step_def sg Let_def)
  show "length (sort_step fr i) = length fr" by (simp add: step p(2))
  show "drop (Suc i) (sort_step fr i) = drop (Suc i) fr"
    unfolding step using p by (intro nth_equalityI) auto
  have le: "rstart (fr ! m) \<le> rstart ?key" if m: "m < p" for m
  proof -
    have "rstart (fr ! m) \<le> rstart (fr ! (p - 1))"
      using assms m p(1) by (cases "m = p - 1") (auto simp: sorted_wrt_iff_nth_less)
    then show ?thesis using p(5) m by simp
  qed
  have tw: "takeWhile ?P (take i fr) = take p (take i fr)"
    by (rule takeWhile_eq_take_P_nth) (use le p(1,4) assms(1) in \<open>auto simp: not_le\<close>)
  have dw: "dropWhile ?P (take i fr) = drop p (take i fr)"
    using tw takeWhile_dropWhile_id [of ?P "take i fr"] append_take_drop_id [of p "take i fr"]
    by (metis same_append_eq)
  show "take (Suc i) (sort_step fr i) = ins ?key (take i fr)"
    unfolding ins_def tw dw
  proof (rule nth_equalityI)
    show "length (take (Suc i) (sort_step fr i)) = length (take p (take i fr) @ ?key # drop p (take i fr))"
      using assms(1) p by (simp add: step)
    fix m assume "m < length (take (Suc i) (sort_step fr i))"
    then have m: "m \<le> i" "m < length fr" by (simp_all add: step p(2))
    show "take (Suc i) (sort_step fr i) ! m = (take p (take i fr) @ ?key # drop p (take i fr)) ! m"
      using m p(1) p(3) [OF m(2)] p(2) by (auto simp: step nth_append nth_Cons' nth_list_update min_def)
  qed
qed

lemma sort_ranges_prefix:
  assumes "n \<le> length fr" "\<And>m. m \<le> n \<Longrightarrow> sorted_wrt (\<lambda>x y. rstart x \<le> rstart y) (foldl (\<lambda>acc x. ins x acc) [] (take m fr))"
  shows "take n (foldl sort_step fr [1..<n]) = foldl (\<lambda>acc x. ins x acc) [] (take n fr) \<and>
    length (foldl sort_step fr [1..<n]) = length fr \<and> drop n (foldl sort_step fr [1..<n]) = drop n fr"
  using assms
proof (induction n)
  case 0
  then show ?case by simp
next
  case (Suc n)
  let ?res = "foldl sort_step fr [1..<n]"
  have IH: "take n ?res = foldl (\<lambda>acc x. ins x acc) [] (take n fr)" "length ?res = length fr" "drop n ?res = drop n fr"
    using Suc by simp_all
  have nth: "?res ! n = fr ! n"
    using arg_cong [OF IH(3), of "\<lambda>xs. xs ! 0"] IH(2) Suc.prems(1) by simp
  have rest: "drop (Suc n) ?res = drop (Suc n) fr"
    using arg_cong [OF IH(3), of "drop 1"] by (simp add: drop_drop)
  show ?case
  proof (cases "n = 0")
    case True
    then show ?thesis using Suc.prems(1) by (cases fr) (simp_all add: ins_def)
  next
    case False
    then have upt: "[1..<Suc n] = [1..<n] @ [n]" by simp
    have len: "n < length ?res" using IH(2) Suc.prems(1) by simp
    have srt: "sorted_wrt (\<lambda>x y. rstart x \<le> rstart y) (take n ?res)"
      unfolding IH(1) by (rule Suc.prems(2)) simp
    note step = sort_step_take [OF len srt, unfolded nth rest IH(1,2)]
    have "take (Suc n) fr = take n fr @ [fr ! n]"
      using Suc.prems(1) by (simp add: take_Suc_conv_app_nth)
    with step show ?thesis unfolding upt foldl_append by simp
  qed
qed

text \<open>The ranges collected from the memory map.\<close>

definition region_range :: "mem_region \<Rightarrow> phys_range" where
  "region_range g = range_new ((reg_start g + PAGE - 1) AND NOT (PAGE - 1)) (reg_end g AND NOT (PAGE - 1))"

definition usable_ranges :: "mem_region list \<Rightarrow> phys_range list" where
  "usable_ranges m = filter (\<lambda>r. rend r > rstart r) (map region_range (filter (\<lambda>g. reg_kind g = Usable) m))"

definition region_bytes :: "mem_region \<Rightarrow> nat set" where
  "region_bytes g = {unat (reg_start g)..<unat (reg_end g)}"

definition page_bytes :: "nat \<Rightarrow> nat set" where
  "page_bytes p = {p * 4096..<(p + 1) * 4096}"

text \<open>
  The memory maps the kernel is started with: the usable regions lie below \<open>2 ^ 52\<close>, are
  pairwise disjoint, and are no more than the array has room for.
\<close>

definition map_ok :: "mem_region list \<Rightarrow> bool" where
  "map_ok m \<longleftrightarrow> (let us = filter (\<lambda>g. reg_kind g = Usable) m
     in length us \<le> MAX_RANGES \<and> list_all (\<lambda>g. unat (reg_start g) \<le> 2 ^ 52 \<and> unat (reg_end g) \<le> 2 ^ 52) us \<and>
        sorted_wrt (\<lambda>g h. region_bytes g \<inter> region_bytes h = {}) us)"

lemma unat_region_range:
  assumes "unat (reg_start g) \<le> 2 ^ 52"
  shows "unat (rstart (region_range g)) = round_up (unat (reg_start g)) 4096"
    "unat (rend (region_range g)) = unat (reg_end g) div 4096 * 4096"
proof -
  show "unat (rstart (region_range g)) = round_up (unat (reg_start g)) 4096"
    using unat_round_up_word [of "reg_start g" 12] assms by (simp add: region_range_def range_new_def)
  have "(PAGE - 1) = mask 12" by (simp add: mask_eq_exp_minus_1)
  then show "unat (rend (region_range g)) = unat (reg_end g) div 4096 * 4096"
    using unat_and_not_mask [of "reg_end g" 12] by (simp add: region_range_def range_new_def)
qed

lemma page_inside: "page_bytes p \<subseteq> {s..<e} \<longleftrightarrow> s \<le> p * 4096 \<and> (p + 1) * 4096 \<le> e"
  unfolding page_bytes_def by (subst ivl_subset) simp_all

lemma whole_pages: "{round_up s 4096..<e div 4096 * 4096} = (\<Union>p\<in>{p. page_bytes p \<subseteq> {s..<e}}. page_bytes p)"
proof (intro equalityI subsetI)
  fix b assume b: "b \<in> {round_up s 4096..<e div 4096 * 4096}"
  have "round_up s 4096 \<le> b div 4096 * 4096"
    using b round_up_bounds(3) [of 4096 s] by (simp add: round_up_def div_le_mono less_eq_div_iff_mult_less_eq)
  then have "s \<le> b div 4096 * 4096" using round_up_bounds(1) [of 4096 s] by linarith
  moreover have "b div 4096 < e div 4096" using b by (simp add: div_less_iff_less_mult)
  then have "(b div 4096 + 1) * 4096 \<le> e" by (simp add: Suc_le_eq [symmetric] less_eq_div_iff_mult_less_eq)
  ultimately have "page_bytes (b div 4096) \<subseteq> {s..<e}" unfolding page_inside by blast
  moreover have "b \<in> page_bytes (b div 4096)" by (auto simp: page_bytes_def)
  ultimately show "b \<in> (\<Union>p\<in>{p. page_bytes p \<subseteq> {s..<e}}. page_bytes p)" by blast
next
  fix b assume "b \<in> (\<Union>p\<in>{p. page_bytes p \<subseteq> {s..<e}}. page_bytes p)"
  then obtain p where p: "page_bytes p \<subseteq> {s..<e}" "p * 4096 \<le> b" "b < (p + 1) * 4096"
    by (auto simp: page_bytes_def)
  then have "round_up s 4096 \<le> p * 4096" "p + 1 \<le> e div 4096"
    using round_up_le [of 4096 "p * 4096" s] by (simp_all add: page_inside less_eq_div_iff_mult_less_eq)
  moreover from this(2) have "(p + 1) * 4096 \<le> e div 4096 * 4096" by (rule mult_le_mono1)
  ultimately show "b \<in> {round_up s 4096..<e div 4096 * 4096}" using p(2,3) by simp
qed

lemma collect_regions_ok:
  assumes "list_all (\<lambda>g. unat (reg_start g) \<le> 2 ^ 52 \<and> unat (reg_end g) \<le> 2 ^ 52) (filter (\<lambda>g. reg_kind g = Usable) m)"
    "count + length (usable_ranges m) \<le> MAX_RANGES" "length fr = MAX_RANGES" "unat tot \<le> count * 2 ^ 52"
  shows "\<exists>fr' tot'. collect_regions m fr count tot = Inr (fr', count + length (usable_ranges m), tot') \<and>
    length fr' = MAX_RANGES \<and> take (count + length (usable_ranges m)) fr' = take count fr @ usable_ranges m \<and>
    unat tot' = unat tot + sum_list (map (\<lambda>r. unat (rend r) - unat (rstart r)) (usable_ranges m))"
  using assms
proof (induction m arbitrary: fr count tot)
  case Nil
  then show ?case by (simp add: usable_ranges_def)
next
  case (Cons g m)
  show ?case
  proof (cases "reg_kind g = Usable")
    case False
    then have "usable_ranges (g # m) = usable_ranges m" by (simp add: usable_ranges_def)
    with Cons.IH [of count fr tot] Cons.prems False show ?thesis by simp
  next
    case True
    let ?r = "region_range g"
    have b: "unat (reg_start g) \<le> 2 ^ 52" "unat (reg_end g) \<le> 2 ^ 52"
      using Cons.prems(1) True by simp_all
    have sum: "unat (reg_start g + PAGE) = unat (reg_start g) + 4096"
      using b(1) by (subst unat_add_u64) simp_all
    have st: "u64_add (reg_start g) PAGE = Inr (reg_start g + PAGE)"
        "u64_sub (reg_start g + PAGE) 1 = Inr (reg_start g + PAGE - 1)"
      using b(1) sum by (simp_all add: u64_add_def u64_sub_def word_le_nat_alt)
    have rr: "(reg_start g + PAGE - 1) AND NOT (PAGE - 1) = rstart ?r" "reg_end g AND NOT (PAGE - 1) = rend ?r"
        "range_new (rstart ?r) (rend ?r) = ?r"
      by (simp_all add: region_range_def range_new_def)
    note step = collect_regions.simps(2) [of g m fr count tot, unfolded st and_then.simps Let_def rr]
    show ?thesis
    proof (cases "rend ?r > rstart ?r")
      case False
      then have "usable_ranges (g # m) = usable_ranges m" by (simp add: usable_ranges_def)
      with Cons.IH [of count fr tot] Cons.prems False True step show ?thesis by simp
    next
      case lt: True
      have us: "usable_ranges (g # m) = ?r # usable_ranges m" using True lt by (simp add: usable_ranges_def)
      have c: "count < MAX_RANGES" using Cons.prems(2) us by simp
      let ?n = "unat (rend ?r) - unat (rstart ?r)"
      have len: "unat (rend ?r - rstart ?r) = ?n" using lt by (simp add: unat_sub)
      have "unat (rend ?r) \<le> 2 ^ 52" using unat_region_range(2) [OF b(1)] b(2) by simp
      then have n: "?n \<le> 2 ^ 52" by simp
      have "count * 2 ^ 52 < 256 * 2 ^ 52" using c by (simp add: MAX_RANGES_def)
      then have small: "unat tot + ?n < 2 ^ 64" using Cons.prems(4) n by simp
      then have tot: "unat (tot + (rend ?r - rstart ?r)) = unat tot + ?n"
          "u64_add tot (rend ?r - rstart ?r) = Inr (tot + (rend ?r - rstart ?r))"
        using len by (simp_all add: unat_add_u64 u64_add_def)
      have run: "collect_regions (g # m) fr count tot =
          collect_regions m (fr[count := ?r]) (Suc count) (tot + (rend ?r - rstart ?r))"
        using step lt True c tot(2) rr(3) by simp
      have tk: "take (Suc count) (fr[count := ?r]) = take count fr @ [?r]"
        using c Cons.prems(3) by (simp add: take_Suc_conv_app_nth)
      have "\<exists>fr' tot'. collect_regions m (fr[count := ?r]) (Suc count) (tot + (rend ?r - rstart ?r)) =
          Inr (fr', Suc count + length (usable_ranges m), tot') \<and> length fr' = MAX_RANGES \<and>
          take (Suc count + length (usable_ranges m)) fr' = take (Suc count) (fr[count := ?r]) @ usable_ranges m \<and>
          unat tot' = unat (tot + (rend ?r - rstart ?r)) +
            sum_list (map (\<lambda>r. unat (rend r) - unat (rstart r)) (usable_ranges m))"
        by (rule Cons.IH) (use Cons.prems True us tot(1) n in simp_all)
      then show ?thesis unfolding run us tk tot(1) by (auto simp: add.commute add.left_commute)
    qed
  qed
qed

lemma fold_ins_ok:
  assumes "list_all range_ok xs" "sorted_wrt (\<lambda>x y. range_bytes x \<inter> range_bytes y = {}) xs"
    "ranges_wf acc" "bytes xs \<inter> bytes acc = {}"
  shows "ranges_wf (foldl (\<lambda>acc x. ins x acc) acc xs) \<and> bytes (foldl (\<lambda>acc x. ins x acc) acc xs) = bytes acc \<union> bytes xs"
  using assms
proof (induction xs arbitrary: acc)
  case Nil
  then show ?case by simp
next
  case (Cons x xs)
  have d: "range_bytes x \<inter> bytes acc = {}" using Cons.prems(4) by auto
  note i = ins_ok [OF Cons.prems(3) _ d]
  have "bytes xs \<inter> bytes (ins x acc) = {}"
    using i(2) Cons.prems(1,2,4) by (auto simp: bytes_def)
  with Cons.IH [of "ins x acc"] i Cons.prems show ?case by auto
qed

lemma card_bytes:
  assumes "sorted_wrt (\<lambda>x y. range_bytes x \<inter> range_bytes y = {}) xs"
  shows "card (bytes xs) = sum_list (map (\<lambda>r. unat (rend r) - unat (rstart r)) xs)"
  using assms
proof (induction xs)
  case (Cons x xs)
  have "range_bytes x \<inter> bytes xs = {}" using Cons.prems by (auto simp: bytes_def)
  then have "card (bytes (x # xs)) = card (range_bytes x) + card (bytes xs)"
    by (simp add: card_Un_disjoint range_bytes_def)
  with Cons show ?case by (simp add: range_bytes_def)
qed simp

lemma region_range_bytes:
  assumes "unat (reg_start g) \<le> 2 ^ 52"
  shows "range_bytes (region_range g) = (\<Union>p\<in>{p. page_bytes p \<subseteq> region_bytes g}. page_bytes p)"
  using whole_pages [of "unat (reg_start g)" "unat (reg_end g)"] unat_region_range [OF assms]
  by (simp add: range_bytes_def region_bytes_def)

lemma usable_ranges_ok:
  assumes "map_ok m"
  shows "list_all range_ok (usable_ranges m)" "length (usable_ranges m) \<le> MAX_RANGES"
    "sorted_wrt (\<lambda>x y. range_bytes x \<inter> range_bytes y = {}) (usable_ranges m)"
    "bytes (usable_ranges m) = (\<Union>g\<in>{g \<in> set m. reg_kind g = Usable}. \<Union>p\<in>{p. page_bytes p \<subseteq> region_bytes g}. page_bytes p)"
proof -
  let ?us = "filter (\<lambda>g. reg_kind g = Usable) m"
  have m: "length ?us \<le> MAX_RANGES" "\<And>g. g \<in> set ?us \<Longrightarrow> unat (reg_start g) \<le> 2 ^ 52 \<and> unat (reg_end g) \<le> 2 ^ 52"
      "sorted_wrt (\<lambda>g h. region_bytes g \<inter> region_bytes h = {}) ?us"
    using assms by (simp_all add: map_ok_def Let_def list_all_iff)
  show "length (usable_ranges m) \<le> MAX_RANGES"
    using m(1) length_filter_le [of "\<lambda>r. rend r > rstart r" "map region_range ?us"]
    by (simp add: usable_ranges_def)
  have rb: "range_bytes (region_range g) = (\<Union>p\<in>{p. page_bytes p \<subseteq> region_bytes g}. page_bytes p)" if "g \<in> set ?us" for g
    using region_range_bytes m(2) [OF that] by blast
  have sub: "range_bytes (region_range g) \<subseteq> region_bytes g" if "g \<in> set ?us" for g
    unfolding rb [OF that] by blast
  have ok: "range_ok (region_range g)" if g: "g \<in> set ?us" "rstart (region_range g) < rend (region_range g)" for g
    using unat_region_range [of g] m(2) [OF g(1)] g(2) round_up_bounds(3) [of 4096 "unat (reg_start g)"]
    by (auto simp: range_ok_def intro: order_trans [OF div_times_less_eq_dividend])
  show "list_all range_ok (usable_ranges m)"
    using ok by (auto simp: list_all_iff usable_ranges_def)
  have "sorted_wrt (\<lambda>g h. range_bytes (region_range g) \<inter> range_bytes (region_range h) = {}) ?us"
  proof (rule sorted_wrt_mono_rel [OF _ m(3)])
    fix g h assume "g \<in> set ?us" "h \<in> set ?us" "region_bytes g \<inter> region_bytes h = {}"
    then show "range_bytes (region_range g) \<inter> range_bytes (region_range h) = {}"
      using sub by blast
  qed
  then show "sorted_wrt (\<lambda>x y. range_bytes x \<inter> range_bytes y = {}) (usable_ranges m)"
    unfolding usable_ranges_def by (intro sorted_wrt_filter) (simp add: sorted_wrt_map)
  have "bytes (usable_ranges m) = (\<Union>g\<in>set ?us. range_bytes (region_range g))"
  proof -
    have "range_bytes r = {}" if "\<not> rend r > rstart r" for r
      using that by (simp add: range_bytes_def word_less_nat_alt)
    then show ?thesis unfolding bytes_def usable_ranges_def set_filter set_map by blast
  qed
  then show "bytes (usable_ranges m) = (\<Union>g\<in>{g \<in> set m. reg_kind g = Usable}. \<Union>p\<in>{p. page_bytes p \<subseteq> region_bytes g}. page_bytes p)"
    using rb by simp
qed

lemma ranges_wf_sorted:
  assumes "ranges_wf xs"
  shows "sorted_wrt (\<lambda>x y. rstart x \<le> rstart y) xs"
  using assms
proof (induction xs)
  case (Cons x xs)
  have "rstart x \<le> rend x" using Cons.prems by (auto simp: ranges_wf_Cons range_ok_def)
  then show ?case using Cons by (auto simp: ranges_wf_Cons intro: order_trans)
qed simp

lemma boot_init_run:
  assumes "map_ok m"
  shows "\<exists>s. boot_init m = Inr s \<and> boot_inv s \<and> allocated_bytes s = 0 \<and>
    free_bytes s = (\<Union>g\<in>{g \<in> set m. reg_kind g = Usable}. \<Union>p\<in>{p. page_bytes p \<subseteq> region_bytes g}. page_bytes p)"
proof -
  let ?us = "usable_ranges m" and ?ins = "foldl (\<lambda>acc x. ins x acc) []"
  note us = usable_ranges_ok [OF assms]
  obtain fr tot where c: "collect_regions m (replicate MAX_RANGES range_empty) 0 0 = Inr (fr, length ?us, tot)"
      "length fr = MAX_RANGES" "take (length ?us) fr = ?us"
      "unat tot = sum_list (map (\<lambda>r. unat (rend r) - unat (rstart r)) ?us)"
    using collect_regions_ok [of m 0 "replicate MAX_RANGES range_empty" 0] assms us(2)
    by (auto simp: map_ok_def Let_def)
  have f: "ranges_wf (?ins (take n ?us)) \<and> bytes (?ins (take n ?us)) = bytes (take n ?us)" for n
    using fold_ins_ok [of "take n ?us" "[]"] us(1,3)
    by (simp add: ranges_wf_def list_all_iff sorted_wrt_take) (meson in_set_takeD)
  have tk: "take k fr = take k ?us" if "k \<le> length ?us" for k
    using c(3) that by (metis min.absorb1 take_take)
  have srt: "take (length ?us) (sort_ranges fr (length ?us)) = ?ins ?us \<and> length (sort_ranges fr (length ?us)) = MAX_RANGES"
    using sort_ranges_prefix [of "length ?us" fr] ranges_wf_sorted [OF f [THEN conjunct1]] c(2,3) us(2) tk
    by (simp add: sort_ranges_def)
  let ?s = "\<lparr>free_ranges = sort_ranges fr (length ?us), range_count = length ?us, allocated_bytes = 0, total_bytes = tot\<rparr>"
  have act: "active ?s = ?ins ?us" using srt by (simp add: active_def)
  have fb: "free_bytes ?s = bytes ?us" using f [of "length ?us"] by (simp add: free_bytes_def act)
  have "boot_inv ?s"
    unfolding boot_inv_def fb act using f [of "length ?us"] srt us(2) card_bytes [OF us(3)] c(4)
    by (simp add: arr_ok_def)
  moreover have "boot_init m = Inr ?s" by (simp add: boot_init_def c(1))
  ultimately show ?thesis using fb us(4) by auto
qed

text \<open>
  C22: Construction from a memory map whose usable regions are disjoint, below \<open>2 ^ 52\<close> and at most
  \<open>MAX_RANGES\<close> many: \<open>init\<close> never panics, its insertion sort leaves the ranges sorted and disjoint
  with exact byte totals, nothing is allocated, and the free bytes are exactly the whole pages that
  lie inside some usable region.
\<close>

theorem boot_init_correct:
  assumes "map_ok m"
  shows "\<exists>s. boot_init m = Inr s \<and> boot_inv s \<and> allocated_bytes s = 0 \<and>
    free_bytes s = (\<Union>g\<in>{g \<in> set m. reg_kind g = Usable}. \<Union>p\<in>{p. page_bytes p \<subseteq> region_bytes g}. page_bytes p)"
  using assms by (rule boot_init_run)

subsection \<open>Enumeration of the free frames\<close>

lemma range_addrs_unat:
  assumes "range_ok r"
  shows "map unat (range_addrs r) =
    map (\<lambda>k. unat (rstart r) + k * 4096) [0..<(unat (rend r) - unat (rstart r)) div 4096]"
proof -
  have b: "unat (rstart r) \<le> unat (rend r)" "unat (rend r) \<le> 2 ^ 52"
    "4096 dvd unat (rend r) - unat (rstart r)"
    using assms by (auto simp: range_ok_def word_less_nat_alt intro: dvd_diff_nat)
  then obtain n where n: "unat (rend r) - unat (rstart r) = n * 4096" by (metis dvd_def mult.commute)
  have "unat (rstart r + of_nat (k * 4096)) = unat (rstart r) + k * 4096" if "k < n" for k
  proof -
    have "k * 4096 < n * 4096" using that by simp
    then have "unat (rstart r) + k * 4096 < 2 ^ 52" using b(1,2) n by linarith
    then show ?thesis using unat_of_nat_u64 [of "k * 4096"]
      by (subst unat_add_u64) (simp_all del: of_nat_mult)
  qed
  then show ?thesis unfolding range_addrs_def n by (simp del: of_nat_mult)
qed

lemma range_addrs_spec:
  assumes "range_ok r"
  shows "set (map unat (range_addrs r)) = {a \<in> range_bytes r. 4096 dvd a}"
    and "sorted_wrt (<) (map unat (range_addrs r))"
proof -
  let ?s = "unat (rstart r)" and ?e = "unat (rend r)"
  have dv: "4096 dvd ?s" "4096 dvd ?e" "?s \<le> ?e"
    using assms by (auto simp: range_ok_def word_less_nat_alt)
  show "sorted_wrt (<) (map unat (range_addrs r))"
    unfolding range_addrs_unat [OF assms] by (simp add: sorted_wrt_map sorted_wrt_iff_nth_less)
  show "set (map unat (range_addrs r)) = {a \<in> range_bytes r. 4096 dvd a}"
  proof (intro equalityI subsetI)
    fix a assume "a \<in> set (map unat (range_addrs r))"
    then obtain k where k: "a = ?s + k * 4096" "k < (?e - ?s) div 4096"
      unfolding range_addrs_unat [OF assms] by auto
    then have "(k + 1) * 4096 \<le> ?e - ?s" by (simp add: Suc_le_eq [symmetric] less_eq_div_iff_mult_less_eq)
    then have "a < ?e" using k(1) dv(3) by simp
    with k dv show "a \<in> {a \<in> range_bytes r. 4096 dvd a}" by (simp add: range_bytes_def dvd_add)
  next
    fix a assume "a \<in> {a \<in> range_bytes r. 4096 dvd a}"
    then have a: "?s \<le> a" "a < ?e" "4096 dvd a" by (auto simp: range_bytes_def)
    then obtain k where k: "a - ?s = k * 4096" using dv(1) by (metis dvd_def dvd_diff_nat mult.commute)
    obtain n where n: "?e - ?s = n * 4096" using dv by (metis dvd_def dvd_diff_nat mult.commute)
    have "k < n" using k n a by linarith
    then show "a \<in> set (map unat (range_addrs r))"
      unfolding range_addrs_unat [OF assms] n using k a(1) by (intro image_eqI [of _ _ k] | simp)+
  qed
qed

lemma range_addrs_concat:
  assumes "ranges_wf xs"
  shows "set (map unat (concat (map range_addrs xs))) = {a \<in> bytes xs. 4096 dvd a} \<and>
    sorted_wrt (<) (map unat (concat (map range_addrs xs)))"
  using assms
proof (induction xs)
  case (Cons x xs)
  have x: "range_ok x" "ranges_wf xs" "\<forall>y\<in>set xs. rend x \<le> rstart y"
    using Cons.prems by (auto simp: ranges_wf_Cons)
  have IH: "set (map unat (concat (map range_addrs xs))) = {a \<in> bytes xs. 4096 dvd a}"
      "sorted_wrt (<) (map unat (concat (map range_addrs xs)))"
    using Cons.IH [OF x(2)] by simp_all
  have "a < b" if "a \<in> range_bytes x" "b \<in> bytes xs" for a b
    using that bytes_above [of xs "unat (rend x)"] x(3) by (fastforce simp: range_bytes_def word_le_nat_alt)
  then have "\<forall>a\<in>set (map unat (range_addrs x)). \<forall>b\<in>set (map unat (concat (map range_addrs xs))). a < b"
    unfolding IH(1) range_addrs_spec(1) [OF x(1)] by blast
  with IH(2) range_addrs_spec(2) [OF x(1)]
  have "sorted_wrt (<) (map unat (range_addrs x) @ map unat (concat (map range_addrs xs)))"
    unfolding sorted_wrt_append by blast
  moreover have "set (map unat (range_addrs x) @ map unat (concat (map range_addrs xs))) = {a \<in> bytes (x # xs). 4096 dvd a}"
    unfolding set_append IH(1) range_addrs_spec(1) [OF x(1)] by auto
  ultimately show ?case by simp
qed simp

text \<open>
  \<open>usable_frames\<close>, which feeds the buddy allocator, enumerates every free page exactly once, in
  ascending order, and nothing else.
\<close>

lemma usable_frames_exact:
  assumes "boot_inv s" "phys_frame_laws phys_frame start_address"
  shows "\<exists>fs. usable_frames phys_frame s = map Inr fs \<and>
    sorted_wrt (<) (map (\<lambda>f. unat (start_address f)) fs) \<and>
    set (map (\<lambda>f. unat (start_address f)) fs) = {a \<in> free_bytes s. 4096 dvd a}"
proof -
  let ?as = "concat (map range_addrs (active s))"
  let ?f = "\<lambda>a. projr (phys_frame a)"
  have wf: "ranges_wf (active s)" using assms(1) by (simp add: boot_inv_def)
  have c: "set (map unat ?as) = {a \<in> free_bytes s. 4096 dvd a}" "sorted_wrt (<) (map unat ?as)"
    using range_addrs_concat [OF wf] unfolding free_bytes_def by blast+
  have f: "phys_frame a = Inr (?f a) \<and> start_address (?f a) = a" if a: "a \<in> set ?as" for a
  proof -
    have "unat a \<in> set (map unat ?as)" using a by (simp only: set_map image_eqI)
    then have "unat a \<in> bytes (active s)" "4096 dvd unat a" unfolding c(1) free_bytes_def by auto
    moreover from this(1) have "unat a < 2 ^ 52" using bytes_bound wf by (auto simp: ranges_wf_def)
    ultimately show ?thesis using phys_frame_lawsD [OF assms(2), of a] by auto
  qed
  have "usable_frames phys_frame s = map Inr (map ?f ?as)"
    unfolding usable_frames_def active_def [symmetric] map_map using f by (intro map_cong) auto
  moreover have "map (\<lambda>f. unat (start_address f)) (map ?f ?as) = map unat ?as"
    unfolding map_map using f by (intro map_cong) auto
  ultimately show ?thesis using c by (intro exI [of _ "map ?f ?as"]) (simp only: simp_thms)
qed

subsection \<open>A concrete allocator\<close>

text \<open>
  A memory map with two usable regions whose bounds are not all page-aligned, given out of
  order, and an allocator with one free range of eight pages of which two more are allocated.
  The frames are the page numbers.
\<close>

definition demo_map :: "mem_region list" where
  "demo_map = [\<lparr>reg_start = 0x100000, reg_end = 0x108010, reg_kind = Usable\<rparr>,
     \<lparr>reg_start = 0xF0000, reg_end = 0x100000, reg_kind = Unusable\<rparr>,
     \<lparr>reg_start = 0x1001, reg_end = 0x9FC00, reg_kind = Usable\<rparr>]"

definition demo_alloc :: boot_alloc where
  "demo_alloc = \<lparr>free_ranges = range_new 0x2000 0xA000 # replicate 255 range_empty, range_count = 1,
     allocated_bytes = 0x2000, total_bytes = 0xA000\<rparr>"

definition demo_frame :: "u64 \<Rightarrow> u64 outcome" where
  "demo_frame a = Inr (drop_bit 12 a)"

definition demo_start :: "u64 \<Rightarrow> u64" where
  "demo_start f = push_bit 12 f"

lemma demo_frame_laws: "phys_frame_laws demo_frame demo_start"
proof -
  have "push_bit 12 (drop_bit 12 a) = a" if "4096 dvd unat a" for a :: u64
  proof -
    have "unat (push_bit 12 (drop_bit 12 a)) = unat (a AND NOT (mask 12))"
      by (rule arg_cong [of _ _ unat], rule bit_eqI) (auto simp: bit_simps)
    also have "\<dots> = unat a" using that unat_and_not_mask [of a 12] by simp
    finally show ?thesis by (simp add: word_unat_eq_iff)
  qed
  then show ?thesis by (simp add: phys_frame_laws_def demo_frame_def demo_start_def)
qed

lemma demo_alloc_facts:
  "active demo_alloc = [range_new 0x2000 0xA000]" "free_bytes demo_alloc = {0x2000..<0xA000}"
  "boot_inv demo_alloc" "separated (active demo_alloc)" "range_count demo_alloc < MAX_RANGES"
proof -
  show act: "active demo_alloc = [range_new 0x2000 0xA000]" by (simp add: active_def demo_alloc_def)
  show fb: "free_bytes demo_alloc = {0x2000..<0xA000}"
    by (simp add: free_bytes_def act range_bytes_def range_new_def)
  show "boot_inv demo_alloc"
    unfolding boot_inv_def act fb
    by (simp add: arr_ok_def demo_alloc_def MAX_RANGES_def ranges_wf_def range_ok_def range_new_def)
  show "separated (active demo_alloc)" unfolding act by (simp add: separated_def)
  show "range_count demo_alloc < MAX_RANGES" by (simp add: demo_alloc_def MAX_RANGES_def)
qed

lemma demo_map_ok: "map_ok demo_map"
  unfolding map_ok_def demo_map_def by (simp add: MAX_RANGES_def region_bytes_def)

text \<open>Three pages aligned to four: the block starts at \<open>0x4000\<close>, inside the range.\<close>

lemma demo_allocates:
  "\<exists>s'. allocate_contiguous_aligned demo_frame demo_alloc 3 (2 ^ 14) = Inr (Some 4, s') \<and> range_count s' < MAX_RANGES"
  by (simp add: allocate_contiguous_aligned_def u64_mul_def alloc_loop.simps [of _ _ _ _ 0] align_up_def
      u64_add_def u64_sub_def demo_alloc_def range_new_def Let_def)
    (simp add: take_from_range_def remove_range_def insert_range_sorted_def u64_add_def range_new_def
      Let_def MAX_RANGES_def demo_frame_def range_empty_def)

theorem boot_alloc_correct_witness:
  "\<exists>s'. allocate_contiguous_aligned demo_frame demo_alloc 3 (2 ^ 14) = Inr (Some 4, s') \<and> boot_inv s' \<and>
    free_bytes s' = {0x2000..<0xA000} - {0x4000..<0x7000}"
  using boot_alloc_correct [OF demo_alloc_facts(3) demo_frame_laws, of 3 14] demo_allocates
  by (auto simp: demo_alloc_facts(2) demo_start_def)


theorem boot_free_correct_witness:
  "\<exists>s'. free_contiguous demo_start demo_alloc 0xA 2 = Inr s' \<and> boot_inv s' \<and> separated (active s') \<and>
    free_bytes s' = {0x2000..<0xC000} \<and> unat (allocated_bytes s') = 0"
proof -
  have st: "unat (demo_start 10) = 0xA000" by (simp add: demo_start_def)
  have al: "unat (allocated_bytes demo_alloc) = 0x2000" by (simp add: demo_alloc_def)
  have two: "0xA000 + unat (2 :: u64) * 4096 = 0xC000" "unat (2 :: u64) * 4096 = 0x2000" by simp_all
  have sets: "{0xA000..<0xC000 :: nat} \<inter> {0x2000..<0xA000} = {}"
      "{0x2000..<0xA000} \<union> {0xA000..<0xC000} = {0x2000..<0xC000 :: nat}"
    by auto
  show ?thesis
    using boot_free_correct [of demo_alloc demo_start 10 2, unfolded st al two demo_alloc_facts(2) sets,
        OF demo_alloc_facts(3) _ _ _ _ _ demo_alloc_facts(5)]
    by (simp add: sets)
qed

theorem boot_alloc_free_roundtrip_witness:
  "\<exists>s' s''. allocate_contiguous_aligned demo_frame demo_alloc 3 (2 ^ 14) = Inr (Some 4, s') \<and>
    free_contiguous demo_start s' 4 3 = Inr s'' \<and> active s'' = [range_new 0x2000 0xA000]"
proof -
  obtain s' where s': "allocate_contiguous_aligned demo_frame demo_alloc 3 (2 ^ 14) = Inr (Some 4, s')"
      "range_count s' < MAX_RANGES"
    using demo_allocates by blast
  show ?thesis
    using boot_alloc_free_roundtrip [OF demo_alloc_facts(3) demo_frame_laws _ _ _ demo_alloc_facts(4) s'] s'(1)
    by (auto simp: demo_alloc_facts(1))
qed

theorem boot_free_full_panics_witness:
  "free_contiguous demo_start (demo_alloc\<lparr>range_count := 256\<rparr>) 0xA 2 =
    Inl (PanicMsg ''BootInfoFrameAllocator: exceeded maximum number of free ranges'')"
  by (rule boot_free_full_panics) (simp_all add: demo_start_def MAX_RANGES_def)

theorem boot_init_correct_witness:
  "\<exists>s. boot_init demo_map = Inr s \<and> boot_inv s \<and> allocated_bytes s = 0"
  using boot_init_correct [OF demo_map_ok] by blast

end
