(* ===== verification/Graphics.thy ===== *)
theory Graphics
  imports Boot_Frames_Correct
begin

text \<open>
  The double-buffered frame buffer of \<^verbatim>\<open>kernel/src/graphics.rs\<close> and the test picture of
  \<^verbatim>\<open>kernel/src/main.rs\<close>. Pixels are 32-bit words; \<open>pixels\<close> maps the address of a pixel to its value. What
  the boot loader reports of the device is \<open>fb_info\<close>, and adding to a physical address is the argument
  \<open>phys_plus\<close>.
\<close>

record fb_info =
  fb_address :: u64
  fb_width :: u64
  fb_height :: u64
  fb_stride :: u64

record framebuffer =
  front_buffer :: u64
  back_buffer :: u64
  width :: u64
  height :: u64
  stride :: u64

type_synonym pixels = "u64 \<Rightarrow> u32"

text \<open>The pixels \<open>p\<close>, \<open>p.add(1)\<close>, up to \<open>p.add(n - 1)\<close>.\<close>

definition in_buffer :: "u64 \<Rightarrow> nat \<Rightarrow> u64 \<Rightarrow> bool" where
  "in_buffer p n a \<longleftrightarrow> unat (a - p) mod 4 = 0 \<and> unat (a - p) div 4 < n"

definition pixel_ptr :: "u64 \<Rightarrow> u64 \<Rightarrow> u64" where
  "pixel_ptr p i = p + 4 * i"

definition zero_pixels :: "pixels \<Rightarrow> u64 \<Rightarrow> nat \<Rightarrow> pixels" where
  "zero_pixels m p n = (\<lambda>a. if in_buffer p n a then 0 else m a)"

definition copy_pixels :: "pixels \<Rightarrow> u64 \<Rightarrow> u64 \<Rightarrow> nat \<Rightarrow> pixels" where
  "copy_pixels m src dst n = (\<lambda>a. if in_buffer dst n a then m (src + (a - dst)) else m a)"

definition framebuffer_new ::
  "(u64 \<Rightarrow> 'f outcome) \<Rightarrow> ('f \<Rightarrow> u64) \<Rightarrow> (u64 \<Rightarrow> u64 \<Rightarrow> u64 outcome) \<Rightarrow> fb_info \<Rightarrow> u64 \<Rightarrow> boot_alloc \<Rightarrow> pixels \<Rightarrow>
    (framebuffer \<times> boot_alloc \<times> pixels) outcome" where
  "framebuffer_new phys_frame start_address phys_plus info phys_mem_offset allocator m =
     and_then (u64_mul (fb_stride info) (fb_height info)) (\<lambda>n.
     and_then (u64_mul n 4) (\<lambda>buffer_size.
     and_then (u64_add buffer_size 4095) (\<lambda>rounded.
     let pages_needed = rounded div 4096
     in and_then (allocate_contiguous phys_frame allocator pages_needed) (\<lambda>(res, allocator).
        case res of
          None \<Rightarrow> Inl (PanicMsg ''Failed to allocate back buffer pages'')
        | Some frame \<Rightarrow>
            and_then (phys_plus (start_address frame) phys_mem_offset) (\<lambda>back.
            Inr (\<lparr>front_buffer = fb_address info, back_buffer = back, width = fb_width info, height = fb_height info,
                  stride = fb_stride info\<rparr>,
                 allocator, zero_pixels m back (unat n)))))))"

definition flip :: "framebuffer \<Rightarrow> pixels \<Rightarrow> pixels outcome" where
  "flip fb m =
     and_then (u64_mul (stride fb) (height fb)) (\<lambda>n.
     Inr (copy_pixels m (back_buffer fb) (front_buffer fb) (unat n)))"

definition get_back_buffer_ptr :: "framebuffer \<Rightarrow> u64" where
  "get_back_buffer_ptr fb = back_buffer fb"

text \<open>The loop of \<open>main\<close> that paints the back buffer: the positions row by row, one store for each.\<close>

fun put_pixels :: "framebuffer \<Rightarrow> u64 \<Rightarrow> (nat \<times> nat) list \<Rightarrow> pixels \<Rightarrow> pixels outcome" where
  "put_pixels fb back [] m = Inr m"
| "put_pixels fb back ((y, x) # ps) m =
     and_then (u64_mul (of_nat y) (stride fb)) (\<lambda>row.
     and_then (u64_add row (of_nat x)) (\<lambda>offset.
     put_pixels fb back ps (m(pixel_ptr back offset := 0x00FF00))))"

definition paint_green :: "framebuffer \<Rightarrow> pixels \<Rightarrow> pixels outcome" where
  "paint_green fb m =
     put_pixels fb (get_back_buffer_ptr fb)
       (concat (map (\<lambda>y. map (Pair y) [0..<unat (width fb)]) [0..<unat (height fb)])) m"

definition test_picture :: "framebuffer \<Rightarrow> pixels \<Rightarrow> pixels outcome" where
  "test_picture fb m =
     and_then (flip fb m) (\<lambda>m.
     and_then (paint_green fb m) (\<lambda>m.
     flip fb m))"

subsection \<open>Pixels of a buffer\<close>

lemma unat_mul_u64: "unat (a :: u64) * unat b < 2 ^ 64 \<Longrightarrow> unat (a * b) = unat a * unat b"
  by (simp add: unat_word_ariths)

text \<open>A buffer of \<open>n\<close> pixels that does not wrap around the address space.\<close>

definition buffer_ok :: "u64 \<Rightarrow> nat \<Rightarrow> bool" where
  "buffer_ok p n \<longleftrightarrow> unat p + 4 * n < 2 ^ 64"

definition buffer_bytes :: "u64 \<Rightarrow> nat \<Rightarrow> nat set" where
  "buffer_bytes p n = {unat p..<unat p + 4 * n}"

lemma unat_pixel:
  assumes "buffer_ok p n" "i < n"
  shows "unat (pixel_ptr p (of_nat i)) = unat p + 4 * i" "unat (pixel_ptr p (of_nat i) - p) = 4 * i"
proof -
  have "4 * i < 2 ^ 64" using assms by (simp add: buffer_ok_def)
  then have u: "unat (4 * of_nat i :: u64) = 4 * i"
    using unat_of_nat_u64 [of "4 * i"] by simp
  then show "unat (pixel_ptr p (of_nat i) - p) = 4 * i" by (simp add: pixel_ptr_def)
  have "unat p + unat (4 * of_nat i :: u64) < 2 ^ 64" unfolding u using assms by (simp add: buffer_ok_def)
  from unat_add_u64 [OF this] show "unat (pixel_ptr p (of_nat i)) = unat p + 4 * i" by (simp add: pixel_ptr_def u)
qed

lemma in_buffer_pixel: "buffer_ok p n \<Longrightarrow> i < n \<Longrightarrow> in_buffer p n (pixel_ptr p (of_nat i))"
  using unat_pixel(2) [of p n i] by (simp add: in_buffer_def)

lemma in_bufferE:
  assumes "buffer_ok p n" "in_buffer p n a"
  obtains i where "i < n" "a = pixel_ptr p (of_nat i)"
proof -
  define i where "i = unat (a - p) div 4"
  have i: "i < n" "unat (a - p) = 4 * i" using assms(2) by (auto simp: in_buffer_def i_def)
  have "unat (a - p) = unat (pixel_ptr p (of_nat i) - p)" unfolding i(2) unat_pixel(2) [OF assms(1) i(1)] ..
  then have "a - p = pixel_ptr p (of_nat i) - p" by (rule unsigned_word_eqI)
  then have "a = pixel_ptr p (of_nat i)" by simp
  with i(1) show thesis by (rule that)
qed

lemma pixel_inj:
  assumes "buffer_ok p n" "i < n" "j < n" "pixel_ptr p (of_nat i) = pixel_ptr p (of_nat j)"
  shows "i = j"
proof -
  have "unat p + 4 * i = unat p + 4 * j"
    unfolding unat_pixel(1) [OF assms(1,2), symmetric] unat_pixel(1) [OF assms(1,3), symmetric] assms(4) ..
  then show ?thesis by simp
qed

lemma in_buffer_bytes:
  assumes "buffer_ok p n" "in_buffer p n a"
  shows "unat a \<in> buffer_bytes p n"
  using assms by (elim in_bufferE [OF assms(1)]) (auto simp: unat_pixel buffer_bytes_def)

lemma buffers_apart:
  assumes "buffer_ok p n" "buffer_ok q m" "buffer_bytes p n \<inter> buffer_bytes q m = {}" "in_buffer p n a"
  shows "\<not> in_buffer q m a"
  using in_buffer_bytes [OF assms(1,4)] in_buffer_bytes [OF assms(2)] assms(3) by blast

subsection \<open>Painting\<close>

lemma put_pixels_ok:
  assumes fb: "buffer_ok back (unat (stride fb) * h)" "unat (stride fb) * h < 2 ^ 64"
    and "\<forall>(y, x)\<in>set ps. y < h \<and> x < unat (stride fb)"
  shows "put_pixels fb back ps m = Inr (\<lambda>a. if a \<in> (\<lambda>(y, x). pixel_ptr back (of_nat (y * unat (stride fb) + x))) ` set ps
    then 0x00FF00 else m a)"
  using assms(3)
proof (induction ps arbitrary: m)
  case Nil
  then show ?case by simp
next
  case (Cons p ps)
  obtain y x where p: "p = (y, x)" by fastforce
  let ?s = "unat (stride fb)"
  have yx: "y < h" "x < ?s" using Cons.prems p by auto
  then have "y * ?s + x < Suc y * ?s" by simp
  also have "Suc y * ?s \<le> h * ?s" using yx(1) by (intro mult_right_mono) simp_all
  finally have lt: "y * ?s + x < 2 ^ 64" using fb(2) by (simp add: mult.commute)
  have "?s > 0" using yx(2) by simp
  then have "y \<le> y * ?s" by simp
  then have y64: "y < 2 ^ 64" "x < 2 ^ 64" using lt by linarith+
  note u = unat_of_nat_u64 [OF y64(1)] unat_of_nat_u64 [OF y64(2)]
  have row: "u64_mul (of_nat y) (stride fb) = Inr (of_nat y * stride fb)" "unat (of_nat y * stride fb) = y * ?s"
    using lt u by (simp_all add: u64_mul_def unat_word_ariths)
  have off: "u64_add (of_nat y * stride fb) (of_nat x) = Inr (of_nat (y * ?s + x))"
    using lt u row(2) by (simp add: u64_add_def)
  define q where "q = pixel_ptr back (of_nat (y * ?s + x))"
  have rest: "\<forall>(y, x)\<in>set ps. y < h \<and> x < ?s" using Cons.prems by simp
  show ?case
    unfolding p put_pixels.simps row(1) and_then.simps off list.set(2) image_insert prod.case q_def [symmetric] Cons.IH [OF rest]
    by (rule arg_cong [where f = Inr], rule ext) simp
qed

lemma green_pixels:
  "(\<lambda>(y, x). pixel_ptr back (of_nat (y * st + x))) ` set (concat (map (\<lambda>y. map (Pair y) [0..<w]) [0..<h])) =
   {pixel_ptr back (of_nat (y * st + x)) |y x. y < h \<and> x < w}"
  by (auto simp: image_iff) blast+

lemma paint_green_ok:
  assumes "buffer_ok (back_buffer fb) (unat (stride fb) * unat (height fb))" "unat (stride fb) * unat (height fb) < 2 ^ 64"
    "width fb \<le> stride fb"
  shows "paint_green fb m = Inr (\<lambda>a. if a \<in> {pixel_ptr (back_buffer fb) (of_nat (y * unat (stride fb) + x)) |y x.
      y < unat (height fb) \<and> x < unat (width fb)} then 0x00FF00 else m a)"
proof -
  have "\<forall>(y, x)\<in>set (concat (map (\<lambda>y. map (Pair y) [0..<unat (width fb)]) [0..<unat (height fb)])). y < unat (height fb) \<and> x < unat (stride fb)"
    using assms(3) by (auto simp: word_le_nat_alt)
  from put_pixels_ok [OF assms(1,2) this] show ?thesis
    unfolding paint_green_def get_back_buffer_ptr_def green_pixels .
qed

subsection \<open>The back buffer and the test picture\<close>

text \<open>\<^verbatim>\<open>PhysAddr\<close> addition gives the sum as long as it is a valid physical address.\<close>

definition phys_plus_laws :: "(u64 \<Rightarrow> u64 \<Rightarrow> u64 outcome) \<Rightarrow> bool" where
  "phys_plus_laws phys_plus \<longleftrightarrow> (\<forall>a b. unat a + unat b < 2 ^ 52 \<longrightarrow> phys_plus a b = Inr (a + b))"

text \<open>
  The back buffer is taken from free memory: its bytes, seen at their physical addresses, were free, and
  are not free afterwards. When no block of free memory is large enough, the kernel panics.
\<close>

lemma framebuffer_new_ok:
  assumes inv: "boot_inv al" and pf: "phys_frame_laws phys_frame start_address" and pp: "phys_plus_laws phys_plus"
    and n: "0 < unat (fb_stride info) * unat (fb_height info)" "unat (fb_stride info) * unat (fb_height info) < 2 ^ 48"
    and off: "\<forall>b\<in>free_bytes al. unat off + b < 2 ^ 52"
  defines "px \<equiv> unat (fb_stride info) * unat (fb_height info)"
  obtains (none) "framebuffer_new phys_frame start_address phys_plus info off al m =
      Inl (PanicMsg ''Failed to allocate back buffer pages'')"
  | (some) bb al' where "framebuffer_new phys_frame start_address phys_plus info off al m =
      Inr (\<lparr>front_buffer = fb_address info, back_buffer = bb, width = fb_width info, height = fb_height info,
             stride = fb_stride info\<rparr>, al', zero_pixels m bb px)"
      "boot_inv al'" "buffer_ok bb px" "buffer_bytes bb px \<subseteq> (+) (unat off) ` (free_bytes al - free_bytes al')"
      "free_bytes al' \<subseteq> free_bytes al"
proof -
  let ?n = "fb_stride info * fb_height info"
  have px: "0 < px" "px < 2 ^ 48" using n by (simp_all add: px_def)
  have b1: "unat (fb_stride info) * unat (fb_height info) < 2 ^ 64" using px(2) by (simp add: px_def)
  have un: "unat ?n = px" using unat_mul_u64 [OF b1] by (simp add: px_def)
  have b2: "unat ?n * unat (4 :: u64) < 2 ^ 64" unfolding un using px(2) by simp
  have un4: "unat (?n * 4) = px * 4" using unat_mul_u64 [OF b2] un by simp
  have b3: "unat (?n * 4) + unat (4095 :: u64) < 2 ^ 64" unfolding un4 using px(2) by simp
  have un5: "unat (?n * 4 + 4095) = px * 4 + 4095" using unat_add_u64 [OF b3] un4 by simp
  let ?c = "(?n * 4 + 4095) div 4096"
  have uc: "unat ?c = (px * 4 + 4095) div 4096" unfolding unat_div un5 by simp
  have c: "0 < unat ?c" "unat ?c < 2 ^ 51" "px * 4 \<le> unat ?c * 4096"
  proof -
    have "4096 \<le> px * 4 + 4095" "px * 4 + 4095 < 2 ^ 51" using px by simp_all
    then show "0 < unat ?c" "unat ?c < 2 ^ 51" unfolding uc by (simp_all add: div_greater_zero_iff)
    show "px * 4 \<le> unat ?c * 4096" unfolding uc using div_mult_mod_eq [of "px * 4 + 4095" 4096] mod_less_divisor [of 4096 "px * 4 + 4095"] by linarith
  qed
  have c0: "0 < ?c" using c(1) by (simp only: word_less_nat_alt unsigned_0)
  have run: "framebuffer_new phys_frame start_address phys_plus info off al m =
     and_then (allocate_contiguous_aligned phys_frame al ?c (2 ^ 12)) (\<lambda>(res, allocator).
        case res of
          None \<Rightarrow> Inl (PanicMsg ''Failed to allocate back buffer pages'')
        | Some frame \<Rightarrow>
            and_then (phys_plus (start_address frame) off) (\<lambda>back.
            Inr (\<lparr>front_buffer = fb_address info, back_buffer = back, width = fb_width info, height = fb_height info,
                  stride = fb_stride info\<rparr>, allocator, zero_pixels m back px)))"
    unfolding framebuffer_new_def u64_mul_ok [OF b1] u64_mul_ok [OF b2] u64_add_ok [OF b3] and_then.simps Let_def allocate_contiguous_def un by simp
  have k: "(12 :: nat) \<le> 52" by simp
  show thesis
    using inv pf c0 c(2) k
  proof (cases rule: allocate_cases)
    case none
    then show ?thesis using that(1) run by simp
  next
    case (some j f s')
    have dv: "4096 dvd unat (?c * 4096)" by (simp add: some(7))
    note t = take_from_range_inv [OF inv some(1) some(2) [folded some(7)] some(8) dv some(5,6), unfolded some(7)]
    let ?b = "start_address f"
    have sub: "{unat ?b..<unat ?b + 4 * px} \<subseteq> {unat ?b..<unat ?b + unat ?c * 4096}" using c(3) by auto
    have last: "unat off + (unat ?b + unat ?c * 4096 - 1) < 2 ^ 52"
    proof -
      have "unat ?b + unat ?c * 4096 - 1 \<in> free_bytes al" by (rule subsetD [OF t(3)]) (use c(1) in auto)
      then show ?thesis using off by blast
    qed
    then have sum: "unat (?b + off) = unat ?b + unat off" using last c(1) by (subst unat_add_u64) auto
    have pp': "phys_plus ?b off = Inr (?b + off)" using pp last c(1) by (auto simp: phys_plus_laws_def)
    show ?thesis
    proof (rule that(2))
      show "framebuffer_new phys_frame start_address phys_plus info off al m =
        Inr (\<lparr>front_buffer = fb_address info, back_buffer = ?b + off, width = fb_width info, height = fb_height info,
             stride = fb_stride info\<rparr>, s', zero_pixels m (?b + off) px)"
        using run some(4) pp' by simp
      show "boot_inv s'" by (rule t(1))
      show "buffer_ok (?b + off) px" unfolding buffer_ok_def sum using last c by auto
      show "free_bytes s' \<subseteq> free_bytes al" using t(4) by auto
      show "buffer_bytes (?b + off) px \<subseteq> (+) (unat off) ` (free_bytes al - free_bytes s')"
      proof
        fix x assume "x \<in> buffer_bytes (?b + off) px"
        then have "x - unat off \<in> {unat ?b..<unat ?b + unat ?c * 4096}" "x = unat off + (x - unat off)"
          using sub unfolding buffer_bytes_def sum by auto
        then show "x \<in> (+) (unat off) ` (free_bytes al - free_bytes s')" using t(3,4) by blast
      qed
    qed
  qed
qed

lemma copy_pixels_at:
  "buffer_ok dst n \<Longrightarrow> i < n \<Longrightarrow> copy_pixels m src dst n (pixel_ptr dst (of_nat i)) = m (pixel_ptr src (of_nat i))"
  using in_buffer_pixel [of dst n i] by (simp add: copy_pixels_def) (simp add: pixel_ptr_def)

lemma row_unique:
  assumes "y * st + x = y' * st + x'" "x < st" "x' < (st :: nat)"
  shows "x = x'"
proof -
  have "(y * st + x) mod st = (y' * st + x') mod st" using assms(1) by simp
  then show ?thesis using assms(2,3) by simp
qed

lemma pixel_index:
  assumes "y < h" "x < (st :: nat)"
  shows "y * st + x < st * h"
proof -
  have "y * st + x < Suc y * st" using assms(2) by simp
  also have "Suc y * st \<le> h * st" using assms(1) by (intro mult_right_mono) simp_all
  finally show ?thesis by (simp add: mult.commute)
qed

text \<open>The test picture on two buffers that do not overlap, the back buffer being zero at the start.\<close>

lemma test_picture_ok:
  fixes fb :: framebuffer and m :: pixels
  defines "n \<equiv> unat (stride fb) * unat (height fb)"
  assumes bufs: "buffer_ok (back_buffer fb) n" "buffer_ok (front_buffer fb) n"
      "buffer_bytes (back_buffer fb) n \<inter> buffer_bytes (front_buffer fb) n = {}"
    and n: "n < 2 ^ 64" "width fb \<le> stride fb"
    and z: "\<And>i. i < n \<Longrightarrow> m (pixel_ptr (back_buffer fb) (of_nat i)) = 0"
  shows "\<exists>m'. test_picture fb m = Inr m' \<and>
    (\<forall>y<unat (height fb). \<forall>x<unat (stride fb). m' (pixel_ptr (front_buffer fb) (of_nat (y * unat (stride fb) + x))) =
       (if x < unat (width fb) then 0x00FF00 else 0)) \<and>
    (\<forall>a. \<not> in_buffer (front_buffer fb) n a \<and> \<not> in_buffer (back_buffer fb) n a \<longrightarrow> m' a = m a)"
proof -
  let ?s = "unat (stride fb)" and ?h = "unat (height fb)" and ?w = "unat (width fb)" and ?b = "back_buffer fb" and ?f = "front_buffer fb"
  let ?G = "{pixel_ptr ?b (of_nat (y * ?s + x)) |y x. y < ?h \<and> x < ?w}"
  have w: "?w \<le> ?s" using n(2) by (simp add: word_le_nat_alt)
  have b: "?s * ?h < 2 ^ 64" using n(1) by (simp add: n_def)
  have fl: "flip fb k = Inr (copy_pixels k ?b ?f n)" for k
    unfolding flip_def u64_mul_ok [OF b] and_then.simps unat_mul_u64 [OF b] n_def ..
  define m1 where "m1 = copy_pixels m ?b ?f n"
  define m2 where "m2 = (\<lambda>a. if a \<in> ?G then 0x00FF00 else m1 a)"
  have run: "test_picture fb m = Inr (copy_pixels m2 ?b ?f n)"
    unfolding test_picture_def fl and_then.simps paint_green_ok [OF bufs(1) [unfolded n_def] b n(2)] m1_def [symmetric] m2_def [symmetric] ..
  have G: "in_buffer ?b n a" if a: "a \<in> ?G" for a
  proof -
    obtain y x where g: "a = pixel_ptr ?b (of_nat (y * ?s + x))" "y < ?h" "x < ?w" using a by blast
    have "y * ?s + x < n" using pixel_index [OF g(2), of x ?s] g(3) w by (simp add: n_def)
    then show ?thesis unfolding g(1) by (rule in_buffer_pixel [OF bufs(1)])
  qed
  have "copy_pixels m2 ?b ?f n (pixel_ptr ?f (of_nat (y * ?s + x))) = (if x < ?w then 0x00FF00 else 0)"
    if yx: "y < ?h" "x < ?s" for y x
  proof -
    let ?i = "y * ?s + x"
    have i: "?i < n" using pixel_index [OF yx] by (simp add: n_def)
    have "\<not> in_buffer ?f n (pixel_ptr ?b (of_nat ?i))" by (rule buffers_apart [OF bufs in_buffer_pixel [OF bufs(1) i]])
    then have old: "m1 (pixel_ptr ?b (of_nat ?i)) = 0" using z [OF i] unfolding m1_def copy_pixels_def by simp
    have "pixel_ptr ?b (of_nat ?i) \<in> ?G \<longleftrightarrow> x < ?w"
    proof
      assume "pixel_ptr ?b (of_nat ?i) \<in> ?G"
      then obtain y' x' where g: "pixel_ptr ?b (of_nat ?i) = pixel_ptr ?b (of_nat (y' * ?s + x'))" "y' < ?h" "x' < ?w" by blast
      have "y' * ?s + x' < n" using pixel_index [OF g(2), of x' ?s] g(3) w by (simp add: n_def)
      then have "?i = y' * ?s + x'" using pixel_inj [OF bufs(1) i _ g(1)] by blast
      then show "x < ?w" using row_unique [of y ?s x y' x'] yx(2) g(3) w by simp
    qed (use yx in blast)
    then show ?thesis unfolding copy_pixels_at [OF bufs(2) i] m2_def using old by simp
  qed
  moreover have "copy_pixels m2 ?b ?f n a = m a" if "\<not> in_buffer ?f n a" "\<not> in_buffer ?b n a" for a
  proof -
    have "a \<notin> ?G" using that(2) G by blast
    then have "m2 a = m1 a" unfolding m2_def by (rule if_not_P)
    then show ?thesis using that(1) by (simp add: copy_pixels_def m1_def)
  qed
  ultimately show ?thesis using run by blast
qed

text \<open>
  C40: The frame buffer stays inside its memory. When a back buffer is found it consists of bytes that were free and are
  no longer free. The test picture then shows on the screen: after the second flip every visible pixel is green, the padding
  at the end of the rows is black, and no memory outside the two buffers has changed.
\<close>

theorem framebuffer_test_picture:
  assumes boot: "boot_inv al" "phys_frame_laws phys_frame start_address" "phys_plus_laws phys_plus"
    and info: "0 < unat (fb_stride info) * unat (fb_height info)" "unat (fb_stride info) * unat (fb_height info) < 2 ^ 48"
      "fb_width info \<le> fb_stride info"
    and off: "\<forall>b\<in>free_bytes al. unat off + b < 2 ^ 52"
    and front: "buffer_ok (fb_address info) (unat (fb_stride info) * unat (fb_height info))"
      "buffer_bytes (fb_address info) (unat (fb_stride info) * unat (fb_height info)) \<inter> (+) (unat off) ` free_bytes al = {}"
    and new: "framebuffer_new phys_frame start_address phys_plus info off al m = Inr (fb, al', m1)"
  shows "boot_inv al' \<and>
    buffer_bytes (back_buffer fb) (unat (fb_stride info) * unat (fb_height info)) \<subseteq> (+) (unat off) ` (free_bytes al - free_bytes al') \<and>
    (\<exists>m'. test_picture fb m1 = Inr m' \<and>
      (\<forall>y<unat (fb_height info). \<forall>x<unat (fb_stride info).
         m' (pixel_ptr (fb_address info) (of_nat (y * unat (fb_stride info) + x))) = (if x < unat (fb_width info) then 0x00FF00 else 0)) \<and>
      (\<forall>a. \<not> in_buffer (fb_address info) (unat (fb_stride info) * unat (fb_height info)) a \<and>
           \<not> in_buffer (back_buffer fb) (unat (fb_stride info) * unat (fb_height info)) a \<longrightarrow> m' a = m a))"
proof -
  let ?n = "unat (fb_stride info) * unat (fb_height info)"
  obtain bb where r: "fb = \<lparr>front_buffer = fb_address info, back_buffer = bb, width = fb_width info, height = fb_height info,
      stride = fb_stride info\<rparr>" "m1 = zero_pixels m bb ?n" "boot_inv al'" "buffer_ok bb ?n"
      "buffer_bytes bb ?n \<subseteq> (+) (unat off) ` (free_bytes al - free_bytes al')"
    using boot info(1,2) off
  proof (cases rule: framebuffer_new_ok [where m = m])
    case none
    then show ?thesis using new by simp
  next
    case (some bb al'')
    then show ?thesis using new that [of bb] by simp
  qed
  have dj: "buffer_bytes bb ?n \<inter> buffer_bytes (fb_address info) ?n = {}" using front(2) r(5) by blast
  have z: "m1 (pixel_ptr bb (of_nat i)) = 0" if "i < ?n" for i
    using in_buffer_pixel [OF r(4) that] by (simp add: r(2) zero_pixels_def)
  have "\<exists>m'. test_picture fb m1 = Inr m' \<and>
    (\<forall>y<unat (fb_height info). \<forall>x<unat (fb_stride info). m' (pixel_ptr (fb_address info) (of_nat (y * unat (fb_stride info) + x))) =
       (if x < unat (fb_width info) then 0x00FF00 else 0)) \<and>
    (\<forall>a. \<not> in_buffer (fb_address info) ?n a \<and> \<not> in_buffer bb ?n a \<longrightarrow> m' a = m1 a)"
    using test_picture_ok [of fb m1] r(1,4) front(1) dj z info by simp
  then obtain m' where m': "test_picture fb m1 = Inr m'"
      "\<forall>y<unat (fb_height info). \<forall>x<unat (fb_stride info). m' (pixel_ptr (fb_address info) (of_nat (y * unat (fb_stride info) + x))) =
       (if x < unat (fb_width info) then 0x00FF00 else 0)"
      "\<forall>a. \<not> in_buffer (fb_address info) ?n a \<and> \<not> in_buffer bb ?n a \<longrightarrow> m' a = m1 a"
    by blast
  have "\<forall>a. \<not> in_buffer (fb_address info) ?n a \<and> \<not> in_buffer bb ?n a \<longrightarrow> m' a = m a"
    using m'(3) by (simp add: r(2) zero_pixels_def)
  then show ?thesis using m'(1,2) r(1,3,5) by auto
qed

subsection \<open>A small screen\<close>

text \<open>Two rows of three visible pixels with one pixel of padding each, and 32 KiB of free memory.\<close>

definition demo_info :: fb_info where
  "demo_info = \<lparr>fb_address = 0xE0000000, fb_width = 3, fb_height = 2, fb_stride = 4\<rparr>"

definition demo_plus :: "u64 \<Rightarrow> u64 \<Rightarrow> u64 outcome" where
  "demo_plus a b = (if unat a + unat b < 2 ^ 52 then Inr (a + b) else Inl (PanicMsg ''attempt to add with overflow''))"

lemma demo_back_buffer:
  obtains al' where "framebuffer_new demo_frame demo_start demo_plus demo_info 0x100000 demo_alloc (\<lambda>_. 7) =
    Inr (\<lparr>front_buffer = 0xE0000000, back_buffer = 0x102000, width = 3, height = 2, stride = 4\<rparr>, al', zero_pixels (\<lambda>_. 7) 0x102000 8)"
proof -
  have "\<exists>al'. allocate_contiguous demo_frame demo_alloc 1 = Inr (Some 2, al')"
    by (simp add: allocate_contiguous_def allocate_contiguous_aligned_def u64_mul_def alloc_loop.simps [of _ _ _ _ 0] align_up_def
        u64_add_def u64_sub_def demo_alloc_def range_new_def Let_def)
      (simp add: take_from_range_def remove_range_def insert_range_sorted_def u64_add_def range_new_def
        Let_def MAX_RANGES_def demo_frame_def range_empty_def)
  then obtain al' where "allocate_contiguous demo_frame demo_alloc 1 = Inr (Some 2, al')" by blast
  then have "framebuffer_new demo_frame demo_start demo_plus demo_info 0x100000 demo_alloc (\<lambda>_. 7) =
    Inr (\<lparr>front_buffer = 0xE0000000, back_buffer = 0x102000, width = 3, height = 2, stride = 4\<rparr>, al', zero_pixels (\<lambda>_. 7) 0x102000 8)"
    by (simp add: framebuffer_new_def demo_info_def u64_mul_def u64_add_def demo_plus_def demo_start_def)
  then show thesis by (rule that)
qed

theorem framebuffer_test_picture_witness:
  "\<exists>fb al' m1 m'. framebuffer_new demo_frame demo_start demo_plus demo_info 0x100000 demo_alloc (\<lambda>_. 7) = Inr (fb, al', m1) \<and>
     test_picture fb m1 = Inr m' \<and> m' (pixel_ptr 0xE0000000 6) = 0x00FF00 \<and> m' (pixel_ptr 0xE0000000 7) = 0 \<and> m' 0x50 = 7"
proof -
  obtain al' where new: "framebuffer_new demo_frame demo_start demo_plus demo_info 0x100000 demo_alloc (\<lambda>_. 7) =
    Inr (\<lparr>front_buffer = 0xE0000000, back_buffer = 0x102000, width = 3, height = 2, stride = 4\<rparr>, al', zero_pixels (\<lambda>_. 7) 0x102000 8)"
    by (rule demo_back_buffer)
  have "phys_plus_laws demo_plus" by (simp add: phys_plus_laws_def demo_plus_def)
  note pic = framebuffer_test_picture [OF demo_alloc_facts(3) demo_frame_laws this _ _ _ _ _ _ new]
  have "\<exists>m'. test_picture \<lparr>front_buffer = 0xE0000000, back_buffer = 0x102000, width = 3, height = 2, stride = 4\<rparr> (zero_pixels (\<lambda>_. 7) 0x102000 8) = Inr m' \<and>
      (\<forall>y<2. \<forall>x<4. m' (pixel_ptr 0xE0000000 (of_nat (y * 4 + x))) = (if x < 3 then 0x00FF00 else 0)) \<and>
      (\<forall>a. \<not> in_buffer 0xE0000000 8 a \<and> \<not> in_buffer 0x102000 8 a \<longrightarrow> m' a = 7)"
    using pic by (auto simp: demo_info_def demo_alloc_facts(2) buffer_ok_def buffer_bytes_def)
  then obtain m' where m': "test_picture \<lparr>front_buffer = 0xE0000000, back_buffer = 0x102000, width = 3, height = 2, stride = 4\<rparr>
        (zero_pixels (\<lambda>_. 7) 0x102000 8) = Inr m'"
      "\<And>y x. y < 2 \<Longrightarrow> x < 4 \<Longrightarrow> m' (pixel_ptr 0xE0000000 (of_nat (y * 4 + x))) = (if x < 3 then 0x00FF00 else 0)"
      "\<And>a. \<not> in_buffer 0xE0000000 8 a \<and> \<not> in_buffer 0x102000 8 a \<Longrightarrow> m' a = 7"
    by blast
  have "m' (pixel_ptr 0xE0000000 6) = 0x00FF00" "m' (pixel_ptr 0xE0000000 7) = 0" "m' 0x50 = 7"
    using m'(2) [of 1 2] m'(2) [of 1 3] m'(3) [of "0x50"] by (simp_all add: in_buffer_def)
  with new m'(1) show ?thesis by blast
qed

end
