(* ===== verification/Io.thy ===== *)
theory Io
  imports Prelude
begin

text \<open>
  Devices as the kernel sees them: the serial console, volatile writes to memory-mapped registers
  and writes to ports, each kept as the sequence of what the kernel sent. The formatting of numbers is
  that of Rust's formatter (\<^verbatim>\<open>{}\<close> and \<^verbatim>\<open>{:x}\<close>).
\<close>

record io =
  serial1 :: bool
  serial_out :: string
  lapic_address :: u64
  mmio_log :: "(u64 \<times> u32) list"
  port_log :: "(u16 \<times> u32) list"

definition init_serial :: "io \<Rightarrow> io" where
  "init_serial io = io\<lparr>serial1 := True\<rparr>"

text \<open>\<^verbatim>\<open>_print\<close> of \<^verbatim>\<open>drivers/serial.rs\<close>, behind \<^verbatim>\<open>serial_print!\<close>; the \<open>println\<close> form adds a newline.\<close>

definition serial_print :: "string \<Rightarrow> io \<Rightarrow> io outcome" where
  "serial_print s io =
     (if serial1 io then Inr (io\<lparr>serial_out := serial_out io @ s\<rparr>)
      else Inl (PanicMsg ''Serial port not initialized''))"

definition newline :: string where "newline = [CHR 0x0A]"

definition serial_println :: "string \<Rightarrow> io \<Rightarrow> io outcome" where
  "serial_println s = serial_print (s @ newline)"

definition write_volatile :: "u64 \<Rightarrow> u32 \<Rightarrow> io \<Rightarrow> io" where
  "write_volatile a v io = io\<lparr>mmio_log := mmio_log io @ [(a, v)]\<rparr>"

definition port_write :: "u16 \<Rightarrow> u32 \<Rightarrow> io \<Rightarrow> io" where
  "port_write p v io = io\<lparr>port_log := port_log io @ [(p, v)]\<rparr>"

definition digit :: "nat \<Rightarrow> char" where
  "digit n = (if n < 10 then char_of (48 + n) else char_of (87 + n))"

fun digits :: "nat \<Rightarrow> nat \<Rightarrow> string" where
  "digits b n = (if b < 2 \<or> n < b then [digit n] else digits b (n div b) @ [digit (n mod b)])"

declare digits.simps [simp del]

definition dec :: "u64 \<Rightarrow> string" where "dec v = digits 10 (unat v)"

definition hex :: "u64 \<Rightarrow> string" where "hex v = digits 16 (unat v)"

lemma serial_print_io:
  "serial_print s io = Inr io' \<Longrightarrow> serial1 io' \<and> lapic_address io' = lapic_address io \<and> mmio_log io' = mmio_log io \<and>
     port_log io' = port_log io \<and> serial_out io' = serial_out io @ s"
  by (auto simp: serial_print_def split: if_splits)

end
