(* ===== verification/Apic.thy ===== *)
theory Apic
  imports Io
begin

text \<open>
  The interrupt controllers, \<^verbatim>\<open>kernel/src/drivers/apic.rs\<close>: the register offsets, the set-up of
  the local and the I/O APIC as sequences of volatile register writes, and the acknowledgement of an
  interrupt. The page tables are the argument \<open>map_page\<close> (\<^verbatim>\<open>Mapper::map_to\<close>), the address types of the
  x86_64 crate the arguments \<open>phys_new\<close> and \<open>virt_new\<close>, and what the ACPI tables say is an argument.
\<close>

datatype (plugins only:) APICOffset =
    R0x00 | R0x10 | Ir | Vr | R0x40 | R0x50 | R0x60 | R0x70 | Tpr | Apr | Ppr | Eoi | Rrd | Ldr
  | Dfr | Svr | Isr1 | Isr2 | Isr3 | Isr4 | Isr5 | Isr6 | Isr7 | Isr8 | Tmr1 | Tmr2 | Tmr3 | Tmr4
  | Tmr5 | Tmr6 | Tmr7 | Tmr8 | Irr1 | Irr2 | Irr3 | Irr4 | Irr5 | Irr6 | Irr7 | Irr8 | Esr | R0x290
  | R0x2A0 | R0x2B0 | R0x2C0 | R0x2D0 | R0x2E0 | LvtCmci | Icr1 | Icr2 | LvtT | LvtTsr | LvtPmcr
  | LvtLint0 | LvtLint1 | LvtE | Ticr | Tccr | R0x3A0 | R0x3B0 | R0x3C0 | R0x3D0 | Tdcr | R0x3F0

fun apic_offset :: "APICOffset \<Rightarrow> u64" where
  "apic_offset R0x00 = 0x0"
| "apic_offset R0x10 = 0x10"
| "apic_offset Ir = 0x20"
| "apic_offset Vr = 0x30"
| "apic_offset R0x40 = 0x40"
| "apic_offset R0x50 = 0x50"
| "apic_offset R0x60 = 0x60"
| "apic_offset R0x70 = 0x70"
| "apic_offset Tpr = 0x80"
| "apic_offset Apr = 0x90"
| "apic_offset Ppr = 0xA0"
| "apic_offset Eoi = 0xB0"
| "apic_offset Rrd = 0xC0"
| "apic_offset Ldr = 0xD0"
| "apic_offset Dfr = 0xE0"
| "apic_offset Svr = 0xF0"
| "apic_offset Isr1 = 0x100"
| "apic_offset Isr2 = 0x110"
| "apic_offset Isr3 = 0x120"
| "apic_offset Isr4 = 0x130"
| "apic_offset Isr5 = 0x140"
| "apic_offset Isr6 = 0x150"
| "apic_offset Isr7 = 0x160"
| "apic_offset Isr8 = 0x170"
| "apic_offset Tmr1 = 0x180"
| "apic_offset Tmr2 = 0x190"
| "apic_offset Tmr3 = 0x1A0"
| "apic_offset Tmr4 = 0x1B0"
| "apic_offset Tmr5 = 0x1C0"
| "apic_offset Tmr6 = 0x1D0"
| "apic_offset Tmr7 = 0x1E0"
| "apic_offset Tmr8 = 0x1F0"
| "apic_offset Irr1 = 0x200"
| "apic_offset Irr2 = 0x210"
| "apic_offset Irr3 = 0x220"
| "apic_offset Irr4 = 0x230"
| "apic_offset Irr5 = 0x240"
| "apic_offset Irr6 = 0x250"
| "apic_offset Irr7 = 0x260"
| "apic_offset Irr8 = 0x270"
| "apic_offset Esr = 0x280"
| "apic_offset R0x290 = 0x290"
| "apic_offset R0x2A0 = 0x2A0"
| "apic_offset R0x2B0 = 0x2B0"
| "apic_offset R0x2C0 = 0x2C0"
| "apic_offset R0x2D0 = 0x2D0"
| "apic_offset R0x2E0 = 0x2E0"
| "apic_offset LvtCmci = 0x2F0"
| "apic_offset Icr1 = 0x300"
| "apic_offset Icr2 = 0x310"
| "apic_offset LvtT = 0x320"
| "apic_offset LvtTsr = 0x330"
| "apic_offset LvtPmcr = 0x340"
| "apic_offset LvtLint0 = 0x350"
| "apic_offset LvtLint1 = 0x360"
| "apic_offset LvtE = 0x370"
| "apic_offset Ticr = 0x380"
| "apic_offset Tccr = 0x390"
| "apic_offset R0x3A0 = 0x3A0"
| "apic_offset R0x3B0 = 0x3B0"
| "apic_offset R0x3C0 = 0x3C0"
| "apic_offset R0x3D0 = 0x3D0"
| "apic_offset Tdcr = 0x3E0"
| "apic_offset R0x3F0 = 0x3F0"

text \<open>Pointers to \<^verbatim>\<open>u32\<close>: \<^verbatim>\<open>p.offset(n)\<close> is \<open>4 * n\<close> bytes further.\<close>

definition ptr_offset :: "u64 \<Rightarrow> u64 \<Rightarrow> u64" where
  "ptr_offset p n = p + 4 * n"

definition lapic_reg :: "u64 \<Rightarrow> APICOffset \<Rightarrow> u64" where
  "lapic_reg p r = ptr_offset p (apic_offset r div 4)"

datatype InterruptIndex = Keyboard | Timer | Mouse

fun interrupt_vector :: "InterruptIndex \<Rightarrow> u8" where
  "interrupt_vector Keyboard = 33"
| "interrupt_vector Timer = 32"
| "interrupt_vector Mouse = 44"

definition lapic_address_new :: u64 where "lapic_address_new = 0"

text \<open>The reads of the spurious vector register come from the device, the argument \<open>read_volatile\<close>.\<close>

definition init_timer :: "(u64 \<Rightarrow> u32) \<Rightarrow> u64 \<Rightarrow> io \<Rightarrow> io outcome" where
  "init_timer read_volatile lapic_pointer io =
     (let svr = lapic_reg lapic_pointer Svr;
          io = write_volatile svr (read_volatile svr OR 0x100) io;
          io = write_volatile (lapic_reg lapic_pointer LvtT) (0x20 OR push_bit 17 1) io;
          io = write_volatile (lapic_reg lapic_pointer Tdcr) 0x3 io;
          io = write_volatile (lapic_reg lapic_pointer Ticr) 2500000 io
      in serial_println ''Local APIC timer initialized'' io)"

definition init_keyboard :: "u64 \<Rightarrow> io \<Rightarrow> io" where
  "init_keyboard lapic_pointer = write_volatile (lapic_reg lapic_pointer LvtLint1) (ucast (interrupt_vector Keyboard))"

definition init_mouse_lint :: "u64 \<Rightarrow> io \<Rightarrow> io" where
  "init_mouse_lint lapic_pointer = write_volatile (lapic_reg lapic_pointer LvtLint0) (ucast (interrupt_vector Mouse))"

text \<open>
  \<open>map_apic\<close>: the page holding the device is mapped at its own physical address. \<open>map_page\<close> answers
  \<open>None\<close> when the mapping fails; its flags are \<open>PRESENT\<close>, \<open>WRITABLE\<close> and \<open>NO_CACHE\<close>.
\<close>

definition APIC_FLAGS :: u64 where "APIC_FLAGS = 1 OR 2 OR 16"

definition map_apic :: "(u64 \<Rightarrow> u64 outcome) \<Rightarrow> (u64 \<Rightarrow> u64 outcome) \<Rightarrow> (u64 \<Rightarrow> u64) \<Rightarrow>
    ('m \<Rightarrow> u64 \<Rightarrow> u64 \<Rightarrow> u64 \<Rightarrow> 'm option outcome) \<Rightarrow> u64 \<Rightarrow> 'm \<Rightarrow> (u64 \<times> 'm) outcome" where
  "map_apic phys_new virt_new containing map_page physical_address m =
     and_then (phys_new physical_address) (\<lambda>pa.
     and_then (virt_new pa) (\<lambda>va.
     let page = containing va; frame = containing pa
     in and_then (map_page m page frame APIC_FLAGS) (\<lambda>r.
        case r of
          None \<Rightarrow> Inl (PanicMsg ''APIC mapping failed'')
        | Some m \<Rightarrow> Inr (page, m))))"

definition init_io_apic :: "(u64 \<Rightarrow> u64 outcome) \<Rightarrow> (u64 \<Rightarrow> u64 outcome) \<Rightarrow> (u64 \<Rightarrow> u64) \<Rightarrow>
    ('m \<Rightarrow> u64 \<Rightarrow> u64 \<Rightarrow> u64 \<Rightarrow> 'm option outcome) \<Rightarrow> u64 \<Rightarrow> 'm \<Rightarrow> io \<Rightarrow> ('m \<times> io) outcome" where
  "init_io_apic phys_new virt_new containing map_page ioapic_address m io =
     and_then (map_apic phys_new virt_new containing map_page ioapic_address m) (\<lambda>(ioapic_pointer, m).
     let sel = ptr_offset ioapic_pointer 0; win = ptr_offset ioapic_pointer 4;
         io = write_volatile sel 0x12 io;
         io = write_volatile win (ucast (interrupt_vector Keyboard)) io;
         io = write_volatile sel 0x13 io;
         io = write_volatile win 0 io;
         io = write_volatile sel 0x28 io;
         io = write_volatile win (ucast (interrupt_vector Mouse)) io;
         io = write_volatile sel 0x29 io;
         io = write_volatile win 0 io
     in Inr (m, io))"

definition init_local_apic :: "(u64 \<Rightarrow> u64 outcome) \<Rightarrow> (u64 \<Rightarrow> u64 outcome) \<Rightarrow> (u64 \<Rightarrow> u64) \<Rightarrow>
    ('m \<Rightarrow> u64 \<Rightarrow> u64 \<Rightarrow> u64 \<Rightarrow> 'm option outcome) \<Rightarrow> (u64 \<Rightarrow> u32) \<Rightarrow> u64 \<Rightarrow> 'm \<Rightarrow> io \<Rightarrow> ('m \<times> io) outcome" where
  "init_local_apic phys_new virt_new containing map_page read_volatile local_apic_addr m io =
     and_then (map_apic phys_new virt_new containing map_page local_apic_addr m) (\<lambda>(lapic_pointer, m).
     let io = io\<lparr>lapic_address := lapic_pointer\<rparr>
     in and_then (init_timer read_volatile lapic_pointer io) (\<lambda>io.
        Inr (m, init_mouse_lint lapic_pointer (init_keyboard lapic_pointer io))))"

definition end_interrupt :: "io \<Rightarrow> io" where
  "end_interrupt io = write_volatile (lapic_reg (lapic_address io) Eoi) 0 io"

text \<open>What \<open>InterruptModel::new\<close> finds in the ACPI tables.\<close>

datatype interrupt_model = ApicModel "u32 list" u64 | OtherModel

definition apic_init :: "(u64 \<Rightarrow> u64 outcome) \<Rightarrow> (u64 \<Rightarrow> u64 outcome) \<Rightarrow> (u64 \<Rightarrow> u64) \<Rightarrow>
    ('m \<Rightarrow> u64 \<Rightarrow> u64 \<Rightarrow> u64 \<Rightarrow> 'm option outcome) \<Rightarrow> (u64 \<Rightarrow> u32) \<Rightarrow> interrupt_model option \<Rightarrow> 'm \<Rightarrow> io \<Rightarrow>
    ('m \<times> io) outcome" where
  "apic_init phys_new virt_new containing map_page read_volatile model m io =
     (case model of
        None \<Rightarrow> Inl UnwrapNone
      | Some (ApicModel io_apics local_apic_address) \<Rightarrow>
          (case io_apics of
             [] \<Rightarrow> Inl IndexOutOfBounds
           | a # _ \<Rightarrow>
               and_then (init_io_apic phys_new virt_new containing map_page (ucast a) m io) (\<lambda>(m, io).
               init_local_apic phys_new virt_new containing map_page read_volatile local_apic_address m io))
      | Some OtherModel \<Rightarrow> Inl (PanicMsg ''Unsupported interrupt model''))"

end
