(* ===== verification/Acpi.thy ===== *)
theory Acpi
  imports Apic
begin

text \<open>
  The callbacks that the kernel gives to the \<^verbatim>\<open>acpi\<close> crate, \<^verbatim>\<open>kernel/src/drivers/acpi.rs\<close>: mapping of physical
  regions through the window of physical memory, access to memory and to ports, and the services that are
  not implemented and panic. \<open>machine\<close> is what they reach: the bytes of memory, the values the ports deliver and what was
  written to ports. A volatile access to an unaligned or null address is undefined in Rust; the accesses here are
  those of valid pointers.
\<close>

record acpi_handler =
  physical_memory_offset :: u64

record physical_mapping =
  physical_start :: u64
  virtual_start :: u64
  region_length :: u64
  mapped_length :: u64
  mapping_handler :: acpi_handler

record machine =
  memory_bytes :: "u64 \<Rightarrow> u8"
  port_in :: "u16 \<Rightarrow> u32"
  port_out :: "(u16 \<times> nat \<times> u32) list"

definition acpi_handler_new :: "u64 \<Rightarrow> acpi_handler" where
  "acpi_handler_new off = \<lparr>physical_memory_offset = off\<rparr>"

definition map_physical_region :: "acpi_handler \<Rightarrow> u64 \<Rightarrow> u64 \<Rightarrow> physical_mapping outcome" where
  "map_physical_region h physical_address sz =
     and_then (u64_add (physical_memory_offset h) physical_address) (\<lambda>virtual_address.
     case nonnull_new virtual_address of
       None \<Rightarrow> Inl UnwrapNone
     | Some ptr \<Rightarrow> Inr \<lparr>physical_start = physical_address, virtual_start = ptr, region_length = sz,
         mapped_length = sz, mapping_handler = h\<rparr>)"

definition unmap_physical_region :: "physical_mapping \<Rightarrow> machine \<Rightarrow> machine" where
  "unmap_physical_region region m = m"

definition nanos_since_boot :: "acpi_handler \<Rightarrow> u64" where
  "nanos_since_boot h = 0"

definition breakpoint :: "acpi_handler \<Rightarrow> unit outcome" where
  "breakpoint h = Inl (PanicMsg ''ACPI breakpoint called'')"

definition handle_debug :: "acpi_handler \<Rightarrow> 'object \<Rightarrow> machine \<Rightarrow> machine" where
  "handle_debug h object m = m"

definition handle_fatal_error :: "acpi_handler \<Rightarrow> u8 \<Rightarrow> u32 \<Rightarrow> u64 \<Rightarrow> unit outcome" where
  "handle_fatal_error h fatal_type fatal_code fatal_arg =
     Inl (PanicMsg (''ACPI Fatal Error: type '' @ dec (ucast fatal_type) @ '', code '' @ dec (ucast fatal_code) @
       '', arg '' @ dec fatal_arg))"

text \<open>\<^verbatim>\<open>unimplemented!()\<close>\<close>

definition unimplemented :: "'a outcome" where
  "unimplemented = Inl (PanicMsg ''not implemented'')"

definition create_mutex :: "acpi_handler \<Rightarrow> 'mutex outcome" where
  "create_mutex h = unimplemented"

definition acquire :: "acpi_handler \<Rightarrow> 'mutex \<Rightarrow> u16 \<Rightarrow> ('error + unit) outcome" where
  "acquire h mutex timeout = unimplemented"

definition release :: "acpi_handler \<Rightarrow> 'mutex \<Rightarrow> unit outcome" where
  "release h mutex = unimplemented"

definition stall :: "acpi_handler \<Rightarrow> u64 \<Rightarrow> unit outcome" where
  "stall h microseconds = unimplemented"

definition sleep :: "acpi_handler \<Rightarrow> u64 \<Rightarrow> unit outcome" where
  "sleep h milliseconds = unimplemented"

subsection \<open>Ports\<close>

definition read_io_u16 :: "acpi_handler \<Rightarrow> machine \<Rightarrow> u16 \<Rightarrow> u16" where
  "read_io_u16 h m port = ucast (port_in m port)"

definition read_io_u32 :: "acpi_handler \<Rightarrow> machine \<Rightarrow> u16 \<Rightarrow> u32" where
  "read_io_u32 h m port = port_in m port"

definition read_io_u8 :: "acpi_handler \<Rightarrow> machine \<Rightarrow> u16 \<Rightarrow> u8" where
  "read_io_u8 h m port = ucast (port_in m port)"

text \<open>A write to a port: the port, the width in bytes and the value.\<close>

definition port_output :: "u16 \<Rightarrow> nat \<Rightarrow> u32 \<Rightarrow> machine \<Rightarrow> machine" where
  "port_output port w v m = m\<lparr>port_out := port_out m @ [(port, w, v)]\<rparr>"

definition write_io_u16 :: "acpi_handler \<Rightarrow> u16 \<Rightarrow> u16 \<Rightarrow> machine \<Rightarrow> machine" where
  "write_io_u16 h port v m = port_output port 2 (ucast v) m"

definition write_io_u32 :: "acpi_handler \<Rightarrow> u16 \<Rightarrow> u32 \<Rightarrow> machine \<Rightarrow> machine" where
  "write_io_u32 h port v m = port_output port 4 v m"

definition write_io_u8 :: "acpi_handler \<Rightarrow> u16 \<Rightarrow> u8 \<Rightarrow> machine \<Rightarrow> machine" where
  "write_io_u8 h port v m = port_output port 1 (ucast v) m"

subsection \<open>Configuration space\<close>

definition read_pci_u16 :: "acpi_handler \<Rightarrow> 'pci \<Rightarrow> u16 \<Rightarrow> u16 outcome" where
  "read_pci_u16 h address off = unimplemented"

definition read_pci_u32 :: "acpi_handler \<Rightarrow> 'pci \<Rightarrow> u16 \<Rightarrow> u32 outcome" where
  "read_pci_u32 h address off = unimplemented"

definition read_pci_u8 :: "acpi_handler \<Rightarrow> 'pci \<Rightarrow> u16 \<Rightarrow> u8 outcome" where
  "read_pci_u8 h address off = unimplemented"

definition write_pci_u16 :: "acpi_handler \<Rightarrow> 'pci \<Rightarrow> u16 \<Rightarrow> u16 \<Rightarrow> unit outcome" where
  "write_pci_u16 h address off v = unimplemented"

definition write_pci_u32 :: "acpi_handler \<Rightarrow> 'pci \<Rightarrow> u16 \<Rightarrow> u32 \<Rightarrow> unit outcome" where
  "write_pci_u32 h address off v = unimplemented"

definition write_pci_u8 :: "acpi_handler \<Rightarrow> 'pci \<Rightarrow> u16 \<Rightarrow> u8 \<Rightarrow> unit outcome" where
  "write_pci_u8 h address off v = unimplemented"

subsection \<open>Memory\<close>

text \<open>Little-endian access to \<open>n\<close> bytes.\<close>

fun load_bytes :: "(u64 \<Rightarrow> u8) \<Rightarrow> nat \<Rightarrow> u64 \<Rightarrow> u64" where
  "load_bytes mem 0 a = 0"
| "load_bytes mem (Suc n) a = ucast (mem a) OR push_bit 8 (load_bytes mem n (a + 1))"

fun store_bytes :: "(u64 \<Rightarrow> u8) \<Rightarrow> nat \<Rightarrow> u64 \<Rightarrow> u64 \<Rightarrow> (u64 \<Rightarrow> u8)" where
  "store_bytes mem 0 a v = mem"
| "store_bytes mem (Suc n) a v = (store_bytes mem n (a + 1) (drop_bit 8 v))(a := ucast v)"

definition read_u8 :: "acpi_handler \<Rightarrow> machine \<Rightarrow> u64 \<Rightarrow> u8" where
  "read_u8 h m address = ucast (load_bytes (memory_bytes m) 1 address)"

definition read_u16 :: "acpi_handler \<Rightarrow> machine \<Rightarrow> u64 \<Rightarrow> u16" where
  "read_u16 h m address = ucast (load_bytes (memory_bytes m) 2 address)"

definition read_u32 :: "acpi_handler \<Rightarrow> machine \<Rightarrow> u64 \<Rightarrow> u32" where
  "read_u32 h m address = ucast (load_bytes (memory_bytes m) 4 address)"

definition read_u64 :: "acpi_handler \<Rightarrow> machine \<Rightarrow> u64 \<Rightarrow> u64" where
  "read_u64 h m address = load_bytes (memory_bytes m) 8 address"

definition write_u8 :: "acpi_handler \<Rightarrow> u64 \<Rightarrow> u8 \<Rightarrow> machine \<Rightarrow> machine" where
  "write_u8 h address v m = m\<lparr>memory_bytes := store_bytes (memory_bytes m) 1 address (ucast v)\<rparr>"

definition write_u16 :: "acpi_handler \<Rightarrow> u64 \<Rightarrow> u16 \<Rightarrow> machine \<Rightarrow> machine" where
  "write_u16 h address v m = m\<lparr>memory_bytes := store_bytes (memory_bytes m) 2 address (ucast v)\<rparr>"

definition write_u32 :: "acpi_handler \<Rightarrow> u64 \<Rightarrow> u32 \<Rightarrow> machine \<Rightarrow> machine" where
  "write_u32 h address v m = m\<lparr>memory_bytes := store_bytes (memory_bytes m) 4 address (ucast v)\<rparr>"

definition write_u64 :: "acpi_handler \<Rightarrow> u64 \<Rightarrow> u64 \<Rightarrow> machine \<Rightarrow> machine" where
  "write_u64 h address v m = m\<lparr>memory_bytes := store_bytes (memory_bytes m) 8 address v\<rparr>"

subsection \<open>Finding the tables\<close>

text \<open>\<open>from_rsdp\<close> is \<^verbatim>\<open>AcpiTables::from_rsdp\<close>; on an error the kernel panics.\<close>

definition read_acpi_tables :: "(acpi_handler \<Rightarrow> u64 \<Rightarrow> 'e + 't) \<Rightarrow> u64 \<Rightarrow> u64 \<Rightarrow> 't outcome" where
  "read_acpi_tables from_rsdp rsdp_addr off =
     (let h = acpi_handler_new off
      in case from_rsdp h rsdp_addr of Inl e \<Rightarrow> Inl UnwrapNone | Inr tables \<Rightarrow> Inr tables)"

text \<open>
  \<open>apic::init\<close> with the tables it reads; \<open>model_new\<close> is \<^verbatim>\<open>InterruptModel::new\<close> reduced to the addresses of the
  controllers.
\<close>

definition apic_start :: "(acpi_handler \<Rightarrow> u64 \<Rightarrow> 'e + 't) \<Rightarrow> ('t \<Rightarrow> interrupt_model option) \<Rightarrow> (u64 \<Rightarrow> u64 outcome) \<Rightarrow> (u64 \<Rightarrow> u64 outcome) \<Rightarrow>
    (u64 \<Rightarrow> u64) \<Rightarrow> ('m \<Rightarrow> u64 \<Rightarrow> u64 \<Rightarrow> u64 \<Rightarrow> 'm option outcome) \<Rightarrow> (u64 \<Rightarrow> u32) \<Rightarrow> u64 \<Rightarrow> u64 \<Rightarrow> 'm \<Rightarrow> io \<Rightarrow> ('m \<times> io) outcome" where
  "apic_start from_rsdp model_new phys_new virt_new containing map_page read_volatile rsdp_addr off m io =
     and_then (read_acpi_tables from_rsdp rsdp_addr off) (\<lambda>tables.
     apic_init phys_new virt_new containing map_page read_volatile (model_new tables) m io)"

subsection \<open>Memory access round trips\<close>

lemma store_bytes_outside:
  "n \<le> unat (b - a) \<Longrightarrow> n < 2 ^ 64 \<Longrightarrow> store_bytes mem n a v b = mem b"
proof (induction n arbitrary: a v)
  case (Suc n)
  have ne: "b \<noteq> a" using Suc.prems(1) by auto
  have "unat (b - (a + 1)) = unat (b - a) - 1"
  proof -
    have "1 \<le> b - a" using Suc.prems(1) by (simp add: word_le_nat_alt)
    then have "unat (b - a - 1) = unat (b - a) - 1" by (simp add: unat_sub)
    then show ?thesis by (simp add: diff_diff_eq)
  qed
  then show ?case using Suc.IH [of "a + 1"] Suc.prems ne by simp
qed simp

lemma load_bytes_cong:
  assumes "\<And>i. i < n \<Longrightarrow> f (b + of_nat i) = g (b + of_nat i)"
  shows "load_bytes f n b = load_bytes g n b"
  using assms
proof (induction n arbitrary: b)
  case (Suc n)
  have "f (b + 1 + of_nat i) = g (b + 1 + of_nat i)" if "i < n" for i
    using Suc.prems [of "Suc i"] that by (simp add: ac_simps)
  then show ?case using Suc.IH [of "b + 1"] Suc.prems [of 0] by simp
qed simp

lemma load_store_bytes:
  "n \<le> 8 \<Longrightarrow> load_bytes (store_bytes mem n a v) n a = take_bit (8 * n) v"
proof (induction n arbitrary: a v mem)
  case (Suc n)
  let ?m = "store_bytes mem n (a + 1) (drop_bit 8 v)"
  have "a + 1 + of_nat i \<noteq> a" if "i < n" for i
  proof -
    have "unat (of_nat (Suc i) :: u64) = Suc i" using that Suc.prems by (intro unat_of_nat_u64) simp
    then have "(of_nat (Suc i) :: u64) \<noteq> 0" by (metis nat.distinct(1) unsigned_0)
    then show ?thesis by (simp add: add.assoc)
  qed
  then have "load_bytes (?m(a := ucast v)) n (a + 1) = load_bytes ?m n (a + 1)" by (intro load_bytes_cong) simp
  also have "\<dots> = take_bit (8 * n) (drop_bit 8 v)" using Suc by simp
  finally have tail: "load_bytes (?m(a := ucast v)) n (a + 1) = take_bit (8 * n) (drop_bit 8 v)" .
  have "ucast (ucast v :: u8) OR push_bit 8 (take_bit (8 * n) (drop_bit 8 v)) = take_bit (8 * Suc n) v"
    by (rule bit_word_eqI) (auto simp: bit_simps)
  then show ?case unfolding store_bytes.simps load_bytes.simps tail fun_upd_same .
qed simp

text \<open>What the callbacks write is what they read back, at every width, and nothing else changes.\<close>

lemma read_write_memory:
  "read_u8 h (write_u8 h a v8 m) a = v8" "read_u16 h (write_u16 h a v16 m) a = v16"
  "read_u32 h (write_u32 h a v32 m) a = v32" "read_u64 h (write_u64 h a v64 m) a = v64"
proof -
  have ls: "load_bytes (memory_bytes (m\<lparr>memory_bytes := store_bytes (memory_bytes m) n a w\<rparr>)) n a = take_bit (8 * n) w" if "n \<le> 8" for n w
    using load_store_bytes [OF that] by simp
  show "read_u8 h (write_u8 h a v8 m) a = v8" unfolding read_u8_def write_u8_def
    by (subst ls) (auto intro!: bit_word_eqI simp: bit_simps)
  show "read_u16 h (write_u16 h a v16 m) a = v16" unfolding read_u16_def write_u16_def
    by (subst ls) (auto intro!: bit_word_eqI simp: bit_simps)
  show "read_u32 h (write_u32 h a v32 m) a = v32" unfolding read_u32_def write_u32_def
    by (subst ls) (auto intro!: bit_word_eqI simp: bit_simps)
  show "read_u64 h (write_u64 h a v64 m) a = v64" unfolding read_u64_def write_u64_def
    by (subst ls) (auto intro!: bit_word_eqI simp: bit_simps)
qed

end
