(* ===== verification/Paging.thy ===== *)
theory Paging
  imports Prelude
begin

text \<open>
  Address translation of \<^verbatim>\<open>kernel/src/mm/memory.rs\<close>: \<open>init\<close>, \<open>active_level_4_table\<close>, \<open>translate_addr\<close> and
  its inner function, which walk the four levels of page tables through the window that maps all of
  physical memory at \<open>physical_memory_offset\<close>. The address and page table types of the
  \<^verbatim>\<open>x86_64\<close> crate are the fields of \<open>paging_crate\<close>; \<open>memory\<close> holds the 64-bit words of kernel
  virtual memory and \<open>cr3\<close> the frame that \<^verbatim>\<open>Cr3::read\<close> returns.

  The walk is compared with \<open>mmu_walk\<close>, the translation the processor itself makes, written on the bits of
  the address and of the entries.
\<close>

datatype frame_error = FrameNotPresent | HugeFrame

record paging_crate =
  p_index :: "nat \<Rightarrow> u64 \<Rightarrow> nat"
  page_offset :: "u64 \<Rightarrow> u64"
  entry_frame :: "u64 \<Rightarrow> frame_error + u64"
  virt_plus :: "u64 \<Rightarrow> u64 \<Rightarrow> u64 outcome"
  phys_plus :: "u64 \<Rightarrow> u64 \<Rightarrow> u64 outcome"

definition active_level_4_table :: "paging_crate \<Rightarrow> u64 \<Rightarrow> u64 \<Rightarrow> u64 outcome" where
  "active_level_4_table X cr3 physical_memory_offset = virt_plus X physical_memory_offset cr3"

text \<open>\<open>new_table\<close> is \<^verbatim>\<open>OffsetPageTable::new\<close>.\<close>

definition paging_init :: "(u64 \<Rightarrow> u64 \<Rightarrow> 'm) \<Rightarrow> paging_crate \<Rightarrow> u64 \<Rightarrow> u64 \<Rightarrow> 'm outcome" where
  "paging_init new_table X cr3 physical_memory_offset =
     and_then (active_level_4_table X cr3 physical_memory_offset) (\<lambda>level_4_table.
     Inr (new_table level_4_table physical_memory_offset))"

text \<open>The loop over the four table indexes; \<open>None\<close> is the early return.\<close>

fun walk_tables :: "paging_crate \<Rightarrow> (u64 \<Rightarrow> u64) \<Rightarrow> u64 \<Rightarrow> nat list \<Rightarrow> u64 \<Rightarrow> u64 option outcome" where
  "walk_tables X memory physical_memory_offset [] frame = Inr (Some frame)"
| "walk_tables X memory physical_memory_offset (index # table_indexes) frame =
     and_then (virt_plus X physical_memory_offset frame) (\<lambda>virt.
     case entry_frame X (memory (virt + 8 * of_nat index)) of
       Inr frame \<Rightarrow> walk_tables X memory physical_memory_offset table_indexes frame
     | Inl FrameNotPresent \<Rightarrow> Inr None
     | Inl HugeFrame \<Rightarrow> Inl (PanicMsg ''huge pages not supported''))"

definition translate_addr_inner :: "paging_crate \<Rightarrow> (u64 \<Rightarrow> u64) \<Rightarrow> u64 \<Rightarrow> u64 \<Rightarrow> u64 \<Rightarrow> u64 option outcome" where
  "translate_addr_inner X memory cr3 addr physical_memory_offset =
     and_then (walk_tables X memory physical_memory_offset
         [p_index X 4 addr, p_index X 3 addr, p_index X 2 addr, p_index X 1 addr] cr3) (\<lambda>res.
     case res of
       None \<Rightarrow> Inr None
     | Some frame \<Rightarrow> and_then (phys_plus X frame (page_offset X addr)) (\<lambda>phys. Inr (Some phys)))"

definition translate_addr :: "paging_crate \<Rightarrow> (u64 \<Rightarrow> u64) \<Rightarrow> u64 \<Rightarrow> u64 \<Rightarrow> u64 \<Rightarrow> u64 option outcome" where
  "translate_addr X memory cr3 addr physical_memory_offset = translate_addr_inner X memory cr3 addr physical_memory_offset"

subsection \<open>What the code relies on of the crate\<close>

text \<open>
  Level \<open>n\<close> of the tables is indexed by the nine bits of the address from bit \<open>12 + 9 * (n - 1)\<close> on, the
  page offset is its low twelve bits. \<^verbatim>\<open>PageTableEntry::frame\<close> reports an entry without the present
  bit (bit 0), then one with the huge page bit (bit 7), and otherwise gives the frame address of bits 12 to
  51. Adding to an address panics unless the sum is a valid address again.
\<close>

definition FRAME_MASK :: u64 where "FRAME_MASK = 0x000FFFFFFFFFF000"

definition paging_laws :: "paging_crate \<Rightarrow> bool" where
  "paging_laws X \<longleftrightarrow>
     (\<forall>n a. 1 \<le> n \<and> n \<le> 4 \<longrightarrow> p_index X n a = unat a div 2 ^ (12 + 9 * (n - 1)) mod 512) \<and>
     (\<forall>a. page_offset X a = a AND 0xFFF) \<and>
     (\<forall>e. entry_frame X e =
        (if \<not> bit e 0 then Inl FrameNotPresent else if bit e 7 then Inl HugeFrame else Inr (e AND FRAME_MASK))) \<and>
     (\<forall>a b. unat a + unat b < 2 ^ 47 \<longrightarrow> virt_plus X a b = Inr (a + b)) \<and>
     (\<forall>a b. unat a + unat b < 2 ^ 52 \<longrightarrow> phys_plus X a b = Inr (a + b))"

subsection \<open>The translation of the processor\<close>

datatype translation = Unmapped | Reserved | Large | Mapped bool u64

text \<open>
  \<open>mmu_walk n\<close> translates with \<open>n\<close> levels of tables left, \<open>table\<close> being the physical address of the
  current one; \<open>mmu_tables\<close> lists the tables it reads. Bit 7 of an entry is reserved at level 4, makes the entry map
  a large page at levels 3 and 2, and at level 1 it is a part of the memory type (\<open>pat\<close>) of the page.
\<close>

fun mmu_walk :: "(u64 \<Rightarrow> u64) \<Rightarrow> nat \<Rightarrow> bool \<Rightarrow> u64 \<Rightarrow> u64 \<Rightarrow> translation" where
  "mmu_walk phys 0 pat table a = Mapped pat (table OR (a AND 0xFFF))"
| "mmu_walk phys (Suc n) pat table a =
     (let e = phys (table + push_bit 3 (drop_bit (12 + 9 * n) a AND 0x1FF))
      in if \<not> bit e 0 then Unmapped
         else if bit e 7 \<and> n = 3 then Reserved
         else if bit e 7 \<and> 0 < n then Large
         else mmu_walk phys n (bit e 7) (e AND FRAME_MASK) a)"

fun mmu_tables :: "(u64 \<Rightarrow> u64) \<Rightarrow> nat \<Rightarrow> u64 \<Rightarrow> u64 \<Rightarrow> u64 list" where
  "mmu_tables phys 0 table a = []"
| "mmu_tables phys (Suc n) table a =
     table # (let e = phys (table + push_bit 3 (drop_bit (12 + 9 * n) a AND 0x1FF))
              in if bit e 0 \<and> \<not> bit e 7 then mmu_tables phys n (e AND FRAME_MASK) a else [])"

text \<open>The answer of the kernel for each of them.\<close>

definition translated :: "translation \<Rightarrow> u64 option outcome" where
  "translated t =
     (case t of
        Unmapped \<Rightarrow> Inr None
      | Mapped False p \<Rightarrow> Inr (Some p)
      | _ \<Rightarrow> Inl (PanicMsg ''huge pages not supported''))"

subsection \<open>The walk of the kernel is the walk of the processor\<close>

lemma unat_mod_64: "unat (a :: u64) mod 18446744073709551616 = unat a"
proof -
  have "unat a < 2 ^ LENGTH(64)" by (rule unsigned_less)
  then show ?thesis by simp
qed

lemma index_word:
  "push_bit 3 (drop_bit k a AND 0x1FF) = 8 * of_nat (unat (a :: u64) div 2 ^ k mod 512)"
proof -
  have "drop_bit k a AND 0x1FF = take_bit 9 (drop_bit k a)"
    by (simp add: take_bit_eq_mask mask_eq_exp_minus_1)
  also have "\<dots> = of_nat (unat (take_bit 9 (drop_bit k a)))" by simp
  also have "unat (take_bit 9 (drop_bit k a)) = unat a div 2 ^ k mod 512"
    unfolding unsigned_take_bit_eq unsigned_drop_bit_eq by (simp add: take_bit_eq_mod drop_bit_eq_div unat_mod_64)
  finally show ?thesis by (simp add: push_bit_eq_mult)
qed

lemma frame_offset_disjoint: "(e AND FRAME_MASK) AND ((a :: u64) AND 0xFFF) = 0"
proof -
  have "FRAME_MASK AND 0xFFF = 0" by (simp add: FRAME_MASK_def)
  then have "e AND a AND (FRAME_MASK AND 0xFFF) = 0" by simp
  then show ?thesis by (simp only: ac_simps)
qed

lemma frame_plus_offset: "(e AND FRAME_MASK) + ((a :: u64) AND 0xFFF) = (e AND FRAME_MASK) OR (a AND 0xFFF)"
  by (rule disjunctive_add_eq_or) (rule frame_offset_disjoint)

lemma frame_plus_bound: "unat (e AND FRAME_MASK) + unat ((a :: u64) AND 0xFFF) < 2 ^ 52"
proof -
  have "e AND FRAME_MASK \<le> FRAME_MASK" "a AND 0xFFF \<le> 0xFFF" by (simp_all add: word_and_le1)
  then have "unat (e AND FRAME_MASK) \<le> unat FRAME_MASK" "unat (a AND 0xFFF) \<le> unat (0xFFF :: u64)"
    by (simp_all only: word_le_nat_alt)
  then show ?thesis by (simp add: FRAME_MASK_def)
qed

lemma walk_tables_mmu:
  assumes X: "paging_laws X" and "n \<le> 4" "n = 0 \<longrightarrow> \<not> pat \<and> (\<exists>e. table = e AND FRAME_MASK)"
    "\<forall>t\<in>set (mmu_tables (\<lambda>p. memory (off + p)) n table a). unat off + unat t < 2 ^ 47"
  shows "and_then (walk_tables X memory off (map (\<lambda>i. p_index X i a) (rev [1..<Suc n])) table) (\<lambda>res.
     case res of None \<Rightarrow> Inr None | Some frame \<Rightarrow> and_then (phys_plus X frame (page_offset X a)) (\<lambda>phys. Inr (Some phys)))
    = translated (mmu_walk (\<lambda>p. memory (off + p)) n pat table a)"
  using assms(2-)
proof (induction n arbitrary: pat table)
  case 0
  then obtain e where e: "table = e AND FRAME_MASK" "\<not> pat" by auto
  have "phys_plus X table (page_offset X a) = Inr (table OR (a AND 0xFFF))"
    using X frame_plus_bound [of e a] frame_plus_offset [of e a] unfolding e(1) by (simp add: paging_laws_def)
  then show ?case using e(2) by (simp add: translated_def)
next
  case (Suc n)
  define e where "e = memory (off + (table + 8 * of_nat (unat a div 2 ^ (12 + 9 * n) mod 512)))"
  have v: "virt_plus X off table = Inr (off + table)" and i: "p_index X (Suc n) a = unat a div 2 ^ (12 + 9 * n) mod 512"
    using Suc.prems(1,3) X by (auto simp: paging_laws_def)
  have read: "memory (off + table + 8 * of_nat (p_index X (Suc n) a)) = e" by (simp add: i e_def add.assoc)
  have f: "entry_frame X e =
      (if \<not> bit e 0 then Inl FrameNotPresent else if bit e 7 then Inl HugeFrame else Inr (e AND FRAME_MASK))"
    using X by (simp add: paging_laws_def)
  have l: "rev [1..<Suc (Suc n)] = Suc n # rev [1..<Suc n]" by simp
  have mmu: "mmu_walk (\<lambda>p. memory (off + p)) (Suc n) pat table a =
      (if \<not> bit e 0 then Unmapped else if bit e 7 \<and> n = 3 then Reserved else if bit e 7 \<and> 0 < n then Large
       else mmu_walk (\<lambda>p. memory (off + p)) n (bit e 7) (e AND FRAME_MASK) a)"
    by (simp only: mmu_walk.simps index_word Let_def e_def)
  have tabs: "bit e 0 \<Longrightarrow> \<not> bit e 7 \<Longrightarrow> set (mmu_tables (\<lambda>p. memory (off + p)) (Suc n) table a) =
      insert table (set (mmu_tables (\<lambda>p. memory (off + p)) n (e AND FRAME_MASK) a))"
    by (simp only: mmu_tables.simps index_word Let_def e_def [symmetric] list.set simp_thms if_True)
  show ?case
  proof (cases "bit e 0 \<and> \<not> bit e 7")
    case True
    then have low: "\<forall>t\<in>set (mmu_tables (\<lambda>p. memory (off + p)) n (e AND FRAME_MASK) a). unat off + unat t < 2 ^ 47"
      using Suc.prems(3) tabs by blast
    show ?thesis
      unfolding l mmu using Suc.IH [OF _ _ low] Suc.prems(1) True
      by (auto simp: v f read simp del: upt_Suc mmu_walk.simps)
  next
    case False
    let ?r = "if \<not> bit e 0 then Inr None else Inl (PanicMsg ''huge pages not supported'')"
    have "translated (mmu_walk (\<lambda>p. memory (off + p)) (Suc n) pat table a) = ?r"
      unfolding mmu using False by (cases n) (simp_all add: translated_def)
    then show ?thesis unfolding l using False by (auto simp: v f read simp del: upt_Suc mmu_walk.simps)
  qed
qed

text \<open>
  C14: The kernel's translation of an address is the processor's: walking the active tables through the
  window of physical memory gives the physical address that the four level walk of the processor gives, the answer
  that the address is unmapped, and a panic for a large page, a reserved bit, and an ordinary page whose entry has the memory
  type bit set.
\<close>

theorem translate_addr_mmu:
  assumes "paging_laws X"
    "\<forall>t\<in>set (mmu_tables (\<lambda>p. memory (off + p)) 4 cr3 a). unat off + unat t < 2 ^ 47"
  shows "translate_addr X memory cr3 a off = translated (mmu_walk (\<lambda>p. memory (off + p)) 4 False cr3 a)"
proof -
  have "rev [1..<Suc 4] = [4, 3, 2, 1]" by (simp add: upt_rec)
  then show ?thesis
    using walk_tables_mmu [OF assms(1) _ _ assms(2)] by (simp add: translate_addr_def translate_addr_inner_def)
qed

subsection \<open>A concrete address space\<close>

text \<open>The crate as documented, and tables that map the page at 0x400000 to the frame at 0x5000.\<close>

definition demo_paging :: paging_crate where
  "demo_paging = \<lparr>p_index = \<lambda>n a. unat a div 2 ^ (12 + 9 * (n - 1)) mod 512, page_offset = \<lambda>a. a AND 0xFFF,
     entry_frame = \<lambda>e. if \<not> bit e 0 then Inl FrameNotPresent else if bit e 7 then Inl HugeFrame else Inr (e AND FRAME_MASK),
     virt_plus = \<lambda>a b. if unat a + unat b < 2 ^ 47 then Inr (a + b) else Inl (PanicMsg ''attempt to add with overflow''),
     phys_plus = \<lambda>a b. if unat a + unat b < 2 ^ 52 then Inr (a + b) else Inl (PanicMsg ''attempt to add with overflow'')\<rparr>"

definition demo_tables :: "u64 \<Rightarrow> u64" where
  "demo_tables v =
     (if v = 0x101000 then 0x2007 else if v = 0x102000 then 0x3007 else if v = 0x103010 then 0x4007
      else if v = 0x104000 then 0x8000000000005007 else 0)"

theorem translate_addr_mmu_witness:
  "translate_addr demo_paging demo_tables 0x1000 0x400123 0x100000 = Inr (Some 0x5123)"
proof -
  have "paging_laws demo_paging" by (simp add: paging_laws_def demo_paging_def)
  moreover have "mmu_tables (\<lambda>p. demo_tables (0x100000 + p)) 4 0x1000 0x400123 = [0x1000, 0x2000, 0x3000, 0x4000]"
      "mmu_walk (\<lambda>p. demo_tables (0x100000 + p)) 4 False 0x1000 0x400123 = Mapped False 0x5123"
    by code_simp+
  ultimately show ?thesis
    using translate_addr_mmu [of demo_paging demo_tables "0x100000" "0x1000" "0x400123"] by (simp add: translated_def)
qed

end
