(* ===== verification/Buddy_Spec.thy ===== *)
theory Buddy_Spec
  imports Prelude
begin

text \<open>
  The abstract buddy system: what \<^verbatim>\<open>kernel/src/mm/buddy.rs\<close> promises, without
  pointers, bitmap or machine words. Memory is the pages \<open>0 ..< MAX_PAGES\<close>; the state is
  one list of free blocks per order, each block given by its first page. The lists are kept
  in the order in which the code links them, so that the pointer structure of the code can
  be shown to refine these operations step by step (theory \<open>Buddy\<close>).
\<close>

definition MAX_ORDER :: nat where "MAX_ORDER = 12"
definition PAGE_SIZE :: nat where "PAGE_SIZE = 4096"
definition MAX_PAGES :: nat where "MAX_PAGES = 262144"

type_synonym flists = "nat \<Rightarrow> nat list"

definition buddy_page :: "nat \<Rightarrow> nat \<Rightarrow> nat" where
  "buddy_page p k = p XOR 2 ^ k"

definition block :: "nat \<Rightarrow> nat \<Rightarrow> nat set" where
  "block p k = {p ..< p + 2 ^ k}"

function spec_alloc :: "nat \<Rightarrow> flists \<Rightarrow> (nat \<times> flists) option" where
  "spec_alloc k L =
     (if k \<ge> MAX_ORDER then None
      else case L k of
        p # ps \<Rightarrow> Some (p, L(k := ps))
      | [] \<Rightarrow> (case spec_alloc (Suc k) L of
            None \<Rightarrow> None
          | Some (p, L') \<Rightarrow> Some (p, L'(k := buddy_page p k # L' k))))"
  by pat_completeness auto
termination
  by (relation "measure (\<lambda>(k, L). MAX_ORDER - k)") auto

function spec_dealloc :: "nat \<Rightarrow> nat \<Rightarrow> flists \<Rightarrow> flists" where
  "spec_dealloc p k L =
     (if k \<ge> MAX_ORDER - 1 then L(k := p # L k)
      else if buddy_page p k \<in> set (L k)
      then spec_dealloc (min p (buddy_page p k)) (Suc k)
             (L(k := remove1 (buddy_page p k) (L k)))
      else L(k := p # L k))"
  by pat_completeness auto
termination
  by (relation "measure (\<lambda>(p, k, L). MAX_ORDER - k)") auto

declare spec_alloc.simps [simp del] spec_dealloc.simps [simp del]

definition is_free :: "flists \<Rightarrow> nat \<Rightarrow> nat \<Rightarrow> bool" where
  "is_free L k p \<longleftrightarrow> p \<in> set (L k)"

definition free_pages :: "flists \<Rightarrow> nat set" where
  "free_pages L = (\<Union>k. \<Union>p \<in> set (L k). block p k)"

definition valid_block :: "nat \<Rightarrow> nat \<Rightarrow> bool" where
  "valid_block p k \<longleftrightarrow> k < MAX_ORDER \<and> 2 ^ k dvd p \<and> p + 2 ^ k \<le> MAX_PAGES"

definition blocks_ok :: "flists \<Rightarrow> bool" where
  "blocks_ok L \<longleftrightarrow>
     (\<forall>k p. p \<in> set (L k) \<longrightarrow> valid_block p k) \<and>
     (\<forall>k. distinct (L k)) \<and>
     (\<forall>k p k' p'. p \<in> set (L k) \<longrightarrow> p' \<in> set (L k') \<longrightarrow> (k, p) \<noteq> (k', p') \<longrightarrow>
        block p k \<inter> block p' k' = {})"

definition merged :: "flists \<Rightarrow> bool" where
  "merged L \<longleftrightarrow> (\<forall>k < MAX_ORDER - 1. \<forall>p \<in> set (L k). buddy_page p k \<notin> set (L k))"

definition spec_inv :: "flists \<Rightarrow> bool" where
  "spec_inv L \<longleftrightarrow> blocks_ok L \<and> merged L"

subsection \<open>Blocks and buddies\<close>

lemma block_nonempty [simp]: "block p k \<noteq> {}" "p \<in> block p k"
  by (auto simp: block_def)

lemma xor_one_nat: "(q::nat) XOR 1 = (if even q then q + 1 else q - 1)"
  by (simp add: xor_Suc_0_eq)

lemma buddy_page_push_bit: "buddy_page (push_bit k q) k = push_bit k (q XOR 1)"
proof -
  have pow: "push_bit k 1 = (2::nat) ^ k" by (simp add: push_bit_eq_mult)
  show ?thesis
    unfolding buddy_page_def pow [symmetric] by (simp only: push_bit_xor)
qed

lemma buddy_page_aligned:
  assumes "2 ^ k dvd p"
  shows "buddy_page p k = (if even (p div 2 ^ k) then p + 2 ^ k else p - 2 ^ k)"
proof -
  obtain q where q: "p = q * 2 ^ k"
    using assms by (metis dvd_def mult.commute)
  have "buddy_page p k = (q XOR 1) * 2 ^ k"
    using buddy_page_push_bit [of k q] by (simp add: q push_bit_eq_mult)
  then show ?thesis
    unfolding xor_one_nat by (auto simp: q algebra_simps diff_mult_distrib)
qed

lemma buddy_page_invol [simp]: "buddy_page (buddy_page p k) k = p"
  by (simp add: buddy_page_def xor.assoc)

lemma buddy_page_neq [simp]: "buddy_page p k \<noteq> p" "p \<noteq> buddy_page p k"
proof -
  have "p XOR 2 ^ k \<noteq> p"
  proof
    assume "p XOR 2 ^ k = p"
    then have "bit (p XOR 2 ^ k) k = bit p k" by simp
    then show False by (simp add: bit_simps)
  qed
  then show "buddy_page p k \<noteq> p" "p \<noteq> buddy_page p k"
    by (auto simp: buddy_page_def)
qed

lemma buddy_page_aligned_Suc:
  assumes "2 ^ Suc k dvd p"
  shows "buddy_page p k = p + 2 ^ k"
proof -
  from assms have "2 ^ k dvd p" by (rule power_le_dvd) simp
  moreover have "even (p div 2 ^ k)" using assms
    by (auto simp: dvd_def)
  ultimately show ?thesis by (simp add: buddy_page_aligned)
qed

lemma min_buddy_aligned:
  assumes "2 ^ k dvd p"
  shows "2 ^ Suc k dvd min p (buddy_page p k)"
    and "buddy_page (min p (buddy_page p k)) k = max p (buddy_page p k)"
    and "2 ^ k dvd buddy_page p k"
proof -
  obtain q where q: "p = q * 2 ^ k"
    using assms by (metis dvd_def mult.commute)
  have b: "buddy_page p k = (if even q then p + 2 ^ k else p - 2 ^ k)"
    using buddy_page_aligned [OF assms] by (simp add: q)
  show "2 ^ Suc k dvd min p (buddy_page p k)"
  proof (cases "even q")
    case True
    then show ?thesis using b q by (auto simp: min_def elim!: evenE)
  next
    case False
    then obtain r where "q = 2 * r + 1" by (auto elim!: oddE)
    then have "min p (buddy_page p k) = r * 2 ^ Suc k"
      using b q by (simp add: min_def algebra_simps)
    then show ?thesis by simp
  qed
  show "buddy_page (min p (buddy_page p k)) k = max p (buddy_page p k)"
    by (simp add: min_def max_def)
  show "2 ^ k dvd buddy_page p k"
    using assms b by (simp add: q)
qed

lemma mem_block_div:
  assumes "2 ^ k dvd p"
  shows "x \<in> block p k \<longleftrightarrow> x div 2 ^ k = p div 2 ^ k"
proof -
  obtain q where q: "p = q * 2 ^ k"
    using assms by (metis dvd_def mult.commute)
  have "x \<in> block p k \<longleftrightarrow> q * 2 ^ k \<le> x \<and> x < Suc q * 2 ^ k"
    by (simp add: block_def q algebra_simps)
  also have "\<dots> \<longleftrightarrow> q \<le> x div 2 ^ k \<and> x div 2 ^ k < Suc q"
    by (simp add: less_eq_div_iff_mult_less_eq div_less_iff_less_mult del: mult_Suc)
  finally show ?thesis by (auto simp: q)
qed

lemma block_nested:
  assumes "2 ^ k dvd p" "2 ^ k' dvd p'" "k \<le> k'" "block p k \<inter> block p' k' \<noteq> {}"
  shows "block p k \<subseteq> block p' k'"
proof -
  from assms(4) obtain x where x: "x \<in> block p k" "x \<in> block p' k'" by auto
  have up: "y div 2 ^ k' = y div 2 ^ k div 2 ^ (k' - k)" for y :: nat
    using assms(3) by (simp add: div_mult2_eq [symmetric] power_add [symmetric])
  show ?thesis
  proof
    fix y assume "y \<in> block p k"
    with x assms(1) have "y div 2 ^ k = x div 2 ^ k" by (simp add: mem_block_div)
    then have "y div 2 ^ k' = x div 2 ^ k'" by (simp add: up)
    with x(2) assms(2) show "y \<in> block p' k'" by (simp add: mem_block_div)
  qed
qed

lemma block_buddies:
  assumes "2 ^ k dvd p"
  shows "block (min p (buddy_page p k)) (Suc k) = block p k \<union> block (buddy_page p k) k"
    and "block p k \<inter> block (buddy_page p k) k = {}"
  using buddy_page_aligned [OF assms] assms
  by (auto simp: block_def min_def split: if_splits dest: dvd_imp_le)

lemma block_split:
  assumes "2 ^ Suc k dvd p"
  shows "block p (Suc k) = block p k \<union> block (p + 2 ^ k) k"
    and "block p k \<inter> block (p + 2 ^ k) k = {}"
  by (auto simp: block_def)

subsection \<open>Adding and removing one block\<close>

lemma mem_free_pages: "x \<in> free_pages L \<longleftrightarrow> (\<exists>k p. p \<in> set (L k) \<and> x \<in> block p k)"
  by (auto simp: free_pages_def)

lemma block_subset_free_pages: "p \<in> set (L k) \<Longrightarrow> block p k \<subseteq> free_pages L"
  unfolding free_pages_def by blast

lemma blocks_okD:
  assumes "blocks_ok L"
  shows "p \<in> set (L k) \<Longrightarrow> valid_block p k"
    and "distinct (L k)"
    and "p \<in> set (L k) \<Longrightarrow> p' \<in> set (L k') \<Longrightarrow> (k, p) \<noteq> (k', p') \<Longrightarrow> block p k \<inter> block p' k' = {}"
  using assms unfolding blocks_ok_def by blast+

lemma free_pages_push: "free_pages (L(k := p # L k)) = free_pages L \<union> block p k"
proof -
  have "x \<in> free_pages (L(k := p # L k)) \<longleftrightarrow> x \<in> free_pages L \<union> block p k" for x
  proof
    assume "x \<in> free_pages (L(k := p # L k))"
    then obtain j q where "q \<in> set ((L(k := p # L k)) j)" "x \<in> block q j"
      unfolding mem_free_pages by blast
    then show "x \<in> free_pages L \<union> block p k"
      unfolding mem_free_pages Un_iff by (cases "j = k") auto
  next
    assume "x \<in> free_pages L \<union> block p k"
    then consider "x \<in> block p k" | j q where "q \<in> set (L j)" "x \<in> block q j"
      unfolding mem_free_pages Un_iff by blast
    then show "x \<in> free_pages (L(k := p # L k))"
      unfolding mem_free_pages
      by cases (metis fun_upd_same list.set_intros(1),
        metis fun_upd_same fun_upd_other list.set_intros(2))
  qed
  then show ?thesis by blast
qed

lemma blocks_ok_push:
  assumes "blocks_ok L" "valid_block p k" "block p k \<inter> free_pages L = {}"
  shows "blocks_ok (L(k := p # L k))"
proof -
  have fresh: "block p k \<inter> block q j = {}" if "q \<in> set (L j)" for q j
    using assms(3) block_subset_free_pages [of q L j, OF that] by auto
  have "p \<notin> set (L k)" using fresh [of p k] by auto
  then show ?thesis
    using assms(1,2) fresh blocks_okD(3) [OF assms(1)]
    unfolding blocks_ok_def by (auto split: if_splits)
qed

lemma merged_push:
  assumes "merged L" "k < MAX_ORDER - 1 \<longrightarrow> buddy_page p k \<notin> set (L k)"
  shows "merged (L(k := p # L k))"
  using assms unfolding merged_def by (auto split: if_splits)

lemma free_pages_cong: "(\<And>k. set (L k) = set (L' k)) \<Longrightarrow> free_pages L = free_pages L'"
  unfolding free_pages_def by simp

lemma free_pages_remove:
  assumes "blocks_ok L" "p \<in> set (L k)"
  shows "free_pages (L(k := remove1 p (L k))) = free_pages L - block p k"
proof -
  let ?L1 = "L(k := remove1 p (L k))"
  have d: "set (remove1 p (L k)) = set (L k) - {p}"
    using blocks_okD(2) [OF assms(1)] by simp
  have "free_pages L = free_pages (?L1(k := p # ?L1 k))"
    using assms(2) d by (intro free_pages_cong) auto
  then have un: "free_pages L = free_pages ?L1 \<union> block p k"
    by (simp only: free_pages_push)
  have "free_pages ?L1 \<inter> block p k = {}"
  proof -
    have "block q j \<inter> block p k = {}" if "q \<in> set (?L1 j)" for j q
      using that d by (intro blocks_okD(3) [OF assms(1) _ assms(2)]) (auto split: if_splits)
    then show ?thesis unfolding free_pages_def by blast
  qed
  with un show ?thesis by blast
qed

lemma spec_inv_remove:
  assumes "spec_inv L"
  shows "spec_inv (L(k := remove1 p (L k)))"
proof -
  have sub: "set (remove1 p (L k)) \<subseteq> set (L k)" by (rule set_remove1_subset)
  from assms have "blocks_ok (L(k := remove1 p (L k)))"
    unfolding spec_inv_def blocks_ok_def using sub by (auto split: if_splits)
  moreover from assms have "merged (L(k := remove1 p (L k)))"
    unfolding spec_inv_def merged_def using sub by auto
  ultimately show ?thesis by (simp add: spec_inv_def)
qed

lemma spec_inv_push:
  assumes "spec_inv L" "valid_block p k" "block p k \<inter> free_pages L = {}"
    and "k < MAX_ORDER - 1 \<longrightarrow> buddy_page p k \<notin> set (L k)"
  shows "spec_inv (L(k := p # L k))"
  using assms blocks_ok_push merged_push by (simp add: spec_inv_def)

lemma spec_inv_empty: "spec_inv (\<lambda>_. [])"
  by (simp add: spec_inv_def blocks_ok_def merged_def)

lemma free_pages_empty [simp]: "free_pages (\<lambda>_. []) = {}"
  by (simp add: free_pages_def)

lemma free_pages_bound: "spec_inv L \<Longrightarrow> free_pages L \<subseteq> {..<MAX_PAGES}"
  by (fastforce simp: free_pages_def spec_inv_def block_def valid_block_def dest: blocks_okD(1))

subsection \<open>Allocation\<close>

lemma spec_alloc_stop: "MAX_ORDER \<le> k \<Longrightarrow> spec_alloc k L = None"
  by (simp add: spec_alloc.simps [of k])

lemma spec_alloc_pop: "k < MAX_ORDER \<Longrightarrow> L k = p # ps \<Longrightarrow> spec_alloc k L = Some (p, L(k := ps))"
  by (simp add: spec_alloc.simps [of k])

lemma spec_alloc_split:
  "k < MAX_ORDER \<Longrightarrow> L k = [] \<Longrightarrow> spec_alloc k L =
     map_option (\<lambda>(p, L'). (p, L'(k := buddy_page p k # L' k))) (spec_alloc (Suc k) L)"
  by (simp add: spec_alloc.simps [of k] split: option.splits)

lemmas spec_alloc_cases = spec_alloc_stop spec_alloc_pop spec_alloc_split

lemma spec_alloc_lower: "spec_alloc k L = Some (p, L') \<Longrightarrow> j < k \<Longrightarrow> L' j = L j"
proof (induction k L arbitrary: p L' rule: spec_alloc.induct)
  case (1 k L)
  then show ?case
    by (cases "k < MAX_ORDER"; cases "L k") (auto simp: spec_alloc_cases)
qed

lemma spec_alloc_correct:
  assumes "spec_inv L" "spec_alloc k L = Some (p, L')"
  shows "spec_inv L' \<and> valid_block p k \<and> block p k \<inter> free_pages L' = {} \<and>
    free_pages L = free_pages L' \<union> block p k"
  using assms
proof (induction k L arbitrary: p L' rule: spec_alloc.induct)
  case (1 k L)
  have k: "k < MAX_ORDER"
    using "1.prems"(2) spec_alloc_stop [of k L] by (cases "k < MAX_ORDER") simp_all
  have ok: "blocks_ok L" using "1.prems"(1) by (simp add: spec_inv_def)
  show ?case
  proof (cases "L k")
    case (Cons q qs)
    then have eq: "p = q" "L' = L(k := remove1 q (L k))"
      using "1.prems"(2) spec_alloc_pop [of k L, OF k Cons] by simp_all
    have mem: "q \<in> set (L k)" using Cons by simp
    show ?thesis
      unfolding eq free_pages_remove [OF ok mem]
      using spec_inv_remove [OF "1.prems"(1)] blocks_okD(1) [OF ok mem]
        block_subset_free_pages [of q L k, OF mem] by blast
  next
    case Nil
    then obtain q L1 where up: "spec_alloc (Suc k) L = Some (q, L1)"
      and eq: "p = q" "L' = L1(k := buddy_page q k # L1 k)"
      using "1.prems"(2) spec_alloc_split [of k L, OF k Nil] by auto
    have IH: "spec_inv L1" "valid_block q (Suc k)" "block q (Suc k) \<inter> free_pages L1 = {}"
        "free_pages L = free_pages L1 \<union> block q (Suc k)"
      using "1.IH" [OF _ Nil "1.prems"(1) up] k by simp_all
    have al: "2 ^ Suc k dvd q" using IH(2) by (simp add: valid_block_def)
    note b = buddy_page_aligned_Suc [OF al] and sp = block_split [OF al]
    have vq: "valid_block q k" "valid_block (q + 2 ^ k) k"
      using IH(2) power_le_dvd [OF al, of k] by (auto simp: valid_block_def)
    have "L1 k = []" using spec_alloc_lower [OF up, of k] Nil by simp
    then have "spec_inv L'"
      unfolding eq b using IH(3) sp by (intro spec_inv_push [OF IH(1) vq(2)]) auto
    moreover have "free_pages L' = free_pages L1 \<union> block (q + 2 ^ k) k"
      unfolding eq free_pages_push b ..
    ultimately show ?thesis using eq(1) IH(3,4) sp vq(1) by auto
  qed
qed

lemma spec_alloc_None:
  "spec_alloc k L = None \<longleftrightarrow> (\<forall>j. k \<le> j \<longrightarrow> j < MAX_ORDER \<longrightarrow> L j = [])"
proof (induction k L rule: spec_alloc.induct)
  case (1 k L)
  show ?case
  proof (cases "k < MAX_ORDER \<and> L k = []")
    case False
    then show ?thesis by (cases "L k") (auto simp: spec_alloc_cases not_less)
  next
    case True
    then have "spec_alloc k L = None \<longleftrightarrow> spec_alloc (Suc k) L = None"
      by (simp add: spec_alloc_split)
    also have "\<dots> \<longleftrightarrow> (\<forall>j. Suc k \<le> j \<longrightarrow> j < MAX_ORDER \<longrightarrow> L j = [])"
      using "1.IH" True by simp
    also have "\<dots> \<longleftrightarrow> (\<forall>j. k \<le> j \<longrightarrow> j < MAX_ORDER \<longrightarrow> L j = [])"
      using True by (metis Suc_leI le_eq_less_or_eq Suc_leD)
    finally show ?thesis .
  qed
qed

subsection \<open>Deallocation\<close>

lemma spec_dealloc_push:
  "k < MAX_ORDER - 1 \<longrightarrow> buddy_page p k \<notin> set (L k) \<Longrightarrow> spec_dealloc p k L = L(k := p # L k)"
  by (simp add: spec_dealloc.simps [of p k])

lemma spec_dealloc_merge:
  "k < MAX_ORDER - 1 \<Longrightarrow> buddy_page p k \<in> set (L k) \<Longrightarrow> spec_dealloc p k L =
     spec_dealloc (min p (buddy_page p k)) (Suc k) (L(k := remove1 (buddy_page p k) (L k)))"
  by (simp add: spec_dealloc.simps [of p k])

lemma valid_block_parent:
  assumes "valid_block p k" "valid_block (buddy_page p k) k" "k < MAX_ORDER - 1"
  shows "valid_block (min p (buddy_page p k)) (Suc k)"
proof -
  have al: "2 ^ k dvd p" using assms(1) by (simp add: valid_block_def)
  have "min p (buddy_page p k) + 2 ^ Suc k \<le> MAX_PAGES"
    using assms(1,2) buddy_page_aligned [OF al] al
    by (auto simp: valid_block_def min_def dest: dvd_imp_le)
  then show ?thesis
    using min_buddy_aligned(1) [OF al] assms(3) by (simp add: valid_block_def)
qed

lemma spec_dealloc_correct:
  assumes "spec_inv L" "valid_block p k" "block p k \<inter> free_pages L = {}"
  shows "spec_inv (spec_dealloc p k L) \<and> free_pages (spec_dealloc p k L) = free_pages L \<union> block p k"
  using assms
proof (induction p k L rule: spec_dealloc.induct)
  case (1 p k L)
  let ?b = "buddy_page p k"
  show ?case
  proof (cases "k < MAX_ORDER - 1 \<and> ?b \<in> set (L k)")
    case False
    then have nb: "k < MAX_ORDER - 1 \<longrightarrow> ?b \<notin> set (L k)" by blast
    show ?thesis
      unfolding spec_dealloc_push [of k p L, OF nb] free_pages_push
      using spec_inv_push [OF "1.prems" nb] by blast
  next
    case True
    let ?L1 = "L(k := remove1 ?b (L k))"
    have k: "k < MAX_ORDER - 1" and mem: "?b \<in> set (L k)" using True by auto
    have ok: "blocks_ok L" using "1.prems"(1) by (simp add: spec_inv_def)
    have al: "2 ^ k dvd p" using "1.prems"(2) by (simp add: valid_block_def)
    note rm = free_pages_remove [OF ok mem] and bb = block_buddies [OF al]
    have bsub: "block ?b k \<subseteq> free_pages L" by (rule block_subset_free_pages [of ?b L k, OF mem])
    have dis: "block (min p ?b) (Suc k) \<inter> free_pages ?L1 = {}"
      unfolding rm bb(1) using "1.prems"(3) by blast
    have "valid_block (min p ?b) (Suc k)"
      by (rule valid_block_parent [OF "1.prems"(2) blocks_okD(1) [OF ok mem] k])
    then have IH: "spec_inv (spec_dealloc (min p ?b) (Suc k) ?L1) \<and>
        free_pages (spec_dealloc (min p ?b) (Suc k) ?L1) = free_pages ?L1 \<union> block (min p ?b) (Suc k)"
      using k by (intro "1.IH" [OF _ mem spec_inv_remove [OF "1.prems"(1)] _ dis]) simp_all
    have "free_pages ?L1 \<union> block (min p ?b) (Suc k) = free_pages L \<union> block p k"
      unfolding rm bb(1) using bsub by blast
    with IH show ?thesis by (simp only: spec_dealloc_merge [of k p L, OF k mem])
  qed
qed

subsection \<open>Free blocks are maximal, so the page set determines the lists\<close>

lemma covered_block:
  assumes "spec_inv L" "k < MAX_ORDER" "2 ^ k dvd q" "block q k \<subseteq> free_pages L"
  shows "\<exists>j p. k \<le> j \<and> p \<in> set (L j) \<and> block q k \<subseteq> block p j"
  using assms(2-4)
proof (induction k arbitrary: q)
  case 0
  then have "q \<in> free_pages L" using block_nonempty(2) by blast
  then show ?case by (auto simp: mem_free_pages) (auto simp: block_def)
next
  case (Suc k)
  have ok: "blocks_ok L" and mg: "merged L" using assms(1) by (simp_all add: spec_inv_def)
  have al: "2 ^ k dvd q" using Suc.prems(2) by (rule power_le_dvd) simp
  note sp = block_split [OF Suc.prems(2)]
  have wide: "block q (Suc k) \<subseteq> block p j"
    if "Suc k \<le> j" "p \<in> set (L j)" "block q (Suc k) \<inter> block p j \<noteq> {}" for p j
    using block_nested [OF Suc.prems(2) _ that(1) that(3)] blocks_okD(1) [OF ok that(2)]
    by (simp add: valid_block_def)
  from Suc.IH [of q] Suc.prems al sp obtain j1 p1
    where 1: "k \<le> j1" "p1 \<in> set (L j1)" "block q k \<subseteq> block p1 j1" by auto
  from Suc.IH [of "q + 2 ^ k"] Suc.prems al sp obtain j2 p2
    where 2: "k \<le> j2" "p2 \<in> set (L j2)" "block (q + 2 ^ k) k \<subseteq> block p2 j2" by auto
  have same: "p = r" if "block r k \<subseteq> block p k" for p r
    using that by (auto simp: block_def)
  show ?case
  proof (cases "j1 = k \<and> j2 = k")
    case True
    then have "q \<in> set (L k)" "q + 2 ^ k \<in> set (L k)" using 1 2 same by metis+
    moreover have "k < MAX_ORDER - 1" using Suc.prems(1) by linarith
    ultimately have False
      using mg buddy_page_aligned_Suc [OF Suc.prems(2)] unfolding merged_def by metis
    then show ?thesis ..
  next
    case False
    then have "Suc k \<le> j1 \<or> Suc k \<le> j2" using 1(1) 2(1) by auto
    then show ?thesis
      using wide [of j1 p1] wide [of j2 p2] 1 2 sp(1) block_nonempty(2) by blast
  qed
qed

lemma parent_not_free:
  assumes "spec_inv L" "p \<in> set (L k)" "k \<noteq> MAX_ORDER - 1"
  shows "\<not> block (min p (buddy_page p k)) (Suc k) \<subseteq> free_pages L"
proof
  assume par: "block (min p (buddy_page p k)) (Suc k) \<subseteq> free_pages L"
  have ok: "blocks_ok L" using assms(1) by (simp add: spec_inv_def)
  have v: "k < MAX_ORDER" "2 ^ k dvd p"
    using blocks_okD(1) [OF ok assms(2)] by (simp_all add: valid_block_def)
  have "Suc k < MAX_ORDER" using assms(3) v(1) by linarith
  then obtain j r where j: "Suc k \<le> j" "r \<in> set (L j)"
    and sub: "block (min p (buddy_page p k)) (Suc k) \<subseteq> block r j"
    using covered_block [OF assms(1) _ min_buddy_aligned(1) [OF v(2)] par] by blast
  have "block p k \<inter> block r j = {}"
    using j(1) by (intro blocks_okD(3) [OF ok assms(2) j(2)]) auto
  moreover have "p \<in> block r j"
    using sub block_buddies(1) [OF v(2)] block_nonempty(2) [of p k] by auto
  ultimately show False using block_nonempty(2) [of p k] by blast
qed

lemma maximal_block_free:
  assumes "spec_inv L" "k < MAX_ORDER" "2 ^ k dvd p" "block p k \<subseteq> free_pages L"
    and "k = MAX_ORDER - 1 \<or> \<not> block (min p (buddy_page p k)) (Suc k) \<subseteq> free_pages L"
  shows "p \<in> set (L k)"
proof -
  obtain j r where j: "k \<le> j" "r \<in> set (L j)" and sub: "block p k \<subseteq> block r j"
    using covered_block [OF assms(1-4)] by blast
  have ok: "blocks_ok L" using assms by (simp add: spec_inv_def)
  have v: "j < MAX_ORDER" "2 ^ j dvd r"
    using blocks_okD(1) [OF ok j(2)] by (simp_all add: valid_block_def)
  have "j = k"
  proof (rule ccontr)
    assume "j \<noteq> k"
    then have Sj: "Suc k \<le> j" using j(1) by simp
    have "p \<in> block (min p (buddy_page p k)) (Suc k)" "p \<in> block r j"
      using sub block_buddies(1) [OF assms(3)] block_nonempty(2) [of p k] by auto
    then have "block (min p (buddy_page p k)) (Suc k) \<subseteq> block r j"
      by (intro block_nested [OF min_buddy_aligned(1) [OF assms(3)] v(2) Sj]) blast
    moreover have "k \<noteq> MAX_ORDER - 1" using v(1) Sj by linarith
    ultimately show False
      using assms(5) block_subset_free_pages [of r L j, OF j(2)] by blast
  qed
  with sub have "p = r" by (auto simp: block_def)
  with j \<open>j = k\<close> show ?thesis by simp
qed

lemma free_block_maximal:
  assumes "spec_inv L"
  shows "p \<in> set (L k) \<longleftrightarrow> k < MAX_ORDER \<and> 2 ^ k dvd p \<and> block p k \<subseteq> free_pages L \<and>
    (k = MAX_ORDER - 1 \<or> \<not> block (min p (buddy_page p k)) (Suc k) \<subseteq> free_pages L)"
proof
  assume mem: "p \<in> set (L k)"
  then have "valid_block p k" using assms by (simp add: spec_inv_def blocks_ok_def)
  then have "k < MAX_ORDER" "2 ^ k dvd p" by (simp_all add: valid_block_def)
  then show "k < MAX_ORDER \<and> 2 ^ k dvd p \<and> block p k \<subseteq> free_pages L \<and>
      (k = MAX_ORDER - 1 \<or> \<not> block (min p (buddy_page p k)) (Suc k) \<subseteq> free_pages L)"
    using block_subset_free_pages [of p L k, OF mem] parent_not_free [OF assms mem] by blast
qed (intro maximal_block_free [OF assms], simp_all)

lemma free_pages_determine:
  assumes "spec_inv L" "spec_inv L'" "free_pages L = free_pages L'"
  shows "set (L k) = set (L' k)"
  unfolding set_eq_iff free_block_maximal [OF assms(1)] free_block_maximal [OF assms(2)] assms(3)
  by blast

lemma spec_alloc_complete:
  assumes "spec_inv L" "k < MAX_ORDER"
  shows "spec_alloc k L \<noteq> None \<longleftrightarrow> (\<exists>q. 2 ^ k dvd q \<and> block q k \<subseteq> free_pages L)"
proof
  assume "spec_alloc k L \<noteq> None"
  then obtain p L' where "spec_alloc k L = Some (p, L')" by auto
  then show "\<exists>q. 2 ^ k dvd q \<and> block q k \<subseteq> free_pages L"
    using spec_alloc_correct [OF assms(1)] by (auto simp: valid_block_def)
next
  assume "\<exists>q. 2 ^ k dvd q \<and> block q k \<subseteq> free_pages L"
  then obtain j p where j: "k \<le> j" "p \<in> set (L j)"
    using covered_block [OF assms] by blast
  then have "j < MAX_ORDER"
    using assms(1) by (auto simp: spec_inv_def valid_block_def dest: blocks_okD(1))
  with j show "spec_alloc k L \<noteq> None" by (auto simp: spec_alloc_None)
qed

lemma spec_alloc_dealloc:
  assumes "spec_inv L" "spec_alloc k L = Some (p, L')"
  shows "set (spec_dealloc p k L' j) = set (L j)"
proof -
  note a = spec_alloc_correct [OF assms]
  then have "spec_inv (spec_dealloc p k L') \<and>
      free_pages (spec_dealloc p k L') = free_pages L' \<union> block p k"
    by (intro spec_dealloc_correct) auto
  with a show ?thesis by (intro free_pages_determine [OF _ assms(1)]) auto
qed

end
