(* ===== verification/Buddy.thy ===== *)
theory Buddy
  imports Buddy_Spec
begin

text \<open>
  The physical frame allocator of \<^verbatim>\<open>kernel/src/mm/buddy.rs\<close>, statement by statement:
  free lists threaded through the free frames themselves by \<open>next\<close> and \<open>prev\<close>
  pointers, and one bit per pair of buddies. Addresses are \<open>u64\<close>; orders, page indices
  and bit indices are \<open>nat\<close>, since they index arrays and are bounded by \<open>MAX_ORDER\<close> and
  \<open>MAX_PAGES\<close>. The memory behind the raw pointers is the field \<open>frames\<close>: the
  \<^verbatim>\<open>FreeFrame\<close> found at an address. The bitmap slice of \<open>BITMAP_SIZE\<close> bytes is a
  function on indices with the bounds check written out where the code indexes it.

  The refinement relation \<open>buddy_rel\<close> connects this state with the abstract lists of
  \<open>Buddy_Spec\<close>; \<open>buddy_alloc_refines\<close> and \<open>buddy_dealloc_refines\<close> show that the
  pointer and bitmap code implements the abstract operations without panicking.
\<close>

definition BITMAP_SIZE :: nat where "BITMAP_SIZE = MAX_PAGES div 8"

record free_frame =
  fnext :: "u64 option"
  fprev :: "u64 option"

record buddy =
  free_lists :: "u64 option list"
  bitmap :: "nat \<Rightarrow> u8"
  offset :: u64
  frames :: "u64 \<Rightarrow> free_frame"

definition buddy_new :: "(nat \<Rightarrow> u8) \<Rightarrow> (u64 \<Rightarrow> free_frame) \<Rightarrow> buddy" where
  "buddy_new storage mem =
     \<lparr>free_lists = replicate MAX_ORDER None, bitmap = storage, offset = 0, frames = mem\<rparr>"

definition set_offset :: "buddy \<Rightarrow> u64 \<Rightarrow> buddy" where
  "set_offset s off = s\<lparr>offset := off\<rparr>"

text \<open>The loop of \<open>get_bit_index\<close>: the first bit of an order's part of the bitmap.\<close>

fun bit_base :: "nat \<Rightarrow> nat" where
  "bit_base 0 = 0"
| "bit_base (Suc i) = bit_base i + drop_bit (i + 1) MAX_PAGES"

definition get_bit_index :: "nat \<Rightarrow> nat \<Rightarrow> nat" where
  "get_bit_index page_idx order = bit_base order + drop_bit (order + 1) page_idx"

definition toggle_bit :: "buddy \<Rightarrow> nat \<Rightarrow> nat \<Rightarrow> (bool \<times> buddy) outcome" where
  "toggle_bit s page_idx order =
     (let bit_idx = get_bit_index page_idx order;
          byte_idx = bit_idx div 8;
          bit_offset = bit_idx mod 8
      in if byte_idx < BITMAP_SIZE
         then let b = bitmap s byte_idx XOR push_bit bit_offset 1
              in Inr (b AND push_bit bit_offset 1 \<noteq> 0, s\<lparr>bitmap := (bitmap s)(byte_idx := b)\<rparr>)
         else Inl IndexOutOfBounds)"

definition calculate_buddy_address :: "buddy \<Rightarrow> u64 \<Rightarrow> nat \<Rightarrow> u64 outcome" where
  "calculate_buddy_address s ptr order =
     and_then (u64_shl 1 order) (\<lambda>block_size.
     and_then (u64_sub ptr (offset s)) (\<lambda>relative_addr.
     and_then (u64_mul block_size (of_nat PAGE_SIZE)) (\<lambda>bytes.
     u64_add (relative_addr XOR bytes) (offset s))))"

definition push_free :: "buddy \<Rightarrow> u64 \<Rightarrow> nat \<Rightarrow> buddy outcome" where
  "push_free s ptr order =
     (if order < MAX_ORDER then
        let head = free_lists s ! order;
            mem = (frames s)(ptr := \<lparr>fnext = head, fprev = None\<rparr>);
            mem = (case head of
                     Some h \<Rightarrow> mem(h := (mem h)\<lparr>fprev := nonnull_new ptr\<rparr>)
                   | None \<Rightarrow> mem)
        in Inr (s\<lparr>frames := mem, free_lists := (free_lists s)[order := nonnull_new ptr]\<rparr>)
      else Inl IndexOutOfBounds)"

definition remove_frame :: "buddy \<Rightarrow> u64 \<Rightarrow> nat \<Rightarrow> buddy outcome" where
  "remove_frame s ptr order =
     and_then
       (case fprev (frames s ptr) of
          Some prev \<Rightarrow>
            Inr (s\<lparr>frames := (frames s)(prev := (frames s prev)\<lparr>fnext := fnext (frames s ptr)\<rparr>)\<rparr>)
        | None \<Rightarrow>
            if order < MAX_ORDER
            then Inr (s\<lparr>free_lists := (free_lists s)[order := fnext (frames s ptr)]\<rparr>)
            else Inl IndexOutOfBounds)
       (\<lambda>s. let mem = frames s;
                mem = (case fnext (mem ptr) of
                         Some nxt \<Rightarrow> mem(nxt := (mem nxt)\<lparr>fprev := fprev (mem ptr)\<rparr>)
                       | None \<Rightarrow> mem)
            in Inr (s\<lparr>frames := mem(ptr := \<lparr>fnext = None, fprev = None\<rparr>)\<rparr>))"

definition page_idx_of :: "buddy \<Rightarrow> u64 \<Rightarrow> nat outcome" where
  "page_idx_of s ptr = and_then (u64_sub ptr (offset s)) (\<lambda>rel. Inr (unat rel div PAGE_SIZE))"

function buddy_alloc :: "buddy \<Rightarrow> nat \<Rightarrow> (u64 option \<times> buddy) outcome" where
  "buddy_alloc s order =
     (if order \<ge> MAX_ORDER then Inr (None, s)
      else case free_lists s ! order of
        Some frame_ptr \<Rightarrow>
          and_then (remove_frame s frame_ptr order) (\<lambda>s.
          if order < MAX_ORDER - 1 then
            and_then (page_idx_of s frame_ptr) (\<lambda>page_idx.
            and_then (toggle_bit s page_idx order) (\<lambda>(_, s).
            Inr (Some frame_ptr, s)))
          else Inr (Some frame_ptr, s))
      | None \<Rightarrow>
          and_then (buddy_alloc s (order + 1)) (\<lambda>(res, s).
          case res of
            None \<Rightarrow> Inr (None, s)
          | Some ptr \<Rightarrow>
              and_then (calculate_buddy_address s ptr order) (\<lambda>buddy_addr.
              and_then
                (if order < MAX_ORDER - 1 then
                   and_then (page_idx_of s ptr) (\<lambda>page_idx.
                   and_then (toggle_bit s page_idx order) (\<lambda>(_, s). Inr s))
                 else Inr s) (\<lambda>s.
              and_then (push_free s buddy_addr order) (\<lambda>s.
              Inr (Some ptr, s))))))"
  by pat_completeness auto
termination
  by (relation "measure (\<lambda>(s, order). MAX_ORDER - order)") auto

definition out_of_range :: "buddy \<Rightarrow> u64 \<Rightarrow> bool outcome" where
  "out_of_range s addr =
     (if addr < offset s then Inr True
      else and_then (u64_add (offset s) (of_nat (MAX_PAGES * PAGE_SIZE))) (\<lambda>end_addr.
           Inr (addr \<ge> end_addr)))"

function buddy_dealloc :: "buddy \<Rightarrow> u64 \<Rightarrow> nat \<Rightarrow> buddy outcome" where
  "buddy_dealloc s ptr order =
     and_then (out_of_range s ptr) (\<lambda>out.
     if out then Inr s
     else if order \<ge> MAX_ORDER - 1 then push_free s ptr order
     else
       and_then (page_idx_of s ptr) (\<lambda>page_idx.
       and_then (toggle_bit s page_idx order) (\<lambda>(is_now_one, s).
       if is_now_one then push_free s ptr order
       else
         and_then (calculate_buddy_address s ptr order) (\<lambda>buddy_addr.
         and_then (remove_frame s buddy_addr order) (\<lambda>s.
         buddy_dealloc s (if ptr < buddy_addr then ptr else buddy_addr) (order + 1))))))"
  by pat_completeness auto
termination
  by (relation "measure (\<lambda>(s, ptr, order). MAX_ORDER - order)") auto

declare buddy_alloc.simps [simp del] buddy_dealloc.simps [simp del]

definition add_frame :: "buddy \<Rightarrow> u64 \<Rightarrow> buddy outcome" where
  "add_frame s frame =
     and_then (out_of_range s frame) (\<lambda>out.
     if out then Inr s else buddy_dealloc s frame 0)"

text \<open>
  \<open>allocate_frame\<close> of the \<^verbatim>\<open>FrameAllocator\<close> implementation. The parameter
  \<open>phys_frame\<close> stands for \<^verbatim>\<open>PhysFrame::containing_address(PhysAddr::new(_))\<close> of the
  \<^verbatim>\<open>x86_64\<close> crate.
\<close>

definition allocate_frame :: "(u64 \<Rightarrow> 'f outcome) \<Rightarrow> buddy \<Rightarrow> ('f option \<times> buddy) outcome" where
  "allocate_frame phys_frame s =
     and_then (buddy_alloc s 0) (\<lambda>(res, s).
     case res of
       None \<Rightarrow> Inr (None, s)
     | Some ptr \<Rightarrow>
         and_then (u64_sub ptr (offset s)) (\<lambda>phys_addr.
         and_then (phys_frame phys_addr) (\<lambda>frame. Inr (Some frame, s))))"

subsection \<open>Doubly linked lists in memory\<close>

text \<open>
  \<open>dlseg h pr x as l y\<close>: following \<open>next\<close> from \<open>x\<close> visits the frames \<open>as\<close> and
  ends at \<open>y\<close>, every \<open>prev\<close> pointer leads back, the first one to \<open>pr\<close>, and \<open>l\<close> is
  the last frame visited (\<open>pr\<close> when there is none).
\<close>

fun dlseg :: "(u64 \<Rightarrow> free_frame) \<Rightarrow> u64 option \<Rightarrow> u64 option \<Rightarrow> u64 list \<Rightarrow>
    u64 option \<Rightarrow> u64 option \<Rightarrow> bool" where
  "dlseg h pr x [] l y \<longleftrightarrow> l = pr \<and> y = x"
| "dlseg h pr x (a # as) l y \<longleftrightarrow>
     x = Some a \<and> a \<noteq> 0 \<and> fprev (h a) = pr \<and> dlseg h (Some a) (fnext (h a)) as l y"

definition dlist :: "(u64 \<Rightarrow> free_frame) \<Rightarrow> u64 option \<Rightarrow> u64 list \<Rightarrow> bool" where
  "dlist h x as \<longleftrightarrow> (\<exists>l. dlseg h None x as l None)"

lemma dlseg_append:
  "dlseg h pr x (as @ bs) l y \<longleftrightarrow> (\<exists>m z. dlseg h pr x as m z \<and> dlseg h m z bs l y)"
  by (induction as arbitrary: pr x) auto

lemma dlseg_cong:
  "(\<And>a. a \<in> set as \<Longrightarrow> h a = h' a) \<Longrightarrow> dlseg h pr x as l y = dlseg h' pr x as l y"
  by (induction as arbitrary: pr x) auto

lemma dlseg_upd [simp]: "a \<notin> set as \<Longrightarrow> dlseg (h(a := v)) pr x as l y = dlseg h pr x as l y"
  by (rule dlseg_cong) auto

lemma dlseg_last: "dlseg h pr x as l y \<Longrightarrow> l = (if as = [] then pr else Some (last as))"
  by (induction as arbitrary: pr x) auto

lemma dlseg_nonnull: "dlseg h pr x as l y \<Longrightarrow> a \<in> set as \<Longrightarrow> a \<noteq> 0"
  by (induction as arbitrary: pr x) auto

lemma dlist_cong: "(\<And>a. a \<in> set as \<Longrightarrow> h a = h' a) \<Longrightarrow> dlist h x as = dlist h' x as"
  unfolding dlist_def by (simp cong: dlseg_cong)

lemma dlist_Nil [simp]: "dlist h x [] \<longleftrightarrow> x = None"
  by (auto simp: dlist_def)

lemma dlist_Cons: "dlist h x (a # as) \<Longrightarrow> x = Some a \<and> a \<noteq> 0"
  by (auto simp: dlist_def)

lemma dlist_nonnull: "dlist h x as \<Longrightarrow> a \<in> set as \<Longrightarrow> a \<noteq> 0"
  by (auto simp: dlist_def dest: dlseg_nonnull)

lemma dlseg_set_next:
  assumes "dlseg h pr x as (Some a) z" "distinct as" "as \<noteq> []"
  shows "dlseg (h(a := (h a)\<lparr>fnext := z'\<rparr>)) pr x as (Some a) z'"
proof -
  obtain bs where bs: "as = bs @ [a]"
    using assms(3) dlseg_last [OF assms(1)] by (metis append_butlast_last_id option.inject)
  then have "a \<notin> set bs" using assms(2) by simp
  with assms(1) show ?thesis by (auto simp: bs dlseg_append)
qed

lemma dlseg_set_prev:
  assumes "dlseg h pr x (a # as) l y" "a \<notin> set as"
  shows "dlseg (h(a := (h a)\<lparr>fprev := pr'\<rparr>)) pr' x (a # as) l y"
  using assms by simp

text \<open>Pushing a frame in front of a list, as \<open>push_free\<close> does.\<close>

lemma dlist_push:
  assumes "dlist h x as" "a \<notin> set as" "distinct as" "a \<noteq> 0"
  defines "h1 \<equiv> h(a := \<lparr>fnext = x, fprev = None\<rparr>)"
  shows "dlist (case x of Some b \<Rightarrow> h1(b := (h1 b)\<lparr>fprev := Some a\<rparr>) | None \<Rightarrow> h1) (Some a) (a # as)"
proof (cases as)
  case Nil
  then show ?thesis using assms(1,4) by (simp add: h1_def dlist_def)
next
  case (Cons b bs)
  then have x: "x = Some b" and ab: "a \<noteq> b" using assms(1,2) by (auto dest: dlist_Cons)
  obtain l where "dlseg h None x (b # bs) l None" using assms(1) Cons by (auto simp: dlist_def)
  then have "dlseg (h(b := (h b)\<lparr>fprev := Some a\<rparr>)) (Some a) x (b # bs) l None"
    using assms(3) Cons by (intro dlseg_set_prev) simp_all
  then show ?thesis
    using ab assms(2,3,4) Cons unfolding dlist_def h1_def x by auto
qed

text \<open>Unlinking a frame from anywhere in a list, as \<open>remove_frame\<close> does.\<close>

lemma dlist_unlink:
  assumes "dlist h x (as @ a # bs)" "distinct (as @ a # bs)"
  defines "h1 \<equiv> (case fprev (h a) of Some p \<Rightarrow> h(p := (h p)\<lparr>fnext := fnext (h a)\<rparr>) | None \<Rightarrow> h)"
  defines "x1 \<equiv> (case fprev (h a) of Some p \<Rightarrow> x | None \<Rightarrow> fnext (h a))"
  defines "h2 \<equiv> (case fnext (h1 a) of Some n \<Rightarrow> h1(n := (h1 n)\<lparr>fprev := fprev (h1 a)\<rparr>) | None \<Rightarrow> h1)"
  shows "dlist (h2(a := v)) x1 (as @ bs)"
    and "fprev (h a) = None \<longleftrightarrow> as = []"
    and "\<And>c. c \<notin> set (as @ a # bs) \<Longrightarrow> h2 c = h c"
proof -
  obtain l m where seg: "dlseg h None x as m (Some a)" "fprev (h a) = m"
      "dlseg h (Some a) (fnext (h a)) bs l None"
    using assms(1) by (auto simp: dlist_def dlseg_append)
  have m: "m = (if as = [] then None else Some (last as))" by (rule dlseg_last [OF seg(1)])
  then show pr: "fprev (h a) = None \<longleftrightarrow> as = []" using seg(2) by simp
  have h1: "h1 c = h c" if "c \<notin> set as" for c
  proof (cases "as = []")
    case True
    then show ?thesis using m seg(2) by (simp add: h1_def)
  next
    case False
    then have "c \<noteq> last as" using that last_in_set by metis
    then show ?thesis using False m seg(2) by (simp add: h1_def)
  qed
  then have h1a: "h1 a = h a" using assms(2) by simp
  have s1: "dlseg h1 None x1 as m (fnext (h a))"
  proof (cases "as = []")
    case True
    then show ?thesis using seg m by (simp add: h1_def x1_def)
  next
    case False
    then have "dlseg (h(last as := (h (last as))\<lparr>fnext := fnext (h a)\<rparr>)) None x as m (fnext (h a))"
      using dlseg_set_next [of h None x as "last as"] seg(1) assms(2) m by simp
    then show ?thesis using False m seg(2) by (simp add: h1_def x1_def)
  qed
  have s2: "dlseg h1 (Some a) (fnext (h a)) bs l None"
  proof -
    have "dlseg h1 (Some a) (fnext (h a)) bs l None = dlseg h (Some a) (fnext (h a)) bs l None"
      using assms(2) by (intro dlseg_cong h1) auto
    then show ?thesis using seg(3) by simp
  qed
  have nx: "fnext (h a) = (if bs = [] then None else Some (hd bs))"
    using seg(3) by (cases bs) auto
  have s3: "dlseg h2 None x1 as m (fnext (h a)) \<and> dlseg h2 m (fnext (h a)) bs l' None"
    if "l' = (if bs = [] then m else l)" for l'
  proof (cases bs)
    case Nil
    then show ?thesis using s1 nx that h1a by (simp add: h2_def)
  next
    case (Cons b bs')
    then have "h2 = h1(b := (h1 b)\<lparr>fprev := m\<rparr>)"
      using nx h1a seg(2) by (simp add: h2_def)
    then show ?thesis using s1 s2 Cons that assms(2) by simp
  qed
  then have "dlseg h2 None x1 (as @ bs) (if bs = [] then m else l) None"
    unfolding dlseg_append by blast
  then show "dlist (h2(a := v)) x1 (as @ bs)"
    using assms(2) by (auto simp: dlist_def)
  show "h2 c = h c" if "c \<notin> set (as @ a # bs)" for c
    using that nx h1a h1 [of c] by (cases bs) (auto simp: h2_def)
qed

subsection \<open>The bitmap\<close>

definition bitmap_bit :: "buddy \<Rightarrow> nat \<Rightarrow> bool" where
  "bitmap_bit s i = bit (bitmap s (i div 8)) (i mod 8)"

lemma MAX_PAGES_pow: "MAX_PAGES = 2 ^ 18"
  by (simp add: MAX_PAGES_def)

lemma bit_base_eq: "k \<le> 18 \<Longrightarrow> bit_base k + 2 ^ (18 - k) = 2 ^ 18"
proof (induction k)
  case (Suc k)
  have "drop_bit (k + 1) MAX_PAGES = 2 ^ (18 - Suc k)"
    using Suc.prems by (simp add: MAX_PAGES_pow drop_bit_eq_div power_diff)
  moreover have "2 ^ (18 - k) = (2 :: nat) * 2 ^ (18 - Suc k)"
    using Suc.prems by (metis Suc_diff_Suc Suc_le_lessD power_Suc)
  ultimately show ?case using Suc by simp
qed simp

lemma pair_index_bound:
  assumes "p < MAX_PAGES" "k < 18"
  shows "drop_bit (k + 1) p < 2 ^ (18 - Suc k)"
proof -
  have "(2 :: nat) ^ (18 - Suc k) * 2 ^ Suc k = MAX_PAGES"
    unfolding MAX_PAGES_pow power_add [symmetric] using assms(2) by simp
  then have "p < 2 ^ (18 - Suc k) * 2 ^ Suc k" using assms(1) by (simp only:)
  then show ?thesis by (simp add: drop_bit_eq_div div_less_iff_less_mult)
qed

lemma get_bit_index_range:
  assumes "p < MAX_PAGES" "k < 18"
  shows "bit_base k \<le> get_bit_index p k" "get_bit_index p k < bit_base (Suc k)"
proof -
  have "bit_base k + 2 ^ (18 - k) = 2 ^ 18" "bit_base (Suc k) + 2 ^ (18 - Suc k) = 2 ^ 18"
    using bit_base_eq [of k] bit_base_eq [of "Suc k"] assms(2) by (simp_all only: less_imp_le Suc_leI)
  moreover have "2 ^ (18 - k) = (2 :: nat) * 2 ^ (18 - Suc k)"
    using assms(2) by (metis Suc_diff_Suc power_Suc)
  ultimately show "get_bit_index p k < bit_base (Suc k)"
    using pair_index_bound [OF assms] unfolding get_bit_index_def by linarith
  show "bit_base k \<le> get_bit_index p k" by (simp add: get_bit_index_def)
qed

lemma bit_base_mono: "i \<le> j \<Longrightarrow> bit_base i \<le> bit_base j"
  by (induction rule: dec_induct) auto

lemma get_bit_index_bound:
  assumes "p < MAX_PAGES" "k < 18"
  shows "get_bit_index p k div 8 < BITMAP_SIZE"
proof -
  have "get_bit_index p k < 2 ^ 18"
    using get_bit_index_range(2) [OF assms] bit_base_eq [of "Suc k"] assms(2) by linarith
  then show ?thesis by (simp add: BITMAP_SIZE_def MAX_PAGES_def)
qed

text \<open>Two blocks share a bit only when they are the same block or buddies.\<close>

lemma get_bit_index_eq:
  assumes "valid_block p k" "valid_block p' k'" "get_bit_index p k = get_bit_index p' k'"
  shows "k = k'" and "p' = p \<or> p' = buddy_page p k"
proof -
  have b: "p < MAX_PAGES" "p' < MAX_PAGES" "k < 18" "k' < 18"
    using assms(1,2) by (auto simp: valid_block_def MAX_ORDER_def intro: less_le_trans [OF _ _])
       (metis add_lessD1 le_neq_implies_less less_add_same_cancel1 zero_less_numeral zero_less_power)+
  have no: False if "i < j" "get_bit_index q i = get_bit_index r j" "q < MAX_PAGES" "r < MAX_PAGES"
      "i < 18" "j < 18" for i j q r
    using get_bit_index_range(2) [OF that(3,5)] get_bit_index_range(1) [OF that(4,6)]
      bit_base_mono [of "Suc i" j] that(1,2) by linarith
  show kk: "k = k'"
    using no [of k k' p p'] no [of k' k p' p] assms(3) b by (metis nat_neq_iff)
  have al: "2 ^ k dvd p" "2 ^ k dvd p'" using assms(1,2) kk by (simp_all add: valid_block_def)
  have "p div 2 ^ Suc k = p' div 2 ^ Suc k"
    using assms(3) kk by (simp add: get_bit_index_def drop_bit_eq_div)
  then have "p div 2 ^ k div 2 = p' div 2 ^ k div 2"
    by (simp add: div_mult2_eq [symmetric] mult.commute)
  moreover obtain q where q: "p = q * 2 ^ k" using al(1) by (metis dvd_def mult.commute)
  moreover obtain q' where q': "p' = q' * 2 ^ k" using al(2) by (metis dvd_def mult.commute)
  ultimately have "q div 2 = q' div 2" by simp
  then have "q' = q \<or> q' = q XOR 1"
    unfolding xor_one_nat by (cases "even q"; cases "even q'") (auto elim!: evenE oddE)
  then show "p' = p \<or> p' = buddy_page p k"
    using buddy_page_push_bit [of k q] q q' by (auto simp: push_bit_eq_mult)
qed

lemma get_bit_index_buddy:
  assumes "2 ^ k dvd p"
  shows "get_bit_index (buddy_page p k) k = get_bit_index p k"
proof -
  obtain q where q: "p = push_bit k q"
    using assms by (metis dvd_def mult.commute push_bit_eq_mult)
  have "drop_bit (k + 1) (push_bit k r) = r div 2" for r :: nat
    by (simp add: drop_bit_eq_div push_bit_eq_mult mult.commute)
  then show ?thesis
    unfolding get_bit_index_def q buddy_page_push_bit xor_one_nat
    by (auto elim: oddE)
qed

lemma toggle_bit_ok:
  assumes "p < MAX_PAGES" "k < 18"
  defines "i \<equiv> get_bit_index p k"
  shows "\<exists>bm. toggle_bit s p k = Inr (\<not> bitmap_bit s i, s\<lparr>bitmap := bm\<rparr>) \<and>
    (\<forall>j. bitmap_bit (s\<lparr>bitmap := bm\<rparr>) j = (bitmap_bit s j \<noteq> (j = i)))"
proof -
  define b where "b = bitmap s (i div 8) XOR push_bit (i mod 8) 1"
  have bit_b: "bit b n = (bit (bitmap s (i div 8)) n \<noteq> (n = i mod 8))" if "n < 8" for n
    using that by (auto simp: b_def bit_simps)
  have "toggle_bit s p k = Inr (b AND push_bit (i mod 8) 1 \<noteq> 0,
      s\<lparr>bitmap := (bitmap s)(i div 8 := b)\<rparr>)"
    using get_bit_index_bound [OF assms(1,2)]
    by (simp add: toggle_bit_def Let_def i_def b_def)
  moreover have "(b AND push_bit (i mod 8) 1 \<noteq> 0) = (\<not> bitmap_bit s i)"
    using bit_b [of "i mod 8"] unfolding bitmap_bit_def bit_iff_and_push_bit_not_eq_0 [symmetric] by simp
  moreover have "bitmap_bit (s\<lparr>bitmap := (bitmap s)(i div 8 := b)\<rparr>) j = (bitmap_bit s j \<noteq> (j = i))" for j
  proof -
    have "j = i \<longleftrightarrow> j div 8 = i div 8 \<and> j mod 8 = i mod 8" by (metis div_mult_mod_eq)
    then show ?thesis using bit_b [of "j mod 8"] by (auto simp: bitmap_bit_def)
  qed
  ultimately show ?thesis by auto
qed

subsection \<open>Page addresses\<close>

definition page_addr :: "u64 \<Rightarrow> nat \<Rightarrow> u64" where
  "page_addr off p = off + of_nat (p * PAGE_SIZE)"

text \<open>The managed window of \<open>MAX_PAGES\<close> pages does not wrap around the address space.\<close>

definition window_ok :: "u64 \<Rightarrow> bool" where
  "window_ok off \<longleftrightarrow> unat off + MAX_PAGES * PAGE_SIZE < 2 ^ 64"

lemma unat_page_bytes: "p \<le> MAX_PAGES \<Longrightarrow> unat (of_nat (p * PAGE_SIZE) :: u64) = p * PAGE_SIZE"
  by (rule unat_of_nat_u64) (simp add: MAX_PAGES_def PAGE_SIZE_def)

lemma unat_page_addr:
  assumes "window_ok off" "p \<le> MAX_PAGES"
  shows "unat (page_addr off p) = unat off + p * PAGE_SIZE"
proof -
  have "p * PAGE_SIZE \<le> MAX_PAGES * PAGE_SIZE" using assms(2) by simp
  then have "unat off + p * PAGE_SIZE < 2 ^ 64"
    using assms(1) unfolding window_ok_def by linarith
  then show ?thesis
    using unat_add_u64 [of off "of_nat (p * PAGE_SIZE)"] unat_page_bytes [OF assms(2)]
    unfolding page_addr_def by (simp only:)
qed

lemma page_addr_inj:
  assumes "window_ok off" "p \<le> MAX_PAGES" "q \<le> MAX_PAGES" "page_addr off p = page_addr off q"
  shows "p = q"
proof -
  have "unat off + p * PAGE_SIZE = unat off + q * PAGE_SIZE"
    using assms(4) unat_page_addr [OF assms(1,2)] unat_page_addr [OF assms(1,3)] by metis
  then show ?thesis by (simp add: PAGE_SIZE_def)
qed

lemma page_addr_less:
  assumes "window_ok off" "p \<le> MAX_PAGES" "q \<le> MAX_PAGES"
  shows "page_addr off p < page_addr off q \<longleftrightarrow> p < q"
  using unat_page_addr [OF assms(1,2)] unat_page_addr [OF assms(1,3)]
  by (simp add: word_less_nat_alt PAGE_SIZE_def)

lemma page_addr_ge: "window_ok off \<Longrightarrow> p \<le> MAX_PAGES \<Longrightarrow> off \<le> page_addr off p"
  by (simp add: word_le_nat_alt unat_page_addr)

lemma page_addr_nonnull:
  "window_ok off \<Longrightarrow> p \<le> MAX_PAGES \<Longrightarrow> page_addr off p = 0 \<longleftrightarrow> off = 0 \<and> p = 0"
  using unat_page_addr [of off p] unsigned_eq_0_iff [of "page_addr off p", where ?'a = nat]
  by (auto simp: PAGE_SIZE_def page_addr_def)

lemma u64_sub_page_addr:
  assumes "window_ok off" "p \<le> MAX_PAGES"
  shows "u64_sub (page_addr off p) off = Inr (of_nat (p * PAGE_SIZE))"
  using page_addr_ge [OF assms] by (simp add: u64_sub_ok) (simp add: page_addr_def)

lemma page_idx_of_page_addr:
  assumes "window_ok (offset s)" "p \<le> MAX_PAGES"
  shows "page_idx_of s (page_addr (offset s) p) = Inr p"
  using u64_sub_page_addr [OF assms] unat_page_bytes [OF assms(2)]
  by (simp add: page_idx_of_def PAGE_SIZE_def)

lemma calculate_buddy_address_page:
  assumes "window_ok (offset s)" "p \<le> MAX_PAGES" "buddy_page p k \<le> MAX_PAGES" "k < MAX_ORDER"
  shows "calculate_buddy_address s (page_addr (offset s) p) k = Inr (page_addr (offset s) (buddy_page p k))"
proof -
  have "k < 12" using assms(4) by (simp add: MAX_ORDER_def)
  then have pow: "(2 :: nat) ^ k \<le> 2 ^ 11" by (intro power_increasing) auto
  have unat_pow: "unat (push_bit k 1 :: u64) = 2 ^ k"
    using unat_of_nat_u64 [of "2 ^ k"] pow by (simp add: push_bit_eq_mult)
  have mul: "u64_mul (push_bit k 1) (of_nat PAGE_SIZE) = Inr (of_nat (2 ^ k * PAGE_SIZE))"
    using pow unat_pow by (simp add: u64_mul_def PAGE_SIZE_def push_bit_eq_mult)
  have "of_nat (p * PAGE_SIZE) XOR of_nat (2 ^ k * PAGE_SIZE) = (of_nat (buddy_page p k * PAGE_SIZE) :: u64)"
  proof -
    have "push_bit 12 p XOR push_bit 12 (2 ^ k) = push_bit 12 (p XOR 2 ^ k)"
      by (simp only: push_bit_xor)
    then have "p * PAGE_SIZE XOR 2 ^ k * PAGE_SIZE = buddy_page p k * PAGE_SIZE"
      by (simp add: push_bit_eq_mult PAGE_SIZE_def buddy_page_def)
    then show ?thesis by (metis of_nat_xor_eq)
  qed
  moreover have "u64_add (of_nat (buddy_page p k * PAGE_SIZE)) (offset s) =
      Inr (page_addr (offset s) (buddy_page p k))"
  proof -
    have "buddy_page p k * PAGE_SIZE \<le> MAX_PAGES * PAGE_SIZE" using assms(3) by simp
    then have "unat (of_nat (buddy_page p k * PAGE_SIZE) :: u64) + unat (offset s) < 2 ^ 64"
      using assms(1) unat_page_bytes [OF assms(3)] unfolding window_ok_def by linarith
    then show ?thesis
      by (simp add: u64_add_ok page_addr_def add.commute)
  qed
  ultimately show ?thesis
    using mul u64_sub_page_addr [OF assms(1,2)] \<open>k < 12\<close>
    by (simp add: calculate_buddy_address_def u64_shl_def)
qed

lemma out_of_range_page_addr:
  assumes "window_ok (offset s)" "p < MAX_PAGES"
  shows "out_of_range s (page_addr (offset s) p) = Inr False"
proof -
  have "u64_add (offset s) (of_nat (MAX_PAGES * PAGE_SIZE)) = Inr (page_addr (offset s) MAX_PAGES)"
    using assms(1) unat_page_bytes [of MAX_PAGES]
    by (simp add: u64_add_def window_ok_def page_addr_def)
  moreover have "page_addr (offset s) p < page_addr (offset s) MAX_PAGES"
    using page_addr_less [OF assms(1), of p MAX_PAGES] assms(2) by simp
  moreover have "\<not> page_addr (offset s) p < offset s"
    using page_addr_ge [OF assms(1), of p] assms(2) by (simp add: not_less)
  ultimately show ?thesis by (simp add: out_of_range_def)
qed

subsection \<open>The refinement relation\<close>

definition lists_rel :: "buddy \<Rightarrow> flists \<Rightarrow> bool" where
  "lists_rel s L \<longleftrightarrow> length (free_lists s) = MAX_ORDER \<and>
     (\<forall>k < MAX_ORDER. dlist (frames s) (free_lists s ! k) (map (page_addr (offset s)) (L k)))"

definition bits_rel :: "buddy \<Rightarrow> flists \<Rightarrow> bool" where
  "bits_rel s L \<longleftrightarrow> (\<forall>k < MAX_ORDER - 1. \<forall>p. valid_block p k \<longrightarrow>
     bitmap_bit s (get_bit_index p k) = ((p \<in> set (L k)) \<noteq> (buddy_page p k \<in> set (L k))))"

definition buddy_rel :: "buddy \<Rightarrow> flists \<Rightarrow> bool" where
  "buddy_rel s L \<longleftrightarrow> window_ok (offset s) \<and> spec_inv L \<and> lists_rel s L \<and> bits_rel s L"

text \<open>Memory outside a set of pages is left alone.\<close>

definition untouched :: "nat set \<Rightarrow> buddy \<Rightarrow> buddy \<Rightarrow> bool" where
  "untouched P s s' \<longleftrightarrow> offset s' = offset s \<and>
     (\<forall>a. a \<notin> page_addr (offset s) ` P \<longrightarrow> frames s' a = frames s a)"

lemma untouched_refl [simp]: "untouched P s s"
  by (simp add: untouched_def)

lemma untouched_trans: "untouched P s s' \<Longrightarrow> untouched Q s' s'' \<Longrightarrow> P \<subseteq> R \<Longrightarrow> Q \<subseteq> R \<Longrightarrow> untouched R s s''"
  unfolding untouched_def by (metis (no_types, lifting) image_mono subsetD)

lemma untouched_mono: "untouched P s s' \<Longrightarrow> P \<subseteq> Q \<Longrightarrow> untouched Q s s'"
  unfolding untouched_def by blast

lemma valid_block_less: "valid_block p k \<Longrightarrow> p < MAX_PAGES"
  unfolding valid_block_def
  by (metis add_lessD1 le_neq_implies_less less_add_same_cancel1 zero_less_numeral zero_less_power)

lemma blocks_ok_start_unique:
  assumes "blocks_ok L" "p \<in> set (L j)" "p \<in> set (L k)"
  shows "j = k"
proof (rule ccontr)
  assume "j \<noteq> k"
  then have "block p j \<inter> block p k = {}"
    by (intro blocks_okD(3) [OF assms]) simp
  then show False using block_nonempty(2) by blast
qed

lemma lists_rel_bitmap [simp]: "lists_rel (s\<lparr>bitmap := bm\<rparr>) L = lists_rel s L"
  by (simp add: lists_rel_def)

lemma bits_rel_cong: "bitmap s' = bitmap s \<Longrightarrow> bits_rel s' L = bits_rel s L"
  by (simp add: bits_rel_def bitmap_bit_def)

lemma bits_rel_top:
  assumes "bits_rel s L" "MAX_ORDER - 1 \<le> k"
  shows "bits_rel s (L(k := xs))"
  using assms unfolding bits_rel_def by simp

lemma bits_rel_toggle:
  assumes "bits_rel s L" "valid_block p k"
    and tog: "\<And>j. bitmap_bit s' j = (bitmap_bit s j \<noteq> (j = get_bit_index p k))"
    and x: "x = p \<or> x = buddy_page p k" "(x \<in> set xs) \<noteq> (x \<in> set (L k))"
    and oth: "\<And>q. q \<noteq> x \<Longrightarrow> q \<in> set xs \<longleftrightarrow> q \<in> set (L k)"
  shows "bits_rel s' (L(k := xs))"
  unfolding bits_rel_def
proof (intro allI impI)
  fix j q assume j: "j < MAX_ORDER - 1" and q: "valid_block q j"
  have old: "bitmap_bit s (get_bit_index q j) = ((q \<in> set (L j)) \<noteq> (buddy_page q j \<in> set (L j)))"
    using assms(1) j q by (simp add: bits_rel_def)
  show "bitmap_bit s' (get_bit_index q j) =
      ((q \<in> set ((L(k := xs)) j)) \<noteq> (buddy_page q j \<in> set ((L(k := xs)) j)))"
  proof (cases "get_bit_index q j = get_bit_index p k")
    case True
    then have jk: "j = k" "q = p \<or> q = buddy_page p k"
      using get_bit_index_eq [OF assms(2) q] by simp_all
    then have "x = q \<or> x = buddy_page q j" using x(1) by auto
    moreover have "q \<noteq> buddy_page q j" by simp
    ultimately show ?thesis
      using tog True old oth [of q] oth [of "buddy_page q j"] x(2) jk(1) by (cases "x = q") auto
  next
    case False
    then have "j = k \<Longrightarrow> x \<noteq> q \<and> x \<noteq> buddy_page q j"
      using x(1) get_bit_index_buddy [of k p] get_bit_index_buddy [of j q] assms(2) q
      by (auto simp: valid_block_def)
    with False show ?thesis
      using tog old oth [of q] oth [of "buddy_page q j"] by (cases "j = k") auto
  qed
qed

lemma start_le: "blocks_ok L \<Longrightarrow> p \<in> set (L k) \<Longrightarrow> p \<le> MAX_PAGES"
  using valid_block_less blocks_okD(1) by (metis less_imp_le)

lemma start_addr_disjoint:
  assumes "window_ok off" "blocks_ok L" "j \<noteq> k" "q \<in> set (L j)"
  shows "page_addr off q \<notin> page_addr off ` set (L k)"
proof
  assume "page_addr off q \<in> page_addr off ` set (L k)"
  then obtain r where r: "r \<in> set (L k)" "page_addr off q = page_addr off r" by blast
  then have "q = r"
    using page_addr_inj [OF assms(1)] start_le [OF assms(2)] assms(4) by metis
  then show False using blocks_ok_start_unique [OF assms(2)] assms(3,4) r(1) by metis
qed

lemma start_addr_inj: "window_ok off \<Longrightarrow> blocks_ok L \<Longrightarrow> inj_on (page_addr off) (set (L k))"
  by (rule inj_onI) (metis page_addr_inj start_le)

lemma remove_frame_rel:
  assumes "window_ok (offset s)" "blocks_ok L" "lists_rel s L" "p \<in> set (L k)"
  shows "\<exists>s'. remove_frame s (page_addr (offset s) p) k = Inr s' \<and>
    lists_rel s' (L(k := remove1 p (L k))) \<and> bitmap s' = bitmap s \<and> untouched (set (L k)) s s'"
proof -
  let ?a = "page_addr (offset s)"
  obtain as bs where split: "L k = as @ p # bs" "p \<notin> set as"
    using split_list_first [OF assms(4)] by auto
  have rm: "remove1 p (L k) = as @ bs" using split by (simp add: remove1_append)
  have k: "k < MAX_ORDER" using blocks_okD(1) [OF assms(2,4)] by (simp add: valid_block_def)
  have inj: "inj_on ?a (set (L k))" by (rule start_addr_inj [OF assms(1,2)])
  have "dlist (frames s) (free_lists s ! k) (map ?a (L k))"
    using assms(3) k by (simp add: lists_rel_def)
  then have d: "dlist (frames s) (free_lists s ! k) (map ?a as @ ?a p # map ?a bs)"
    by (simp add: split(1))
  have dist: "distinct (map ?a as @ ?a p # map ?a bs)"
    using blocks_okD(2) [OF assms(2), of k] inj split(1)
    by (simp only: map_append [symmetric] list.map [symmetric] distinct_map)
  define h where "h = frames s"
  define h1 where "h1 = (case fprev (h (?a p)) of Some q \<Rightarrow> h(q := (h q)\<lparr>fnext := fnext (h (?a p))\<rparr>) | None \<Rightarrow> h)"
  define h2 where "h2 = (case fnext (h1 (?a p)) of Some n \<Rightarrow> h1(n := (h1 n)\<lparr>fprev := fprev (h1 (?a p))\<rparr>) | None \<Rightarrow> h1)"
  define x1 where "x1 = (case fprev (h (?a p)) of Some _ \<Rightarrow> free_lists s ! k | None \<Rightarrow> fnext (h (?a p)))"
  define s' where "s' = s\<lparr>frames := h2(?a p := \<lparr>fnext = None, fprev = None\<rparr>),
      free_lists := (free_lists s)[k := x1]\<rparr>"
  have eq: "remove_frame s (?a p) k = Inr s'"
    using k by (auto simp: remove_frame_def s'_def h2_def h1_def x1_def h_def Let_def split: option.splits)
  note un = dlist_unlink [OF d dist, folded h_def, folded h1_def x1_def, folded h2_def]
  have out: "frames s' c = frames s c" if "c \<notin> ?a ` set (L k)" for c
    using un(3) [of c] that split(1) by (auto simp: s'_def h_def)
  have "dlist (frames s') (free_lists s' ! j) (map ?a ((L(k := remove1 p (L k))) j))" if j: "j < MAX_ORDER" for j
  proof (cases "j = k")
    case True
    then show ?thesis
      using un(1) k assms(3) rm by (simp add: s'_def lists_rel_def)
  next
    case False
    have "c \<notin> ?a ` set (L k)" if "c \<in> set (map ?a (L j))" for c
      using that start_addr_disjoint [OF assms(1,2) False] by auto
    then have "dlist (frames s') (free_lists s ! j) (map ?a (L j)) = dlist (frames s) (free_lists s ! j) (map ?a (L j))"
      by (intro dlist_cong out)
    then show ?thesis using False assms(3) j by (simp add: lists_rel_def s'_def)
  qed
  then have "lists_rel s' (L(k := remove1 p (L k)))"
    using assms(3) by (simp add: lists_rel_def s'_def)
  with eq out show ?thesis by (auto simp: untouched_def s'_def)
qed

lemma push_free_rel:
  assumes "window_ok (offset s)" "blocks_ok L" "lists_rel s L" "valid_block p k"
    and "block p k \<inter> free_pages L = {}" "page_addr (offset s) p \<noteq> 0"
  shows "\<exists>s'. push_free s (page_addr (offset s) p) k = Inr s' \<and>
    lists_rel s' (L(k := p # L k)) \<and> bitmap s' = bitmap s \<and> untouched (insert p (set (L k))) s s'"
proof -
  let ?a = "page_addr (offset s)"
  have k: "k < MAX_ORDER" using assms(4) by (simp add: valid_block_def)
  have ple: "p \<le> MAX_PAGES" using valid_block_less [OF assms(4)] by simp
  have fresh: "p \<notin> set (L j)" for j
    using assms(5) block_subset_free_pages [of p L j] block_nonempty(2) by blast
  have addr_fresh: "?a p \<notin> ?a ` set (L j)" for j
    using fresh start_le [OF assms(2)] ple page_addr_inj [OF assms(1)] by blast
  have inj: "inj_on ?a (set (L k))" by (rule start_addr_inj [OF assms(1,2)])
  have dist: "distinct (map ?a (L k))"
    using blocks_okD(2) [OF assms(2), of k] inj by (simp add: distinct_map)
  define x where "x = free_lists s ! k"
  define h1 where "h1 = (frames s)(?a p := \<lparr>fnext = x, fprev = None\<rparr>)"
  define h2 where "h2 = (case x of Some b \<Rightarrow> h1(b := (h1 b)\<lparr>fprev := Some (?a p)\<rparr>) | None \<Rightarrow> h1)"
  define s' where "s' = s\<lparr>frames := h2, free_lists := (free_lists s)[k := Some (?a p)]\<rparr>"
  have eq: "push_free s (?a p) k = Inr s'"
    using k assms(6) by (simp add: push_free_def Let_def s'_def h2_def h1_def x_def split: option.split)
  have d: "dlist (frames s) x (map ?a (L k))"
    using assms(3) k by (simp add: lists_rel_def x_def)
  have pushed: "dlist h2 (Some (?a p)) (?a p # map ?a (L k))"
    using dlist_push [OF d _ dist assms(6), folded h1_def, folded h2_def] addr_fresh [of k] by simp
  have "x = None \<or> x \<in> Some ` ?a ` set (L k)"
    using d by (cases "L k") (auto dest: dlist_Cons)
  then have out: "frames s' c = frames s c" if "c \<notin> ?a ` insert p (set (L k))" for c
    using that by (auto simp: s'_def h2_def h1_def split: option.splits)
  have "dlist (frames s') (free_lists s' ! j) (map ?a ((L(k := p # L k)) j))" if j: "j < MAX_ORDER" for j
  proof (cases "j = k")
    case True
    then show ?thesis using pushed k assms(3) by (simp add: s'_def lists_rel_def)
  next
    case False
    have "c \<notin> ?a ` insert p (set (L k))" if "c \<in> set (map ?a (L j))" for c
      using that start_addr_disjoint [OF assms(1,2) False] addr_fresh [of j]
      unfolding set_map image_insert by (metis imageE insertE)
    then have "dlist (frames s') (free_lists s ! j) (map ?a (L j)) = dlist (frames s) (free_lists s ! j) (map ?a (L j))"
      by (intro dlist_cong out)
    then show ?thesis using False assms(3) j by (simp add: lists_rel_def s'_def)
  qed
  then have "lists_rel s' (L(k := p # L k))"
    using assms(3) by (simp add: lists_rel_def s'_def)
  with eq out show ?thesis by (auto simp: untouched_def s'_def)
qed

subsection \<open>Allocation refines the abstract allocation\<close>

lemma buddy_alloc_stop: "MAX_ORDER \<le> k \<Longrightarrow> buddy_alloc s k = Inr (None, s)"
  by (simp add: buddy_alloc.simps [of s k])

lemma toggle_bit_rel:
  assumes "bits_rel s L" "valid_block p k" "k < MAX_ORDER - 1"
    and "x = p \<or> x = buddy_page p k" "(x \<in> set xs) \<noteq> (x \<in> set (L k))"
    and "\<And>q. q \<noteq> x \<Longrightarrow> q \<in> set xs \<longleftrightarrow> q \<in> set (L k)"
  shows "\<exists>bm. toggle_bit s p k =
      Inr ((p \<in> set (L k)) = (buddy_page p k \<in> set (L k)), s\<lparr>bitmap := bm\<rparr>) \<and>
    bits_rel (s\<lparr>bitmap := bm\<rparr>) (L(k := xs))"
proof -
  have k: "k < 18" using assms(3) by (simp add: MAX_ORDER_def)
  obtain bm where t: "toggle_bit s p k = Inr (\<not> bitmap_bit s (get_bit_index p k), s\<lparr>bitmap := bm\<rparr>)"
      "\<And>j. bitmap_bit (s\<lparr>bitmap := bm\<rparr>) j = (bitmap_bit s j \<noteq> (j = get_bit_index p k))"
    using toggle_bit_ok [OF valid_block_less [OF assms(2)] k, of s] by blast
  have "bits_rel (s\<lparr>bitmap := bm\<rparr>) (L(k := xs))"
    by (rule bits_rel_toggle [OF assms(1,2) t(2) assms(4-6)])
  moreover have "bitmap_bit s (get_bit_index p k) = ((p \<in> set (L k)) \<noteq> (buddy_page p k \<in> set (L k)))"
    using assms(1-3) by (simp add: bits_rel_def)
  ultimately show ?thesis using t(1) by auto
qed

text \<open>Taking the head of a non-empty list.\<close>

lemma buddy_alloc_pop:
  assumes "buddy_rel s L" "k < MAX_ORDER" "L k = p # ps"
  shows "\<exists>s'. buddy_alloc s k = Inr (Some (page_addr (offset s) p), s') \<and>
    buddy_rel s' (L(k := ps)) \<and> untouched (free_pages L) s s'"
proof -
  let ?a = "page_addr (offset s)"
  have w: "window_ok (offset s)" and inv: "spec_inv L" and lr: "lists_rel s L" and br: "bits_rel s L"
    using assms(1) by (simp_all add: buddy_rel_def)
  have ok: "blocks_ok L" and mg: "merged L" using inv by (simp_all add: spec_inv_def)
  have mem: "p \<in> set (L k)" using assms(3) by simp
  note v = blocks_okD(1) [OF ok mem]
  have ps: "ps = remove1 p (L k)" "p \<notin> set ps"
    using assms(3) blocks_okD(2) [OF ok, of k] by auto
  have hd: "free_lists s ! k = Some (?a p)"
    using lr assms(2,3) by (auto simp: lists_rel_def dest!: dlist_Cons)
  obtain s1 where s1: "remove_frame s (?a p) k = Inr s1" "lists_rel s1 (L(k := ps))"
      "bitmap s1 = bitmap s" "untouched (set (L k)) s s1"
    using remove_frame_rel [OF w ok lr mem] ps(1) by auto
  have off: "offset s1 = offset s" using s1(4) by (simp add: untouched_def)
  have u: "untouched (free_pages L) s s1"
    using s1(4) block_subset_free_pages [of _ L k] block_nonempty(2)
    by (intro untouched_mono [OF s1(4)]) blast
  have inv': "spec_inv (L(k := ps))" unfolding ps(1) by (rule spec_inv_remove [OF inv])
  show ?thesis
  proof (cases "k < MAX_ORDER - 1")
    case True
    obtain bm b where t: "toggle_bit s1 p k = Inr (b, s1\<lparr>bitmap := bm\<rparr>)"
        "bits_rel (s1\<lparr>bitmap := bm\<rparr>) (L(k := ps))"
      using toggle_bit_rel [of s1 L p k p ps] br bits_rel_cong [OF s1(3)] v True ps(2) mem assms(3)
      by auto
    have "page_idx_of s1 (?a p) = Inr p"
      using page_idx_of_page_addr [of s1 p] valid_block_less [OF v] w off by simp
    then have "buddy_alloc s k = Inr (Some (?a p), s1\<lparr>bitmap := bm\<rparr>)"
      using hd s1(1) t(1) True assms(2) by (simp add: buddy_alloc.simps [of s k])
    moreover have "buddy_rel (s1\<lparr>bitmap := bm\<rparr>) (L(k := ps))"
      using w off inv' s1(2) t(2) by (simp add: buddy_rel_def)
    moreover have "untouched (free_pages L) s (s1\<lparr>bitmap := bm\<rparr>)"
      using u by (simp add: untouched_def)
    ultimately show ?thesis by blast
  next
    case False
    then have "buddy_alloc s k = Inr (Some (?a p), s1)"
      using hd s1(1) assms(2) by (simp add: buddy_alloc.simps [of s k])
    moreover have "bits_rel s1 (L(k := ps))"
      using br bits_rel_cong [OF s1(3)] bits_rel_top [of s1 L k] False by simp
    ultimately show ?thesis
      using w off inv' s1(2) u by (auto simp: buddy_rel_def)
  qed
qed

text \<open>Splitting a block of the next order.\<close>

lemma buddy_alloc_split:
  assumes "buddy_rel s L" "k < MAX_ORDER" "L k = []"
    and up: "buddy_alloc s (Suc k) = Inr (Some (page_addr (offset s) p), s1)"
    and rel: "buddy_rel s1 L1" "L1 k = []" "offset s1 = offset s"
    and blk: "valid_block p (Suc k)" "block p (Suc k) \<inter> free_pages L1 = {}"
  shows "\<exists>s'. buddy_alloc s k = Inr (Some (page_addr (offset s) p), s') \<and>
    buddy_rel s' (L1(k := buddy_page p k # L1 k)) \<and> untouched (block p (Suc k)) s1 s'"
proof -
  let ?a = "page_addr (offset s)" and ?b = "buddy_page p k"
  have w: "window_ok (offset s1)" and inv: "spec_inv L1" and lr: "lists_rel s1 L1" and br: "bits_rel s1 L1"
    using rel(1) by (simp_all add: buddy_rel_def)
  have ok: "blocks_ok L1" using inv by (simp add: spec_inv_def)
  have al: "2 ^ Suc k dvd p" and Sk: "Suc k < MAX_ORDER" using blk(1) by (simp_all add: valid_block_def)
  note b = buddy_page_aligned_Suc [OF al] and sp = block_split [OF al]
  have vp: "valid_block p k" and vb: "valid_block ?b k"
    using blk(1) power_le_dvd [OF al, of k] b by (auto simp: valid_block_def)
  have le: "p \<le> MAX_PAGES" "?b \<le> MAX_PAGES"
    using valid_block_less [OF vp] valid_block_less [OF vb] by simp_all
  have k: "k < MAX_ORDER - 1" using Sk by linarith
  have dis: "block ?b k \<inter> free_pages L1 = {}" using blk(2) sp(1) b by auto
  have emp: "free_lists s ! k = None"
    using assms(1-3) by (auto simp: buddy_rel_def lists_rel_def)
  have calc: "calculate_buddy_address s1 (?a p) k = Inr (?a ?b)"
    using calculate_buddy_address_page [OF w le assms(2)] rel(3) by simp
  have idx: "page_idx_of s1 (?a p) = Inr p"
    using page_idx_of_page_addr [OF w le(1)] rel(3) by simp
  obtain bm c where t: "toggle_bit s1 p k = Inr (c, s1\<lparr>bitmap := bm\<rparr>)"
      "bits_rel (s1\<lparr>bitmap := bm\<rparr>) (L1(k := ?b # L1 k))"
    using toggle_bit_rel [OF br vp k, of ?b "?b # L1 k"] rel(2) by auto
  have nn: "?a ?b \<noteq> 0"
    using page_addr_nonnull [OF w le(2)] b rel(3) by simp
  obtain s2 where s2: "push_free (s1\<lparr>bitmap := bm\<rparr>) (?a ?b) k = Inr s2"
      "lists_rel s2 (L1(k := ?b # L1 k))" "bitmap s2 = bm" "untouched (insert ?b (set (L1 k))) (s1\<lparr>bitmap := bm\<rparr>) s2"
    using push_free_rel [of "s1\<lparr>bitmap := bm\<rparr>" L1 ?b k] w ok lr vb dis nn rel(3) by auto
  have "buddy_alloc s k = Inr (Some (?a p), s2)"
    using emp up calc idx t(1) s2(1) k assms(2) by (simp add: buddy_alloc.simps [of s k])
  moreover have "buddy_rel s2 (L1(k := ?b # L1 k))"
  proof -
    have "spec_inv (L1(k := ?b # L1 k))"
      using rel(2) by (intro spec_inv_push [OF inv vb dis]) simp
    moreover have "bits_rel s2 (L1(k := ?b # L1 k))"
      using t(2) bits_rel_cong [of s2 "s1\<lparr>bitmap := bm\<rparr>"] s2(3) by simp
    ultimately show ?thesis
      using w s2(2,4) by (simp add: buddy_rel_def untouched_def)
  qed
  moreover have "untouched (block p (Suc k)) s1 s2"
  proof -
    have "insert ?b (set (L1 k)) \<subseteq> block p (Suc k)" using rel(2) sp(1) b by simp
    from untouched_mono [OF s2(4) this] show ?thesis by (simp add: untouched_def)
  qed
  ultimately show ?thesis by blast
qed

lemma buddy_alloc_refines:
  assumes "buddy_rel s L"
  shows "case spec_alloc k L of
      None \<Rightarrow> buddy_alloc s k = Inr (None, s)
    | Some (p, L') \<Rightarrow> \<exists>s'. buddy_alloc s k = Inr (Some (page_addr (offset s) p), s') \<and>
        buddy_rel s' L' \<and> untouched (free_pages L) s s'"
  using assms
proof (induction k L rule: spec_alloc.induct)
  case (1 k L)
  show ?case
  proof (cases "k < MAX_ORDER")
    case False
    then show ?thesis by (simp add: spec_alloc_stop buddy_alloc_stop)
  next
    case k: True
    show ?thesis
    proof (cases "L k")
      case (Cons p ps)
      show ?thesis
        using buddy_alloc_pop [OF "1.prems" k Cons] by (simp add: spec_alloc_pop [of k L, OF k Cons])
    next
      case Nil
      have emp: "free_lists s ! k = None"
        using "1.prems" k Nil by (auto simp: buddy_rel_def lists_rel_def)
      have IH: "case spec_alloc (Suc k) L of
          None \<Rightarrow> buddy_alloc s (Suc k) = Inr (None, s)
        | Some (p, L') \<Rightarrow> \<exists>s'. buddy_alloc s (Suc k) = Inr (Some (page_addr (offset s) p), s') \<and>
            buddy_rel s' L' \<and> untouched (free_pages L) s s'"
        using "1.IH" Nil k "1.prems" by simp
      show ?thesis
      proof (cases "spec_alloc (Suc k) L")
        case None
        then have "buddy_alloc s k = Inr (None, s)"
          using IH emp k by (simp add: buddy_alloc.simps [of s k])
        then show ?thesis using None by (simp add: spec_alloc_split [of k L, OF k Nil])
      next
        case (Some r)
        obtain p L1 where r: "r = (p, L1)" by (cases r)
        obtain s1 where s1: "buddy_alloc s (Suc k) = Inr (Some (page_addr (offset s) p), s1)"
            "buddy_rel s1 L1" "untouched (free_pages L) s s1"
          using IH Some r by auto
        have inv: "spec_inv L" using "1.prems" by (simp add: buddy_rel_def)
        have cor: "valid_block p (Suc k)" "block p (Suc k) \<inter> free_pages L1 = {}"
            "free_pages L = free_pages L1 \<union> block p (Suc k)"
          using spec_alloc_correct [OF inv] Some r by auto
        have L1k: "L1 k = []" using spec_alloc_lower [of "Suc k" L p L1 k] Some r Nil by simp
        have off: "offset s1 = offset s" using s1(3) by (simp add: untouched_def)
        obtain s' where s': "buddy_alloc s k = Inr (Some (page_addr (offset s) p), s')"
            "buddy_rel s' (L1(k := buddy_page p k # L1 k))" "untouched (block p (Suc k)) s1 s'"
          using buddy_alloc_split [OF "1.prems" k Nil s1(1,2) L1k off cor(1,2)] by blast
        have "untouched (free_pages L) s s'"
          by (rule untouched_trans [OF s1(3) s'(3)]) (simp_all add: cor(3))
        with s'(1,2) show ?thesis
          using Some r by (simp add: spec_alloc_split [of k L, OF k Nil])
      qed
    qed
  qed
qed

subsection \<open>Deallocation refines the abstract deallocation\<close>

lemma lists_rel_nonnull:
  assumes "lists_rel s L" "k < MAX_ORDER" "p \<in> set (L k)"
  shows "page_addr (offset s) p \<noteq> 0"
proof -
  have "dlist (frames s) (free_lists s ! k) (map (page_addr (offset s)) (L k))"
    using assms(1,2) by (simp add: lists_rel_def)
  then show ?thesis by (rule dlist_nonnull) (simp add: assms(3))
qed

text \<open>The freed block has no free buddy: it is pushed.\<close>

lemma buddy_dealloc_push:
  assumes "buddy_rel s L" "valid_block p k" "block p k \<inter> free_pages L = {}"
    and "page_addr (offset s) p \<noteq> 0"
    and nb: "k < MAX_ORDER - 1 \<longrightarrow> buddy_page p k \<notin> set (L k)"
  shows "\<exists>s'. buddy_dealloc s (page_addr (offset s) p) k = Inr s' \<and>
    buddy_rel s' (L(k := p # L k)) \<and> untouched (free_pages L \<union> block p k) s s'"
proof -
  let ?a = "page_addr (offset s)"
  have w: "window_ok (offset s)" and inv: "spec_inv L" and lr: "lists_rel s L" and br: "bits_rel s L"
    using assms(1) by (simp_all add: buddy_rel_def)
  have ok: "blocks_ok L" using inv by (simp add: spec_inv_def)
  note pl = valid_block_less [OF assms(2)]
  have fresh: "p \<notin> set (L k)"
    using assms(3) block_subset_free_pages [of p L k] block_nonempty(2) by blast
  have sub: "insert p (set (L k)) \<subseteq> free_pages L \<union> block p k"
    using block_subset_free_pages [of _ L k] block_nonempty(2) by blast
  have inv': "spec_inv (L(k := p # L k))" by (rule spec_inv_push [OF inv assms(2,3) nb])
  obtain bm where bm: "bits_rel (s\<lparr>bitmap := bm\<rparr>) (L(k := p # L k))"
    and run: "buddy_dealloc s (?a p) k = push_free (s\<lparr>bitmap := bm\<rparr>) (?a p) k"
  proof (cases "k < MAX_ORDER - 1")
    case True
    then obtain bm where "toggle_bit s p k = Inr (True, s\<lparr>bitmap := bm\<rparr>)"
        "bits_rel (s\<lparr>bitmap := bm\<rparr>) (L(k := p # L k))"
      using toggle_bit_rel [OF br assms(2) True, of p "p # L k"] fresh nb by auto
    then show thesis
      using that [of bm] True out_of_range_page_addr [OF w pl] page_idx_of_page_addr [OF w less_imp_le [OF pl]]
      by (simp add: buddy_dealloc.simps [of s "?a p" k])
  next
    case False
    then show thesis
      using that [of "bitmap s"] bits_rel_top [OF br] out_of_range_page_addr [OF w pl]
      by (simp add: buddy_dealloc.simps [of s "?a p" k])
  qed
  obtain s' where s': "push_free (s\<lparr>bitmap := bm\<rparr>) (?a p) k = Inr s'" "lists_rel s' (L(k := p # L k))"
      "bitmap s' = bm" "untouched (insert p (set (L k))) (s\<lparr>bitmap := bm\<rparr>) s'"
    using push_free_rel [of "s\<lparr>bitmap := bm\<rparr>" L p k] w ok lr assms(2-4) by auto
  have "bits_rel s' (L(k := p # L k))"
    using bm bits_rel_cong [of s' "s\<lparr>bitmap := bm\<rparr>"] s'(3) by simp
  moreover have "untouched (free_pages L \<union> block p k) s s'"
    using untouched_mono [OF s'(4) sub] by (simp add: untouched_def)
  ultimately show ?thesis
    using run s'(1,2) w inv' by (auto simp: buddy_rel_def untouched_def)
qed

text \<open>The freed block has a free buddy: the buddy is unlinked and the pair freed one order up.\<close>

lemma buddy_dealloc_merge:
  assumes "buddy_rel s L" "valid_block p k" "block p k \<inter> free_pages L = {}"
    and "k < MAX_ORDER - 1" "buddy_page p k \<in> set (L k)"
  shows "\<exists>s1. buddy_dealloc s (page_addr (offset s) p) k =
      buddy_dealloc s1 (page_addr (offset s) (min p (buddy_page p k))) (Suc k) \<and>
    buddy_rel s1 (L(k := remove1 (buddy_page p k) (L k))) \<and> untouched (free_pages L) s s1"
proof -
  let ?a = "page_addr (offset s)" and ?b = "buddy_page p k"
  have w: "window_ok (offset s)" and inv: "spec_inv L" and lr: "lists_rel s L" and br: "bits_rel s L"
    using assms(1) by (simp_all add: buddy_rel_def)
  have ok: "blocks_ok L" using inv by (simp add: spec_inv_def)
  note pl = valid_block_less [OF assms(2)]
  have bl: "?b \<le> MAX_PAGES" by (rule start_le [OF ok assms(5)])
  have fresh: "p \<notin> set (L k)"
    using assms(3) block_subset_free_pages [of p L k] block_nonempty(2) by blast
  have rm: "set (remove1 ?b (L k)) = set (L k) - {?b}"
    using blocks_okD(2) [OF ok] by simp
  obtain bm where t: "toggle_bit s p k = Inr (False, s\<lparr>bitmap := bm\<rparr>)"
      "bits_rel (s\<lparr>bitmap := bm\<rparr>) (L(k := remove1 ?b (L k)))"
    using toggle_bit_rel [OF br assms(2,4), of ?b "remove1 ?b (L k)"] fresh assms(5) rm by auto
  let ?s = "s\<lparr>bitmap := bm\<rparr>"
  obtain s1 where s1: "remove_frame ?s (?a ?b) k = Inr s1" "lists_rel s1 (L(k := remove1 ?b (L k)))"
      "bitmap s1 = bm" "untouched (set (L k)) ?s s1"
    using remove_frame_rel [of ?s L ?b k] w ok lr assms(5) by auto
  have calc: "calculate_buddy_address ?s (?a p) k = Inr (?a ?b)"
    using calculate_buddy_address_page [of ?s p k] w pl bl assms(4) by simp
  have low: "(if ?a p < ?a ?b then ?a p else ?a ?b) = ?a (min p ?b)"
    using page_addr_less [OF w, of p ?b] pl bl by (simp add: min_def)
  have "buddy_dealloc s (?a p) k = buddy_dealloc s1 (?a (min p ?b)) (Suc k)"
    using t(1) s1(1) calc low assms(4) out_of_range_page_addr [OF w pl]
      page_idx_of_page_addr [OF w less_imp_le [OF pl]]
    by (simp add: buddy_dealloc.simps [of s "?a p" k])
  moreover have "bits_rel s1 (L(k := remove1 ?b (L k)))"
    using t(2) bits_rel_cong [of s1 ?s] s1(3) by simp
  moreover have "untouched (free_pages L) s s1"
  proof -
    have "set (L k) \<subseteq> free_pages L"
      using block_subset_free_pages [of _ L k] block_nonempty(2) by blast
    from untouched_mono [OF s1(4) this] show ?thesis by (simp add: untouched_def)
  qed
  ultimately show ?thesis
    using s1(2) w spec_inv_remove [OF inv] by (auto simp: buddy_rel_def untouched_def)
qed

lemma buddy_dealloc_refines:
  assumes "buddy_rel s L" "valid_block p k" "block p k \<inter> free_pages L = {}"
    and "page_addr (offset s) p \<noteq> 0"
  shows "\<exists>s'. buddy_dealloc s (page_addr (offset s) p) k = Inr s' \<and>
    buddy_rel s' (spec_dealloc p k L) \<and> untouched (free_pages L \<union> block p k) s s'"
  using assms
proof (induction p k L arbitrary: s rule: spec_dealloc.induct)
  case (1 p k L)
  let ?b = "buddy_page p k" and ?a = "page_addr (offset s)"
  show ?case
  proof (cases "k < MAX_ORDER - 1 \<and> ?b \<in> set (L k)")
    case False
    then have nb: "k < MAX_ORDER - 1 \<longrightarrow> ?b \<notin> set (L k)" by blast
    show ?thesis
      unfolding spec_dealloc_push [of k p L, OF nb] by (rule buddy_dealloc_push [OF "1.prems" nb])
  next
    case True
    let ?L1 = "L(k := remove1 ?b (L k))"
    have k: "k < MAX_ORDER - 1" and mem: "?b \<in> set (L k)" using True by auto
    obtain s1 where s1: "buddy_dealloc s (?a p) k = buddy_dealloc s1 (?a (min p ?b)) (Suc k)"
        "buddy_rel s1 ?L1" "untouched (free_pages L) s s1"
      using buddy_dealloc_merge [OF "1.prems"(1-3) k mem] by blast
    have inv: "spec_inv L" and lr: "lists_rel s L" using "1.prems"(1) by (simp_all add: buddy_rel_def)
    have ok: "blocks_ok L" using inv by (simp add: spec_inv_def)
    have al: "2 ^ k dvd p" using "1.prems"(2) by (simp add: valid_block_def)
    note rm = free_pages_remove [OF ok mem] and bb = block_buddies [OF al]
    have bsub: "block ?b k \<subseteq> free_pages L" by (rule block_subset_free_pages [of ?b L k, OF mem])
    have dis: "block (min p ?b) (Suc k) \<inter> free_pages ?L1 = {}"
      unfolding rm bb(1) using "1.prems"(3) by blast
    have v: "valid_block (min p ?b) (Suc k)"
      by (rule valid_block_parent [OF "1.prems"(2) blocks_okD(1) [OF ok mem] k])
    have off: "offset s1 = offset s" using s1(3) by (simp add: untouched_def)
    have nn: "page_addr (offset s1) (min p ?b) \<noteq> 0"
      using "1.prems"(4) lists_rel_nonnull [OF lr _ mem] k off by (simp add: min_def)
    have nk: "\<not> MAX_ORDER - 1 \<le> k" using k by simp
    obtain s' where s': "buddy_dealloc s1 (?a (min p ?b)) (Suc k) = Inr s'"
        "buddy_rel s' (spec_dealloc (min p ?b) (Suc k) ?L1)"
        "untouched (free_pages ?L1 \<union> block (min p ?b) (Suc k)) s1 s'"
      using "1.IH" [OF nk mem s1(2) v dis nn, unfolded off] by blast
    have "untouched (free_pages L \<union> block p k) s s'"
    proof (rule untouched_trans [OF s1(3) s'(3)])
      show "free_pages ?L1 \<union> block (min p ?b) (Suc k) \<subseteq> free_pages L \<union> block p k"
        unfolding rm bb(1) using bsub by blast
    qed blast
    with s'(1,2) s1(1) show ?thesis
      by (simp add: spec_dealloc_merge [of k p L, OF k mem])
  qed
qed

end
