(* ===== verification/Buddy_Correct.thy ===== *)
theory Buddy_Correct
  imports Buddy
begin

text \<open>
  What the buddy allocator promises its callers, stated on the pointer and bitmap model: each
  operation changes the set of free pages by exactly the block it hands out or takes back,
  touches no memory outside the free pages (and the block given back), never panics, refuses a
  request only when no aligned free block exists, and keeps the free lists fully merged.
\<close>

subsection \<open>The initial state and its population\<close>

lemma buddy_rel_new:
  assumes "window_ok off"
  shows "buddy_rel (set_offset (buddy_new (\<lambda>_. 0) mem) off) (\<lambda>_. [])"
  using assms
  by (simp add: buddy_rel_def set_offset_def buddy_new_def spec_inv_empty lists_rel_def bits_rel_def
      bitmap_bit_def)

text \<open>The loop of \<^verbatim>\<open>kernel_main\<close> that hands all usable frames to the allocator.\<close>

fun add_frames :: "buddy \<Rightarrow> u64 list \<Rightarrow> buddy outcome" where
  "add_frames s [] = Inr s"
| "add_frames s (frame # rest) = and_then (add_frame s frame) (\<lambda>s. add_frames s rest)"

lemma out_of_range_beyond:
  assumes "window_ok (offset s)" "MAX_PAGES \<le> p" "unat (offset s) + p * PAGE_SIZE < 2 ^ 64"
  shows "out_of_range s (page_addr (offset s) p) = Inr True"
proof -
  have p: "p * PAGE_SIZE < 2 ^ 64" using assms(3) by linarith
  have u: "unat (page_addr (offset s) p) = unat (offset s) + p * PAGE_SIZE"
    using unat_add_u64 [of "offset s" "of_nat (p * PAGE_SIZE)"] assms(3) unat_of_nat_u64 [OF p]
    unfolding page_addr_def by (simp only:)
  have "u64_add (offset s) (of_nat (MAX_PAGES * PAGE_SIZE)) = Inr (page_addr (offset s) MAX_PAGES)"
    using assms(1) unat_page_bytes [of MAX_PAGES] by (simp add: u64_add_def window_ok_def page_addr_def)
  moreover have "page_addr (offset s) MAX_PAGES \<le> page_addr (offset s) p"
    using u unat_page_addr [OF assms(1), of MAX_PAGES] assms(2) by (simp add: word_le_nat_alt)
  ultimately show ?thesis by (simp add: out_of_range_def)
qed

lemma add_frame_rel:
  assumes "buddy_rel s L" "p \<notin> free_pages L" "offset s \<noteq> 0" "unat (offset s) + p * PAGE_SIZE < 2 ^ 64"
  shows "\<exists>s' L'. add_frame s (page_addr (offset s) p) = Inr s' \<and> buddy_rel s' L' \<and> offset s' = offset s \<and>
    free_pages L' = free_pages L \<union> ({p} \<inter> {..<MAX_PAGES})"
proof (cases "p < MAX_PAGES")
  case True
  have w: "window_ok (offset s)" and inv: "spec_inv L" using assms(1) by (simp_all add: buddy_rel_def)
  have v: "valid_block p 0" using True by (simp add: valid_block_def MAX_ORDER_def)
  have b: "block p 0 = {p}" by (auto simp: block_def)
  have nz: "page_addr (offset s) p \<noteq> 0" using page_addr_nonnull [OF w] assms(3) True by simp
  have dj: "block p 0 \<inter> free_pages L = {}" using assms(2) b by simp
  obtain s' where "buddy_dealloc s (page_addr (offset s) p) 0 = Inr s'" "buddy_rel s' (spec_dealloc p 0 L)"
      "untouched (free_pages L \<union> block p 0) s s'"
    using buddy_dealloc_refines [OF assms(1) v dj nz] by blast
  then show ?thesis
    using spec_dealloc_correct [OF inv v dj] out_of_range_page_addr [OF w True] b True
    by (intro exI [of _ s'] exI [of _ "spec_dealloc p 0 L"]) (simp add: add_frame_def untouched_def)
next
  case False
  then show ?thesis
    using assms out_of_range_beyond [of s p]
    by (intro exI [of _ s] exI [of _ L]) (simp add: add_frame_def buddy_rel_def)
qed

lemma add_frames_rel:
  assumes "buddy_rel s L" "distinct ps" "set ps \<inter> free_pages L = {}" "offset s \<noteq> 0"
    "\<forall>p\<in>set ps. unat (offset s) + p * PAGE_SIZE < 2 ^ 64"
  shows "\<exists>s' L'. add_frames s (map (page_addr (offset s)) ps) = Inr s' \<and> buddy_rel s' L' \<and>
    offset s' = offset s \<and> free_pages L' = free_pages L \<union> (set ps \<inter> {..<MAX_PAGES})"
  using assms
proof (induction ps arbitrary: s L)
  case Nil
  then show ?case by auto
next
  case (Cons p ps)
  have p: "p \<notin> free_pages L" "unat (offset s) + p * PAGE_SIZE < 2 ^ 64" using Cons.prems by auto
  obtain s1 L1 where s1: "add_frame s (page_addr (offset s) p) = Inr s1" "buddy_rel s1 L1" "offset s1 = offset s"
      "free_pages L1 = free_pages L \<union> ({p} \<inter> {..<MAX_PAGES})"
    using add_frame_rel [OF Cons.prems(1) p(1) Cons.prems(4) p(2)] by blast
  have "set ps \<inter> free_pages L1 = {}" using Cons.prems(2,3) s1(4) by auto
  then obtain s2 L2 where "add_frames s1 (map (page_addr (offset s1)) ps) = Inr s2" "buddy_rel s2 L2"
      "offset s2 = offset s1" "free_pages L2 = free_pages L1 \<union> (set ps \<inter> {..<MAX_PAGES})"
    using Cons.IH [OF s1(2)] Cons.prems(2,4,5) s1(3) by auto
  with s1 show ?case by (intro exI [of _ s2] exI [of _ L2]) auto
qed

lemma spec_alloc_start: "spec_alloc k L = Some (p, L') \<Longrightarrow> \<exists>j < MAX_ORDER. p \<in> set (L j)"
proof (induction k L arbitrary: p L' rule: spec_alloc.induct)
  case (1 k L)
  have k: "k < MAX_ORDER"
    using "1.prems" spec_alloc_stop [of k L] by (cases "k < MAX_ORDER") simp_all
  show ?case
  proof (cases "L k")
    case Nil
    with 1 k show ?thesis by (auto simp: spec_alloc_split split: option.splits)
  next
    case (Cons q qs)
    with 1(2) k show ?thesis by (auto simp: spec_alloc_pop [of k L, OF k Cons])
  qed
qed

subsection \<open>Properties\<close>

text \<open>
  C6: Allocation of order \<open>k\<close> never panics. It returns \<open>None\<close> exactly when no aligned block of
  \<open>2 ^ k\<close> free pages exists (or the order is too large), leaving the state as it was; otherwise it
  returns the address of an aligned block of \<open>2 ^ k\<close> pages that were all free, after which exactly
  these pages are no longer free, the lists and the bitmap again represent the free blocks, and
  only memory in pages that were free has been written.
\<close>

theorem buddy_alloc_correct:
  assumes "buddy_rel s L"
  shows "\<exists>res s' L'. buddy_alloc s k = Inr (res, s') \<and> buddy_rel s' L' \<and> untouched (free_pages L) s s' \<and>
    (res = None \<longleftrightarrow> \<not> (k < MAX_ORDER \<and> (\<exists>q. 2 ^ k dvd q \<and> block q k \<subseteq> free_pages L))) \<and>
    (case res of
       None \<Rightarrow> s' = s \<and> L' = L
     | Some a \<Rightarrow> \<exists>p. a = page_addr (offset s) p \<and> valid_block p k \<and> block p k \<subseteq> free_pages L \<and>
         free_pages L' = free_pages L - block p k)"
proof -
  have inv: "spec_inv L" using assms by (simp add: buddy_rel_def)
  note ref = buddy_alloc_refines [OF assms, of k]
  have none: "spec_alloc k L = None \<longleftrightarrow> \<not> (k < MAX_ORDER \<and> (\<exists>q. 2 ^ k dvd q \<and> block q k \<subseteq> free_pages L))"
    using spec_alloc_complete [OF inv, of k] spec_alloc_stop [of k L] by (cases "k < MAX_ORDER") auto
  show ?thesis
  proof (cases "spec_alloc k L")
    case None
    with ref none assms show ?thesis by (intro exI [of _ None] exI [of _ s] exI [of _ L]) simp
  next
    case (Some pL)
    obtain p L' where pL: "pL = (p, L')" by fastforce
    obtain s' where s': "buddy_alloc s k = Inr (Some (page_addr (offset s) p), s')" "buddy_rel s' L'"
        "untouched (free_pages L) s s'"
      using ref Some pL by auto
    have c: "valid_block p k" "block p k \<inter> free_pages L' = {}" "free_pages L = free_pages L' \<union> block p k"
      using spec_alloc_correct [OF inv, of k p L'] Some pL by auto
    from c have "block p k \<subseteq> free_pages L" "free_pages L' = free_pages L - block p k" by auto
    with s' c(1) none Some show ?thesis
      by (intro exI [of _ "Some (page_addr (offset s) p)"] exI [of _ s'] exI [of _ L']) auto
  qed
qed

text \<open>
  C7: Giving back an aligned block of \<open>2 ^ k\<close> pages none of which is free never panics, makes
  exactly these pages free in addition, leaves no two buddies of an order below the largest free
  side by side (everything mergeable has been merged), and writes only to memory of free pages and
  of the block itself.
\<close>

theorem buddy_dealloc_correct:
  assumes "buddy_rel s L" "valid_block p k" "block p k \<inter> free_pages L = {}" "page_addr (offset s) p \<noteq> 0"
  shows "\<exists>s' L'. buddy_dealloc s (page_addr (offset s) p) k = Inr s' \<and> buddy_rel s' L' \<and> merged L' \<and>
    free_pages L' = free_pages L \<union> block p k \<and> untouched (free_pages L \<union> block p k) s s'"
  using buddy_dealloc_refines [OF assms] spec_dealloc_correct [of L p k] assms
  by (meson buddy_rel_def spec_inv_def)

text \<open>
  C18: Allocation followed by release of the block returned is the identity on the free blocks: every
  order has the same set of free blocks as before, whatever splits and merges happened in between.
\<close>

theorem buddy_alloc_dealloc_roundtrip:
  assumes "buddy_rel s L" "buddy_alloc s k = Inr (Some a, s')"
  shows "\<exists>s'' L''. buddy_dealloc s' a k = Inr s'' \<and> buddy_rel s'' L'' \<and> (\<forall>j. set (L'' j) = set (L j))"
proof -
  have inv: "spec_inv L" and w: "window_ok (offset s)" using assms(1) by (simp_all add: buddy_rel_def)
  obtain p L' where sp: "spec_alloc k L = Some (p, L')"
    using buddy_alloc_refines [OF assms(1), of k] assms(2) by (cases "spec_alloc k L") auto
  have r: "a = page_addr (offset s) p" "buddy_rel s' L'" "offset s' = offset s"
    using buddy_alloc_refines [OF assms(1), of k] assms(2) sp by (auto simp: untouched_def)
  note c = spec_alloc_correct [OF inv sp]
  have "a \<noteq> 0"
    using spec_alloc_start [OF sp] lists_rel_nonnull [of s L] assms(1) r(1) by (auto simp: buddy_rel_def)
  then have "page_addr (offset s') p \<noteq> 0" using r by simp
  then obtain s'' where "buddy_dealloc s' a k = Inr s''" "buddy_rel s'' (spec_dealloc p k L')"
    using buddy_dealloc_refines [OF r(2), of p k] c r by auto
  then show ?thesis using spec_alloc_dealloc [OF inv sp] by blast
qed

text \<open>
  Populating a fresh allocator with distinct page addresses never panics, and afterwards the free
  pages are exactly the given pages that lie in the managed window; the others are ignored.
\<close>

lemma buddy_populate_correct:
  assumes "window_ok off" "off \<noteq> 0" "distinct ps" "\<forall>p\<in>set ps. unat off + p * PAGE_SIZE < 2 ^ 64"
  shows "\<exists>s L. add_frames (set_offset (buddy_new (\<lambda>_. 0) mem) off) (map (page_addr off) ps) = Inr s \<and>
    buddy_rel s L \<and> offset s = off \<and> free_pages L = set ps \<inter> {..<MAX_PAGES}"
  using add_frames_rel [OF buddy_rel_new [OF assms(1), of mem], of ps] assms(2-4)
  by (simp add: set_offset_def)

text \<open>
  Frame allocation for page tables hands out physical frames: each one starts at the physical
  address of a page that was free, lies below the one gigabyte limit, and is no longer free; it
  fails only when no page at all is free.
\<close>

lemma buddy_allocate_frame_correct:
  assumes "buddy_rel s L" "phys_frame_laws phys_frame start_address"
  shows "\<exists>res s' L'. allocate_frame phys_frame s = Inr (res, s') \<and> buddy_rel s' L' \<and>
    (case res of
       None \<Rightarrow> free_pages L = {} \<and> s' = s
     | Some f \<Rightarrow> \<exists>p. unat (start_address f) = p * PAGE_SIZE \<and> p < MAX_PAGES \<and> p \<in> free_pages L \<and>
         free_pages L' = free_pages L - {p})"
proof -
  have inv: "spec_inv L" and w: "window_ok (offset s)" using assms(1) by (simp_all add: buddy_rel_def)
  have b: "block q 0 = {q}" for q by (auto simp: block_def)
  note ref = buddy_alloc_refines [OF assms(1), of 0]
  show ?thesis
  proof (cases "spec_alloc 0 L")
    case None
    then have "free_pages L = {}"
      using spec_alloc_complete [OF inv, of 0] by (auto simp: b MAX_ORDER_def)
    with ref None assms(1) show ?thesis
      by (intro exI [of _ None] exI [of _ s] exI [of _ L]) (simp add: allocate_frame_def)
  next
    case (Some pL)
    obtain p L' where pL: "pL = (p, L')" by fastforce
    obtain s' where s': "buddy_alloc s 0 = Inr (Some (page_addr (offset s) p), s')" "buddy_rel s' L'"
        "untouched (free_pages L) s s'"
      using ref Some pL by auto
    have c: "valid_block p 0" "p \<notin> free_pages L'" "free_pages L = free_pages L' \<union> {p}"
      using spec_alloc_correct [OF inv, of 0 p L'] Some pL b by auto
    have p: "p < MAX_PAGES" using c(1) by (simp add: valid_block_def)
    let ?a = "of_nat (p * PAGE_SIZE) :: u64"
    have sub: "u64_sub (page_addr (offset s) p) (offset s') = Inr ?a"
      using u64_sub_page_addr [OF w, of p] p s'(3) by (simp add: untouched_def)
    have ua: "unat ?a = p * PAGE_SIZE" using unat_page_bytes [of p] p by simp
    have "unat ?a < 2 ^ 52" "4096 dvd unat ?a" unfolding ua using p by (simp_all add: MAX_PAGES_def PAGE_SIZE_def)
    then obtain f where f: "phys_frame ?a = Inr f" "start_address f = ?a"
      using phys_frame_lawsD [OF assms(2)] by blast
    have run: "allocate_frame phys_frame s = Inr (Some f, s')"
      using s'(1) sub f(1) by (simp add: allocate_frame_def)
    show ?thesis
      by (intro exI [of _ "Some f"] exI [of _ s'] exI [of _ L'] conjI run s'(2))
        (use c p f(2) ua in auto)
  qed
qed

subsection \<open>A concrete allocator\<close>

text \<open>One free block of the largest order at the bottom of the window.\<close>

definition demo_buddy :: buddy where
  "demo_buddy = \<lparr>free_lists = replicate 11 None @ [Some 0x1000], bitmap = (\<lambda>_. 0), offset = 0x1000,
     frames = (\<lambda>_. \<lparr>fnext = None, fprev = None\<rparr>)\<rparr>"

definition demo_lists :: flists where
  "demo_lists = (\<lambda>k. if k = 11 then [0] else [])"

lemma demo_free_pages: "free_pages demo_lists = {..<2048}"
  by (auto simp: free_pages_def demo_lists_def block_def split: if_splits)

lemma demo_buddy_rel: "buddy_rel demo_buddy demo_lists"
proof -
  have "spec_inv demo_lists"
    by (auto simp: spec_inv_def blocks_ok_def merged_def demo_lists_def valid_block_def MAX_ORDER_def MAX_PAGES_def
        split: if_splits)
  moreover have "lists_rel demo_buddy demo_lists"
    by (auto simp: lists_rel_def demo_buddy_def demo_lists_def MAX_ORDER_def nth_append page_addr_def dlist_def)
  moreover have "bits_rel demo_buddy demo_lists"
    by (simp add: bits_rel_def demo_buddy_def demo_lists_def bitmap_bit_def MAX_ORDER_def)
  moreover have "window_ok (offset demo_buddy)"
    by (simp add: window_ok_def demo_buddy_def MAX_PAGES_def PAGE_SIZE_def)
  ultimately show ?thesis by (simp add: buddy_rel_def)
qed

lemma demo_block: "k < 11 \<Longrightarrow> block 0 k \<subseteq> free_pages demo_lists"
  using power_increasing [of k 11 "2 :: nat"] unfolding demo_free_pages by (auto simp: block_def)

theorem buddy_alloc_correct_witness:
  "\<exists>p s' L'. buddy_alloc demo_buddy 9 = Inr (Some (page_addr 0x1000 p), s') \<and> buddy_rel s' L' \<and>
    valid_block p 9 \<and> free_pages L' = {..<2048} - block p 9"
proof -
  have "2 ^ 9 dvd (0 :: nat) \<and> block 0 9 \<subseteq> free_pages demo_lists" using demo_block [of 9] by simp
  then have e: "9 < MAX_ORDER \<and> (\<exists>q. 2 ^ 9 dvd q \<and> block q 9 \<subseteq> free_pages demo_lists)"
    by (auto simp: MAX_ORDER_def)
  have off: "offset demo_buddy = 0x1000" by (simp add: demo_buddy_def)
  obtain res s' L' where r: "buddy_alloc demo_buddy 9 = Inr (res, s')" "buddy_rel s' L'"
      "res = None \<longleftrightarrow> \<not> (9 < MAX_ORDER \<and> (\<exists>q. 2 ^ 9 dvd q \<and> block q 9 \<subseteq> free_pages demo_lists))"
      "case res of
         None \<Rightarrow> s' = demo_buddy \<and> L' = demo_lists
       | Some a \<Rightarrow> \<exists>p. a = page_addr (offset demo_buddy) p \<and> valid_block p 9 \<and>
           block p 9 \<subseteq> free_pages demo_lists \<and> free_pages L' = free_pages demo_lists - block p 9"
    using buddy_alloc_correct [OF demo_buddy_rel, of 9] by blast
  from r(3) e have "res \<noteq> None" by blast
  with r(4) obtain p where "res = Some (page_addr 0x1000 p)" "valid_block p 9" "free_pages L' = {..<2048} - block p 9"
    unfolding off demo_free_pages by (cases res) auto
  with r(1,2) show ?thesis by blast
qed

theorem buddy_dealloc_correct_witness:
  "\<exists>s' L'. buddy_dealloc demo_buddy (page_addr 0x1000 2048) 3 = Inr s' \<and> buddy_rel s' L' \<and>
    free_pages L' = {..<2048} \<union> block 2048 3"
proof -
  have v: "valid_block 2048 3" "block 2048 3 \<inter> free_pages demo_lists = {}"
    unfolding demo_free_pages by (auto simp: valid_block_def MAX_ORDER_def MAX_PAGES_def block_def)
  have off: "offset demo_buddy = 0x1000" by (simp add: demo_buddy_def)
  have nz: "page_addr (offset demo_buddy) 2048 \<noteq> 0" by (simp add: off page_addr_def PAGE_SIZE_def)
  from buddy_dealloc_correct [OF demo_buddy_rel v nz] show ?thesis
    unfolding demo_free_pages off by blast
qed

theorem buddy_alloc_dealloc_roundtrip_witness:
  "\<exists>a s' s'' L''. buddy_alloc demo_buddy 9 = Inr (Some a, s') \<and> buddy_dealloc s' a 9 = Inr s'' \<and>
    buddy_rel s'' L'' \<and> (\<forall>j. set (L'' j) = set (demo_lists j))"
proof -
  have "spec_alloc 9 demo_lists \<noteq> None"
    unfolding spec_alloc_None by (auto simp: demo_lists_def MAX_ORDER_def)
  then obtain a s' where "buddy_alloc demo_buddy 9 = Inr (Some a, s')"
    using buddy_alloc_refines [OF demo_buddy_rel, of 9] by (auto split: option.splits)
  with buddy_alloc_dealloc_roundtrip [OF demo_buddy_rel this] show ?thesis by blast
qed

end
