(* ===== verification/Slub.thy ===== *)
theory Slub
  imports Prelude
begin

text \<open>
  The slab caches of \<^verbatim>\<open>kernel/src/mm/slub.rs\<close>. A slab is one page: a \<^verbatim>\<open>SlabHeader\<close> at its
  start, then object slots of one size, the free ones linked through themselves. A cache links the
  slabs that have a free slot. The memory behind the raw pointers is two typed heaps: the header
  found at a page address and the \<^verbatim>\<open>FreeObject\<close> (its \<open>next\<close> pointer) found at a slot address;
  headers and slots never overlap, since every slot starts at least 24 bytes into its page.

  The trait \<^verbatim>\<open>PageProvider\<close> is the locale \<open>page_provider\<close>: the two operations the caches call
  and the laws they rely on. The two loops over linked slabs (the retry of \<open>alloc\<close> and the search of
  \<open>remove_slab_from_partial\<close>) take fuel; the lemmas show how much is enough.
\<close>

record slab_header =
  next_slab :: "u64 option"
  freelist :: "u64 option"
  in_use :: u64

type_synonym free_object = "u64 option"

record scache =
  partial_head :: "u64 option"
  obj_size :: u64

record slab_mem =
  headers :: "u64 \<Rightarrow> slab_header"
  objects :: "u64 \<Rightarrow> free_object"

abbreviation SLAB_PAGE :: u64 where "SLAB_PAGE \<equiv> 4096"

text \<open>\<^verbatim>\<open>mem::size_of::<SlabHeader>()\<close>: two nullable pointers and a \<^verbatim>\<open>usize\<close>.\<close>

definition header_size :: u64 where "header_size = 24"

definition scache_new :: "u64 \<Rightarrow> scache" where
  "scache_new sz = \<lparr>partial_head = None, obj_size = sz\<rparr>"

definition is_power_of_two :: "u64 \<Rightarrow> bool" where
  "is_power_of_two n \<longleftrightarrow> n \<noteq> 0 \<and> n AND (n - 1) = 0"

definition object_start_offset :: "u64 \<Rightarrow> u64 outcome" where
  "object_start_offset sz =
     (let align_mask = (if is_power_of_two sz then sz - 1 else 7)
      in and_then (u64_add header_size align_mask) (\<lambda>a. Inr (a AND NOT align_mask)))"

text \<open>The loop \<^verbatim>\<open>for i in (0..capacity).rev()\<close> that links the slots of a new slab.\<close>

fun build_freelist :: "u64 \<Rightarrow> u64 \<Rightarrow> nat \<Rightarrow> (u64 \<Rightarrow> free_object) \<Rightarrow> u64 option \<Rightarrow>
    ((u64 \<Rightarrow> free_object) \<times> u64 option) outcome" where
  "build_freelist object_start sz 0 objs next_ptr = Inr (objs, next_ptr)"
| "build_freelist object_start sz (Suc i) objs next_ptr =
     and_then (u64_mul (of_nat i) sz) (\<lambda>off.
     let ptr = object_start + off
     in build_freelist object_start sz i (objs(ptr := next_ptr)) (nonnull_new ptr))"

definition new_slab :: "('p \<Rightarrow> (u64 option \<times> 'p) outcome) \<Rightarrow> scache \<Rightarrow> slab_mem \<Rightarrow> 'p \<Rightarrow>
    (u64 option \<times> scache \<times> slab_mem \<times> 'p) outcome" where
  "new_slab alloc_page c m p =
     and_then (alloc_page p) (\<lambda>(res, p).
     case res of
       None \<Rightarrow> Inr (None, c, m, p)
     | Some page_ptr \<Rightarrow>
         and_then (object_start_offset (obj_size c)) (\<lambda>start_offset.
         if start_offset \<ge> SLAB_PAGE then Inr (None, c, m, p)
         else if obj_size c = 0 then Inl (PanicMsg ''attempt to divide by zero'')
         else
           let capacity = (SLAB_PAGE - start_offset) div obj_size c
           in if capacity = 0 then Inr (None, c, m, p)
              else and_then (build_freelist (page_ptr + start_offset) (obj_size c) (unat capacity) (objects m) None)
                (\<lambda>(objs, head).
                case head of
                  None \<Rightarrow> Inl UnwrapNone
                | Some obj_ptr \<Rightarrow>
                    let rest = objs obj_ptr;
                        next = (if rest \<noteq> None then partial_head c else None);
                        c = (if rest \<noteq> None then c\<lparr>partial_head := nonnull_new page_ptr\<rparr> else c);
                        slab = \<lparr>next_slab = next, freelist = rest, in_use = 1\<rparr>
                    in Inr (Some obj_ptr, c,
                         \<lparr>headers = (headers m)(page_ptr := slab), objects = objs\<rparr>, p))))"

fun scache_alloc :: "nat \<Rightarrow> ('p \<Rightarrow> (u64 option \<times> 'p) outcome) \<Rightarrow> scache \<Rightarrow> slab_mem \<Rightarrow> 'p \<Rightarrow>
    (u64 option \<times> scache \<times> slab_mem \<times> 'p) outcome" where
  "scache_alloc 0 alloc_page c m p = Inl OutOfFuel"
| "scache_alloc (Suc fuel) alloc_page c m p =
     (case partial_head c of
        Some slab_ptr \<Rightarrow>
          let slab = headers m slab_ptr
          in (case freelist slab of
                Some obj_ptr \<Rightarrow>
                  let slab = slab\<lparr>freelist := objects m obj_ptr\<rparr>
                  in and_then (u64_add (in_use slab) 1) (\<lambda>n.
                     let slab = slab\<lparr>in_use := n\<rparr>;
                         full = (freelist slab = None);
                         c = (if full then c\<lparr>partial_head := next_slab slab\<rparr> else c);
                         slab = (if full then slab\<lparr>next_slab := None\<rparr> else slab)
                     in Inr (Some obj_ptr, c, m\<lparr>headers := (headers m)(slab_ptr := slab)\<rparr>, p))
              | None \<Rightarrow> scache_alloc fuel alloc_page (c\<lparr>partial_head := next_slab slab\<rparr>) m p)
      | None \<Rightarrow> new_slab alloc_page c m p)"

text \<open>
  The cursor \<^verbatim>\<open>cur: &mut Option<NonNull<SlabHeader>>\<close> of the search points either at the cache's
  \<open>partial\<close> field (\<open>None\<close>) or at the \<open>next_slab\<close> field of a slab (\<open>Some\<close>).
\<close>

definition read_cursor :: "u64 option \<Rightarrow> scache \<Rightarrow> slab_mem \<Rightarrow> u64 option" where
  "read_cursor cur c m = (case cur of None \<Rightarrow> partial_head c | Some a \<Rightarrow> next_slab (headers m a))"

definition write_cursor :: "u64 option \<Rightarrow> u64 option \<Rightarrow> scache \<Rightarrow> slab_mem \<Rightarrow> scache \<times> slab_mem" where
  "write_cursor cur v c m =
     (case cur of
        None \<Rightarrow> (c\<lparr>partial_head := v\<rparr>, m)
      | Some a \<Rightarrow> (c, m\<lparr>headers := (headers m)(a := (headers m a)\<lparr>next_slab := v\<rparr>)\<rparr>))"

fun remove_from_cursor :: "nat \<Rightarrow> u64 option \<Rightarrow> scache \<Rightarrow> slab_mem \<Rightarrow> u64 \<Rightarrow> (scache \<times> slab_mem) outcome" where
  "remove_from_cursor 0 cur c m slab_ptr = Inl OutOfFuel"
| "remove_from_cursor (Suc fuel) cur c m slab_ptr =
     (case read_cursor cur c m of
        None \<Rightarrow> Inr (c, m)
      | Some node \<Rightarrow>
          if node = slab_ptr then Inr (write_cursor cur (next_slab (headers m node)) c m)
          else remove_from_cursor fuel (Some node) c m slab_ptr)"

definition remove_slab_from_partial :: "nat \<Rightarrow> scache \<Rightarrow> slab_mem \<Rightarrow> u64 \<Rightarrow> (scache \<times> slab_mem) outcome" where
  "remove_slab_from_partial fuel c m slab_ptr = remove_from_cursor fuel None c m slab_ptr"

definition page_of :: "u64 \<Rightarrow> u64" where
  "page_of ptr = ptr AND NOT (SLAB_PAGE - 1)"

definition scache_dealloc :: "nat \<Rightarrow> ('p \<Rightarrow> u64 \<Rightarrow> 'p outcome) \<Rightarrow> scache \<Rightarrow> slab_mem \<Rightarrow> 'p \<Rightarrow> u64 \<Rightarrow>
    (scache \<times> slab_mem \<times> 'p) outcome" where
  "scache_dealloc fuel free_page c m p ptr =
     (let page_ptr = page_of ptr;
          slab = headers m page_ptr;
          objs = (objects m)(ptr := freelist slab);
          slab = slab\<lparr>freelist := nonnull_new ptr\<rparr>
      in and_then (u64_sub (in_use slab) 1) (\<lambda>n.
         let slab = slab\<lparr>in_use := n\<rparr>
         in if n = 0 then
              and_then (remove_slab_from_partial fuel c
                          \<lparr>headers = (headers m)(page_ptr := slab), objects = objs\<rparr> page_ptr) (\<lambda>(c, m).
              and_then (free_page p page_ptr) (\<lambda>p. Inr (c, m, p)))
            else if objs ptr = None then
              Inr (c\<lparr>partial_head := nonnull_new page_ptr\<rparr>,
                   \<lparr>headers = (headers m)(page_ptr := slab\<lparr>next_slab := partial_head c\<rparr>), objects = objs\<rparr>, p)
            else Inr (c, \<lparr>headers = (headers m)(page_ptr := slab), objects = objs\<rparr>, p)))"

end
