(* ===== verification/Slub_Correct.thy ===== *)
theory Slub_Correct
  imports Slub
begin

text \<open>
  Correctness of the slab caches against any page provider that keeps the laws of the locale
  \<open>page_provider\<close>: an allocation returns a slot that is not in use and makes it used, a release
  makes it free again and returns the page of a slab that becomes empty, the linked lists stay
  intact, and no memory outside the pages of the cache is touched.
\<close>

subsection \<open>Slots of a slab\<close>

definition size_ok :: "u64 \<Rightarrow> bool" where
  "size_ok sz \<longleftrightarrow> sz \<in> set [16, 32, 64, 128, 256, 512, 1024, 2048]"

definition slot_offset :: "u64 \<Rightarrow> nat" where
  "slot_offset sz = round_up 24 (unat sz)"

definition slab_capacity :: "u64 \<Rightarrow> nat" where
  "slab_capacity sz = (4096 - slot_offset sz) div unat sz"

definition slot :: "u64 \<Rightarrow> u64 \<Rightarrow> nat \<Rightarrow> u64" where
  "slot sz pg i = pg + of_nat (slot_offset sz + i * unat sz)"

definition slots :: "u64 \<Rightarrow> u64 \<Rightarrow> u64 set" where
  "slots sz pg = slot sz pg ` {..<slab_capacity sz}"

definition page_ok :: "u64 \<Rightarrow> bool" where
  "page_ok pg \<longleftrightarrow> pg \<noteq> 0 \<and> 4096 dvd unat pg"

lemma size_ok_cases:
  assumes "size_ok sz"
  obtains "sz = 16" | "sz = 32" | "sz = 64" | "sz = 128" | "sz = 256" | "sz = 512" | "sz = 1024" | "sz = 2048"
  using assms by (auto simp: size_ok_def)

lemma size_facts:
  assumes "size_ok sz"
  shows "object_start_offset sz = Inr (of_nat (slot_offset sz))" "slot_offset sz < 4096" "24 \<le> slot_offset sz"
    "0 < slab_capacity sz" "0 < unat sz" "unat sz dvd slot_offset sz" "unat sz dvd 4096"
    "unat ((SLAB_PAGE - of_nat (slot_offset sz)) div sz) = slab_capacity sz"
  using assms
  by (auto elim!: size_ok_cases simp: object_start_offset_def is_power_of_two_def header_size_def u64_add_def
      slot_offset_def slab_capacity_def round_up_def)

lemma slot_end:
  assumes "i < slab_capacity sz"
  shows "slot_offset sz + i * unat sz + unat sz \<le> 4096"
proof -
  have "Suc i * unat sz \<le> slab_capacity sz * unat sz" using assms by (intro mult_le_mono1) simp
  also have "\<dots> \<le> 4096 - slot_offset sz" unfolding slab_capacity_def by (rule div_times_less_eq_dividend)
  finally have le: "Suc i * unat sz \<le> 4096 - slot_offset sz" .
  have "slot_offset sz < 4096" using assms by (cases "slot_offset sz < 4096") (auto simp: slab_capacity_def)
  with le show ?thesis by simp
qed

lemma page_room: "page_ok pg \<Longrightarrow> unat pg + 4096 \<le> 2 ^ 64"
proof -
  assume "page_ok pg"
  then obtain q where q: "unat pg = q * 4096" by (metis dvd_def mult.commute page_ok_def)
  have "unat pg < 2 ^ 64" using unsigned_less [of pg] by simp
  then have "q < 2 ^ 52" using q by simp
  then have "(q + 1) * 4096 \<le> 2 ^ 52 * 4096" by (intro mult_le_mono1) simp
  then show ?thesis using q by simp
qed

lemma unat_slot:
  assumes "size_ok sz" "page_ok pg" "i < slab_capacity sz"
  shows "unat (slot sz pg i) = unat pg + slot_offset sz + i * unat sz"
proof -
  have b: "slot_offset sz + i * unat sz < 4096"
    using slot_end [OF assms(3)] size_facts(5) [OF assms(1)] by linarith
  then have u: "unat (of_nat (slot_offset sz + i * unat sz) :: u64) = slot_offset sz + i * unat sz"
    by (intro unat_of_nat_u64) simp
  have "unat pg + unat (of_nat (slot_offset sz + i * unat sz) :: u64) < 2 ^ 64"
    using page_room [OF assms(2)] b u by linarith
  then show ?thesis unfolding slot_def by (subst unat_add_u64) (use u in simp_all)
qed

lemma unat_page_of: "unat (page_of a) = unat a div 4096 * 4096"
proof -
  have "SLAB_PAGE - 1 = mask 12" by (simp add: mask_eq_exp_minus_1)
  then show ?thesis using unat_and_not_mask [of a 12] by (simp add: page_of_def)
qed

lemma page_of_page: "page_ok pg \<Longrightarrow> page_of pg = pg"
  by (simp add: word_unat_eq_iff unat_page_of page_ok_def)

lemma page_of_slot:
  assumes "size_ok sz" "page_ok pg" "i < slab_capacity sz"
  shows "page_of (slot sz pg i) = pg"
proof -
  have b: "slot_offset sz + i * unat sz < 4096"
    using slot_end [OF assms(3)] size_facts(5) [OF assms(1)] by linarith
  obtain q where q: "unat pg = q * 4096" using assms(2) by (metis dvd_def mult.commute page_ok_def)
  have "unat (page_of (slot sz pg i)) = (q * 4096 + (slot_offset sz + i * unat sz)) div 4096 * 4096"
    unfolding unat_page_of unat_slot [OF assms] q by (simp add: add.assoc)
  also have "\<dots> = unat pg" using b q by simp
  finally show ?thesis by (simp add: word_unat_eq_iff)
qed

lemma page_of_slots: "size_ok sz \<Longrightarrow> page_ok pg \<Longrightarrow> a \<in> slots sz pg \<Longrightarrow> page_of a = pg"
  by (auto simp: slots_def page_of_slot)

lemma slot_inj:
  assumes "size_ok sz" "page_ok pg"
  shows "inj_on (slot sz pg) {..<slab_capacity sz}"
proof (rule inj_onI)
  fix i j assume ij: "i \<in> {..<slab_capacity sz}" "j \<in> {..<slab_capacity sz}" "slot sz pg i = slot sz pg j"
  then have "i * unat sz = j * unat sz"
    using unat_slot [OF assms, of i] unat_slot [OF assms, of j] by (metis add_left_cancel lessThan_iff)
  then show "i = j" using size_facts(5) [OF assms(1)] by simp
qed

lemma slot_nonnull: "size_ok sz \<Longrightarrow> page_ok pg \<Longrightarrow> i < slab_capacity sz \<Longrightarrow> slot sz pg i \<noteq> 0"
  using unat_slot [of sz pg i] size_facts(3) [of sz] by (auto simp: word_unat_eq_iff)

lemma slot_aligned:
  assumes "size_ok sz" "page_ok pg" "a \<in> slots sz pg"
  shows "unat sz dvd unat a"
proof -
  obtain i where i: "i < slab_capacity sz" "a = slot sz pg i" using assms(3) by (auto simp: slots_def)
  have "unat sz dvd unat pg"
    using size_facts(7) [OF assms(1)] assms(2) by (auto simp: page_ok_def intro: dvd_trans)
  then show ?thesis
    using unat_slot [OF assms(1,2) i(1)] size_facts(6) [OF assms(1)] i(2) by (simp add: dvd_add)
qed

subsection \<open>Building the free list of a new slab\<close>

lemma build_freelist_ok:
  assumes "size_ok sz" "page_ok pg" "n \<le> slab_capacity sz"
    "lpath objs nxt (map (slot sz pg) [n..<slab_capacity sz])"
  shows "\<exists>objs' nxt'. build_freelist (pg + of_nat (slot_offset sz)) sz n objs nxt = Inr (objs', nxt') \<and>
    lpath objs' nxt' (map (slot sz pg) [0..<slab_capacity sz]) \<and>
    (\<forall>a. a \<notin> slots sz pg \<longrightarrow> objs' a = objs a)"
  using assms(3,4)
proof (induction n arbitrary: objs nxt)
  case 0
  then show ?case by simp
next
  case (Suc i)
  have i: "i < slab_capacity sz" using Suc.prems(1) by simp
  have pos: "0 < unat sz" by (rule size_facts(5) [OF assms(1)])
  then have le: "i \<le> i * unat sz" by simp
  have b1: "i * unat sz < 4096" using slot_end [OF i] pos by linarith
  have b2: "i < 2 ^ 64" by (rule le_less_trans [OF le], rule less_trans [OF b1]) simp
  have ui: "unat (of_nat i :: u64) = i" using b2 by (rule unat_of_nat_u64)
  have mul: "u64_mul (of_nat i) sz = Inr (of_nat i * sz)" using b1 by (simp add: u64_mul_def ui)
  have p: "pg + of_nat (slot_offset sz) + of_nat i * sz = slot sz pg i"
    by (simp add: slot_def add.assoc)
  let ?objs = "objs(slot sz pg i := nxt)"
  have "slot sz pg i \<notin> set (map (slot sz pg) [Suc i..<slab_capacity sz])"
  proof
    assume "slot sz pg i \<in> set (map (slot sz pg) [Suc i..<slab_capacity sz])"
    then obtain j where j: "i < j" "j < slab_capacity sz" "slot sz pg i = slot sz pg j"
      by (auto simp: Suc_le_eq)
    with inj_onD [OF slot_inj [OF assms(1,2)] j(3)] i show False by simp
  qed
  then have "lpath ?objs (Some (slot sz pg i)) (map (slot sz pg) [i..<slab_capacity sz])"
    using Suc.prems(2) i by (simp add: upt_conv_Cons)
  from Suc.IH [OF less_imp_le [OF i] this]
  obtain objs' nxt' where IH: "build_freelist (pg + of_nat (slot_offset sz)) sz i ?objs (Some (slot sz pg i)) = Inr (objs', nxt')"
      "lpath objs' nxt' (map (slot sz pg) [0..<slab_capacity sz])" "\<forall>a. a \<notin> slots sz pg \<longrightarrow> objs' a = ?objs a"
    by blast
  have "slot sz pg i \<in> slots sz pg" using i by (simp add: slots_def)
  with IH(3) have "\<forall>a. a \<notin> slots sz pg \<longrightarrow> objs' a = objs a" by auto
  with IH(1,2) slot_nonnull [OF assms(1,2) i] show ?case by (simp add: mul p)
qed

subsection \<open>Removal from the list of partial slabs\<close>

abbreviation slab_next :: "slab_mem \<Rightarrow> u64 \<Rightarrow> u64 option" where
  "slab_next m \<equiv> \<lambda>a. next_slab (headers m a)"

definition same_but_next :: "slab_mem \<Rightarrow> slab_mem \<Rightarrow> bool" where
  "same_but_next m m' \<longleftrightarrow> objects m' = objects m \<and>
     (\<forall>a. freelist (headers m' a) = freelist (headers m a) \<and> in_use (headers m' a) = in_use (headers m a))"

lemma remove_from_cursor_ok:
  assumes "lpath (slab_next m) (read_cursor cur c m) xs" "distinct xs" "\<forall>a\<in>set_option cur. a \<notin> set xs" "length xs < fuel"
  shows "\<exists>c' m'. remove_from_cursor fuel cur c m pg = Inr (c', m') \<and>
    lpath (slab_next m') (read_cursor cur c' m') (remove1 pg xs) \<and> same_but_next m m' \<and>
    (\<forall>a. a \<notin> set xs \<union> set_option cur \<longrightarrow> headers m' a = headers m a) \<and>
    obj_size c' = obj_size c \<and> (cur \<noteq> None \<longrightarrow> c' = c)"
  using assms
proof (induction xs arbitrary: cur fuel)
  case Nil
  then obtain f where "fuel = Suc f" by (cases fuel) auto
  with Nil show ?case by (auto simp: same_but_next_def)
next
  case (Cons y ys)
  obtain f where f: "fuel = Suc f" using Cons.prems(4) by (cases fuel) auto
  have y: "read_cursor cur c m = Some y" "lpath (slab_next m) (slab_next m y) ys" using Cons.prems(1) by auto
  show ?case
  proof (cases "y = pg")
    case True
    have run: "remove_from_cursor fuel cur c m pg = Inr (write_cursor cur (slab_next m y) c m)"
      using f y(1) True by simp
    show ?thesis
    proof (cases cur)
      case None
      with run y(2) True show ?thesis by (simp add: write_cursor_def read_cursor_def same_but_next_def)
    next
      case (Some a)
      let ?m = "m\<lparr>headers := (headers m)(a := (headers m a)\<lparr>next_slab := slab_next m y\<rparr>)\<rparr>"
      have "a \<notin> set ys" using Cons.prems(3) Some by simp
      then have "lpath (slab_next ?m) (slab_next m y) ys = lpath (slab_next m) (slab_next m y) ys"
        by (intro lpath_cong) auto
      with y(2) have "lpath (slab_next ?m) (read_cursor cur c ?m) (remove1 pg (y # ys))"
        using True Some by (simp add: read_cursor_def)
      moreover have "same_but_next m ?m" by (simp add: same_but_next_def)
      ultimately show ?thesis using run Some by (simp add: write_cursor_def)
    qed
  next
    case False
    have "length ys < f" using Cons.prems(4) f by simp
    then obtain c' m' where IH: "remove_from_cursor f (Some y) c m pg = Inr (c', m')"
        "lpath (slab_next m') (read_cursor (Some y) c' m') (remove1 pg ys)" "same_but_next m m'"
        "\<forall>a. a \<notin> set ys \<union> {y} \<longrightarrow> headers m' a = headers m a" "c' = c"
      using Cons.IH [of "Some y" f] y(2) Cons.prems(2) by (auto simp: read_cursor_def)
    have "read_cursor cur c' m' = Some y"
      using y(1) IH(4,5) Cons.prems(3) by (cases cur) (auto simp: read_cursor_def)
    with IH f y(1) False show ?thesis by (auto simp: read_cursor_def)
  qed
qed

subsection \<open>What a cache represents\<close>

text \<open>
  The pages a cache owns, the free slots of each of them in list order, and the slabs with a free
  slot in list order.
\<close>

record slab_view =
  pages :: "u64 set"
  frees :: "u64 \<Rightarrow> u64 list"
  plist :: "u64 list"

definition slab_ok :: "u64 \<Rightarrow> slab_mem \<Rightarrow> u64 list \<Rightarrow> u64 \<Rightarrow> bool" where
  "slab_ok sz m fs pg \<longleftrightarrow> lpath (objects m) (freelist (headers m pg)) fs \<and> distinct fs \<and> set fs \<subseteq> slots sz pg \<and>
     unat (in_use (headers m pg)) + length fs = slab_capacity sz \<and> 0 < unat (in_use (headers m pg))"

definition cache_rel :: "scache \<Rightarrow> slab_mem \<Rightarrow> slab_view \<Rightarrow> bool" where
  "cache_rel c m v \<longleftrightarrow> size_ok (obj_size c) \<and>
     (\<forall>pg\<in>pages v. page_ok pg \<and> slab_ok (obj_size c) m (frees v pg) pg) \<and>
     lpath (slab_next m) (partial_head c) (plist v) \<and> distinct (plist v) \<and>
     set (plist v) = {pg \<in> pages v. frees v pg \<noteq> []}"

text \<open>The slots handed out and not given back.\<close>

definition live :: "u64 \<Rightarrow> slab_view \<Rightarrow> u64 set" where
  "live sz v = (\<Union>pg\<in>pages v. slots sz pg - set (frees v pg))"

definition mem_eq_outside :: "u64 set \<Rightarrow> slab_mem \<Rightarrow> slab_mem \<Rightarrow> bool" where
  "mem_eq_outside X m m' \<longleftrightarrow> (\<forall>a. page_of a \<notin> X \<longrightarrow> headers m' a = headers m a \<and> objects m' a = objects m a)"

lemma mem_eq_outside_mono: "mem_eq_outside X m m' \<Longrightarrow> X \<subseteq> Y \<Longrightarrow> mem_eq_outside Y m m'"
  unfolding mem_eq_outside_def by blast

lemma slab_ok_cong:
  assumes "freelist (headers m' pg) = freelist (headers m pg)" "in_use (headers m' pg) = in_use (headers m pg)"
    "\<And>a. a \<in> slots sz pg \<Longrightarrow> objects m' a = objects m a"
  shows "slab_ok sz m' fs pg = slab_ok sz m fs pg"
proof (cases "set fs \<subseteq> slots sz pg")
  case True
  then have "lpath (objects m') (freelist (headers m pg)) fs = lpath (objects m) (freelist (headers m pg)) fs"
    using assms(3) by (intro lpath_cong) blast
  then show ?thesis by (simp add: slab_ok_def assms(1,2))
qed (simp add: slab_ok_def)

lemma cache_rel_frame:
  assumes "cache_rel c m v" "mem_eq_outside X m m'" "pages v \<inter> X = {}"
  shows "cache_rel c m' v"
proof -
  have sz: "size_ok (obj_size c)" and pg: "\<And>pg. pg \<in> pages v \<Longrightarrow> page_ok pg"
    using assms(1) by (auto simp: cache_rel_def)
  have eq: "headers m' a = headers m a" "objects m' a = objects m a" if "page_of a \<in> pages v" for a
    using assms(2,3) that by (auto simp: mem_eq_outside_def)
  have "slab_ok (obj_size c) m' fs p = slab_ok (obj_size c) m fs p" if p: "p \<in> pages v" for p fs
    using eq [of p] page_of_page [OF pg [OF p]] p page_of_slots [OF sz pg [OF p]] eq(2)
    by (intro slab_ok_cong) auto
  moreover have "lpath (slab_next m') (partial_head c) (plist v) = lpath (slab_next m) (partial_head c) (plist v)"
    using assms(1) eq(1) page_of_page pg by (intro lpath_cong) (auto simp: cache_rel_def)
  ultimately show ?thesis using assms(1) by (simp add: cache_rel_def)
qed

lemma cache_relD:
  assumes "cache_rel c m v" "pg \<in> pages v"
  shows "page_ok pg" "slab_ok (obj_size c) m (frees v pg) pg" "size_ok (obj_size c)"
  using assms by (auto simp: cache_rel_def)

lemma slots_disjoint: "size_ok sz \<Longrightarrow> page_ok p \<Longrightarrow> page_ok q \<Longrightarrow> p \<noteq> q \<Longrightarrow> slots sz p \<inter> slots sz q = {}"
  by (auto dest: page_of_slots)

lemma capacity_bound: "size_ok sz \<Longrightarrow> slab_capacity sz \<le> 4096"
  unfolding slab_capacity_def by (meson div_le_dividend diff_le_self order_trans)

subsection \<open>Taking a slot from a partial slab\<close>

lemma live_upd:
  assumes "cache_rel c m v" "pg \<in> pages v" "set fs \<subseteq> slots (obj_size c) pg"
  shows "live (obj_size c) (v\<lparr>frees := (frees v)(pg := fs), plist := ps\<rparr>) =
    (live (obj_size c) v - slots (obj_size c) pg) \<union> (slots (obj_size c) pg - set fs)"
proof -
  have dj: "slots (obj_size c) p \<inter> slots (obj_size c) pg = {}" if "p \<in> pages v" "p \<noteq> pg" for p
    using slots_disjoint [OF cache_relD(3)] cache_relD(1) assms(1,2) that by blast
  show ?thesis
  proof (intro set_eqI iffI)
    fix a assume "a \<in> live (obj_size c) (v\<lparr>frees := (frees v)(pg := fs), plist := ps\<rparr>)"
    then obtain p where p: "p \<in> pages v" "a \<in> slots (obj_size c) p" "a \<notin> set (((frees v)(pg := fs)) p)"
      by (auto simp: live_def)
    then show "a \<in> (live (obj_size c) v - slots (obj_size c) pg) \<union> (slots (obj_size c) pg - set fs)"
      using dj [of p] by (cases "p = pg") (auto simp: live_def)
  next
    fix a assume "a \<in> (live (obj_size c) v - slots (obj_size c) pg) \<union> (slots (obj_size c) pg - set fs)"
    then show "a \<in> live (obj_size c) (v\<lparr>frees := (frees v)(pg := fs), plist := ps\<rparr>)"
      using assms(2) by (auto simp: live_def)
  qed
qed

lemma scache_alloc_partial:
  assumes rel: "cache_rel c m v" and ps: "plist v = pg # ps"
  shows "\<exists>a c' m' v'. scache_alloc (Suc fuel) alloc_page c m p = Inr (Some a, c', m', p) \<and>
    cache_rel c' m' v' \<and> obj_size c' = obj_size c \<and> pages v' = pages v \<and>
    a \<notin> live (obj_size c) v \<and> live (obj_size c) v' = insert a (live (obj_size c) v) \<and> a \<in> slots (obj_size c) pg \<and>
    pg \<in> pages v \<and> mem_eq_outside (pages v) m m'"
proof -
  let ?sz = "obj_size c" and ?h = "headers m pg"
  have pg: "pg \<in> pages v" "frees v pg \<noteq> []" and path: "partial_head c = Some pg" "lpath (slab_next m) (next_slab ?h) ps"
    and dist: "pg \<notin> set ps" "distinct ps" and sps: "insert pg (set ps) = {q \<in> pages v. frees v q \<noteq> []}"
    using rel ps by (auto simp: cache_rel_def)
  note ok = cache_relD [OF rel pg(1)]
  obtain a fs where fs: "frees v pg = a # fs" using pg(2) by (cases "frees v pg") auto
  have s: "freelist ?h = Some a" "lpath (objects m) (objects m a) fs" "a \<notin> set fs" "distinct fs" "a \<in> slots ?sz pg"
      "set fs \<subseteq> slots ?sz pg" "unat (in_use ?h) + Suc (length fs) = slab_capacity ?sz"
    using ok(2) by (auto simp: slab_ok_def fs)
  have n: "u64_add (in_use ?h) 1 = Inr (in_use ?h + 1)" "unat (in_use ?h + 1) = unat (in_use ?h) + 1"
    using s(7) capacity_bound [OF ok(3)] by (simp_all add: u64_add_def unat_add_u64)
  define full where "full \<longleftrightarrow> objects m a = None"
  have full: "full \<longleftrightarrow> fs = []" using s(2) by (cases fs) (auto simp: full_def)
  define h where "h = (let h = ?h\<lparr>freelist := objects m a, in_use := in_use ?h + 1\<rparr>
      in if full then h\<lparr>next_slab := None\<rparr> else h)"
  define m' where "m' = m\<lparr>headers := (headers m)(pg := h)\<rparr>"
  define c' where "c' = (if full then c\<lparr>partial_head := next_slab ?h\<rparr> else c)"
  define v' where "v' = v\<lparr>frees := (frees v)(pg := fs), plist := (if full then ps else pg # ps)\<rparr>"
  have run: "scache_alloc (Suc fuel) alloc_page c m p = Inr (Some a, c', m', p)"
    using path(1) s(1) n(1) by (simp add: Let_def c'_def m'_def h_def full_def)
  have slab: "slab_ok ?sz m' (frees v' q) q" if q: "q \<in> pages v" for q
  proof (cases "q = pg")
    case True
    then show ?thesis using s n(2) by (simp add: slab_ok_def v'_def m'_def h_def Let_def)
  next
    case False
    then show ?thesis
      using slab_ok_cong [of m' q m] cache_relD(2) [OF rel q] by (simp add: v'_def m'_def)
  qed
  have nx: "lpath (slab_next m') x ps = lpath (slab_next m) x ps" for x
    using dist(1) by (intro lpath_cong) (auto simp: m'_def)
  have lst: "lpath (slab_next m') (partial_head c') (plist v')"
    using path nx by (cases full) (simp_all add: c'_def v'_def, simp add: m'_def h_def Let_def)
  have setp: "set (plist v') = {q \<in> pages v'. frees v' q \<noteq> []}"
    using sps dist(1) full by (cases full) (auto simp: v'_def)
  have crel: "cache_rel c' m' v'"
    using ok(3) slab lst setp dist cache_relD(1) [OF rel] unfolding cache_rel_def
    by (auto simp: c'_def v'_def)
  have anl: "a \<notin> live ?sz v"
    using s(5) slots_disjoint [OF ok(3) ok(1)] cache_relD(1) [OF rel] by (fastforce simp: live_def fs)
  have "live ?sz v' = (live ?sz v - slots ?sz pg) \<union> (slots ?sz pg - set fs)"
    unfolding v'_def by (rule live_upd [OF rel pg(1) s(6)])
  moreover have "live ?sz v = (live ?sz v - slots ?sz pg) \<union> (slots ?sz pg - set (a # fs))"
    using live_upd [OF rel pg(1), of "a # fs" "plist v"] s(5,6) fs by (simp add: fun_upd_idem)
  ultimately have "live ?sz v' = insert a (live ?sz v)" using s(3,5) by auto
  moreover have "mem_eq_outside (pages v) m m'"
    using pg(1) page_of_page [OF ok(1)] by (auto simp: mem_eq_outside_def m'_def)
  ultimately show ?thesis
    using run crel anl s(5) pg(1) by (intro exI [of _ a] exI [of _ c'] exI [of _ m'] exI [of _ v'])
      (simp add: c'_def v'_def)
qed

subsection \<open>A new slab\<close>

lemma new_slab_ok:
  assumes rel: "cache_rel c m v" and ps: "plist v = []" and pg: "page_ok pg" "pg \<notin> pages v"
    and page: "alloc_page p = Inr (Some pg, p')"
  shows "\<exists>a c' m' v'. new_slab alloc_page c m p = Inr (Some a, c', m', p') \<and>
    cache_rel c' m' v' \<and> obj_size c' = obj_size c \<and> pages v' = insert pg (pages v) \<and>
    a \<notin> live (obj_size c) v \<and> live (obj_size c) v' = insert a (live (obj_size c) v) \<and> a = slot (obj_size c) pg 0 \<and>
    mem_eq_outside {pg} m m'"
proof -
  let ?sz = "obj_size c"
  have sz: "size_ok ?sz" using rel by (simp add: cache_rel_def)
  note f = size_facts [OF sz]
  let ?cap = "slab_capacity ?sz" and ?off = "of_nat (slot_offset ?sz) :: u64"
  have off: "\<not> ?off \<ge> SLAB_PAGE" "?sz \<noteq> 0" "(SLAB_PAGE - ?off) div ?sz \<noteq> 0"
    using f(2,4,5,8) unat_of_nat_u64 [of "slot_offset ?sz"] by (auto simp: word_le_nat_alt)
  obtain objs hd where b: "build_freelist (pg + ?off) ?sz ?cap (objects m) None = Inr (objs, hd)"
      "lpath objs hd (map (slot ?sz pg) [0..<?cap])" "\<forall>a. a \<notin> slots ?sz pg \<longrightarrow> objs a = objects m a"
    using build_freelist_ok [OF sz pg(1), of ?cap "objects m" None] by auto
  define a where "a = slot ?sz pg 0"
  define fs where "fs = map (slot ?sz pg) [1..<?cap]"
  have l: "map (slot ?sz pg) [0..<?cap] = a # fs" using f(4) by (simp add: a_def fs_def upt_conv_Cons)
  have hd: "hd = Some a" "lpath objs (objs a) fs" using b(2) l by auto
  have "distinct (a # fs)" unfolding l [symmetric] distinct_map using slot_inj [OF sz pg(1)] by (simp add: lessThan_atLeast0)
  then have d: "a \<notin> set fs" "distinct fs" by auto
  have sl: "insert a (set fs) = slots ?sz pg"
    using arg_cong [OF l, of set] by (simp add: slots_def lessThan_atLeast0)
  have len: "Suc (length fs) = ?cap" using f(4) by (simp add: fs_def)
  define more where "more \<longleftrightarrow> objs a \<noteq> None"
  have more: "more \<longleftrightarrow> fs \<noteq> []" using hd(2) by (cases fs) (auto simp: more_def)
  have nil: "partial_head c = None" using rel ps by (simp add: cache_rel_def)
  define m' where "m' = \<lparr>headers = (headers m)(pg := \<lparr>next_slab = None, freelist = objs a, in_use = 1\<rparr>), objects = objs\<rparr>"
  define c' where "c' = (if more then c\<lparr>partial_head := Some pg\<rparr> else c)"
  define v' where "v' = \<lparr>pages = insert pg (pages v), frees = (frees v)(pg := fs), plist = (if more then [pg] else [])\<rparr>"
  have nz: "pg \<noteq> 0" using pg(1) by (simp add: page_ok_def)
  have run: "new_slab alloc_page c m p = Inr (Some a, c', m', p')"
    using page f(1,8) off b(1) hd(1) nz nil
    by (simp add: new_slab_def c'_def m'_def more_def Let_def)
  have old: "slab_ok ?sz m' (frees v q) q" if q: "q \<in> pages v" for q
  proof -
    have "q \<noteq> pg" using q pg(2) by blast
    then have "slots ?sz q \<inter> slots ?sz pg = {}" using slots_disjoint [OF sz _ pg(1)] cache_relD(1) [OF rel q] by blast
    then show ?thesis
      using slab_ok_cong [of m' q m ?sz "frees v q"] cache_relD(2) [OF rel q] b(3) \<open>q \<noteq> pg\<close>
      by (auto simp: m'_def)
  qed
  have new: "slab_ok ?sz m' fs pg"
    using hd(2) d(2) sl len by (auto simp: slab_ok_def m'_def)
  have empt: "frees v q = []" if "q \<in> pages v" for q
    using rel ps that by (auto simp: cache_rel_def)
  have "cache_rel c' m' v'"
    unfolding cache_rel_def
  proof (intro conjI)
    show "size_ok (obj_size c')" using sz by (simp add: c'_def)
    show "\<forall>q\<in>pages v'. page_ok q \<and> slab_ok (obj_size c') m' (frees v' q) q"
      using old new pg cache_relD(1) [OF rel] by (auto simp: c'_def v'_def)
    show "lpath (slab_next m') (partial_head c') (plist v')"
      using nil by (simp add: c'_def v'_def m'_def)
    show "distinct (plist v')" by (simp add: v'_def)
    show "set (plist v') = {q \<in> pages v'. frees v' q \<noteq> []}" using more empt pg(2) by (auto simp: v'_def)
  qed
  moreover have "a \<notin> live ?sz v"
  proof
    assume "a \<in> live ?sz v"
    then obtain q where q: "q \<in> pages v" "a \<in> slots ?sz q" by (auto simp: live_def)
    have "a \<in> slots ?sz pg" using sl by blast
    then have "q = pg" using page_of_slots [OF sz] cache_relD(1) [OF rel q(1)] q(2) pg(1) by blast
    with q(1) pg(2) show False by simp
  qed
  moreover have "live ?sz v' = insert a (live ?sz v)"
  proof -
    have "(\<Union>q\<in>pages v. slots ?sz q - set (((frees v)(pg := fs)) q)) = live ?sz v"
      unfolding live_def by (rule SUP_cong) (use pg(2) in auto)
    then have "live ?sz v' = (slots ?sz pg - set fs) \<union> live ?sz v"
      by (simp add: live_def v'_def)
    also have "slots ?sz pg - set fs = {a}" using sl d(1) by blast
    finally show ?thesis by simp
  qed
  moreover have "mem_eq_outside {pg} m m'"
    using b(3) page_of_page [OF pg(1)] page_of_slots [OF sz pg(1)] by (auto simp: mem_eq_outside_def m'_def)
  ultimately show ?thesis
    using run sl by (intro exI [of _ a] exI [of _ c'] exI [of _ m'] exI [of _ v']) (auto simp: c'_def v'_def a_def)
qed

subsection \<open>Giving a slot back\<close>

lemma liveE:
  assumes "cache_rel c m v" "a \<in> live (obj_size c) v"
  shows "page_of a \<in> pages v" "a \<in> slots (obj_size c) (page_of a)" "a \<notin> set (frees v (page_of a))" "a \<noteq> 0"
proof -
  obtain q where q: "q \<in> pages v" "a \<in> slots (obj_size c) q" "a \<notin> set (frees v q)"
    using assms(2) by (auto simp: live_def)
  note ok = cache_relD [OF assms(1) q(1)]
  have "page_of a = q" by (rule page_of_slots [OF ok(3,1) q(2)])
  then show "page_of a \<in> pages v" "a \<in> slots (obj_size c) (page_of a)" "a \<notin> set (frees v (page_of a))"
    using q by simp_all
  show "a \<noteq> 0" using q(2) slot_nonnull [OF ok(3,1)] by (auto simp: slots_def)
qed

text \<open>The slab keeps other slots in use: it stays, and joins the partial list if it was full.\<close>

lemma scache_dealloc_keep:
  assumes rel: "cache_rel c m v" and a: "a \<in> live (obj_size c) v" and n: "in_use (headers m (page_of a)) \<noteq> 1"
  shows "\<exists>c' m' v'. scache_dealloc fuel free_page c m p a = Inr (c', m', p) \<and>
    cache_rel c' m' v' \<and> obj_size c' = obj_size c \<and> pages v' = pages v \<and>
    live (obj_size c) v' = live (obj_size c) v - {a} \<and> mem_eq_outside (pages v) m m'"
proof -
  let ?sz = "obj_size c" and ?pg = "page_of a" and ?fs = "frees v (page_of a)"
  let ?h = "headers m ?pg"
  note la = liveE [OF rel a]
  note ok = cache_relD [OF rel la(1)]
  have s: "lpath (objects m) (freelist ?h) ?fs" "distinct ?fs" "set ?fs \<subseteq> slots ?sz ?pg"
      "unat (in_use ?h) + length ?fs = slab_capacity ?sz" "0 < unat (in_use ?h)"
    using ok(2) by (auto simp: slab_ok_def)
  have n1: "unat (in_use ?h) \<noteq> 1" using n by (simp add: word_unat_eq_iff)
  have one: "1 \<le> in_use ?h" using s(5) by (simp add: word_le_nat_alt Suc_le_eq)
  then have sub: "u64_sub (in_use ?h) 1 = Inr (in_use ?h - 1)" "unat (in_use ?h - 1) = unat (in_use ?h) - 1"
    by (simp_all add: u64_sub_def unat_sub)
  have nz: "in_use ?h - 1 \<noteq> 0" using sub(2) n1 s(5) by (auto simp: word_unat_eq_iff)
  define full where "full \<longleftrightarrow> freelist ?h = None"
  have full: "full \<longleftrightarrow> ?fs = []" using s(1) by (cases ?fs) (auto simp: full_def)
  define h where "h = (let h = ?h\<lparr>freelist := Some a, in_use := in_use ?h - 1\<rparr>
      in if full then h\<lparr>next_slab := partial_head c\<rparr> else h)"
  define m' where "m' = \<lparr>headers = (headers m)(?pg := h), objects = (objects m)(a := freelist ?h)\<rparr>"
  define c' where "c' = (if full then c\<lparr>partial_head := Some ?pg\<rparr> else c)"
  define v' where "v' = v\<lparr>frees := (frees v)(?pg := a # ?fs), plist := (if full then ?pg # plist v else plist v)\<rparr>"
  have pnz: "?pg \<noteq> 0" using ok(1) by (simp add: page_ok_def)
  have run: "scache_dealloc fuel free_page c m p a = Inr (c', m', p)"
    using sub(1) nz la(4) pnz by (simp add: scache_dealloc_def Let_def c'_def m'_def h_def full_def)
  have slab: "slab_ok ?sz m' (frees v' q) q" if q: "q \<in> pages v" for q
  proof (cases "q = ?pg")
    case True
    have "length ?fs + (unat (in_use ?h) - 1) + 1 = slab_capacity ?sz" "0 < unat (in_use ?h) - 1"
      using s(4,5) n1 by simp_all
    then show ?thesis
      using True s la sub(2) by (auto simp: slab_ok_def v'_def m'_def h_def Let_def)
  next
    case False
    then have "a \<notin> slots ?sz q"
      using la(2) slots_disjoint [OF ok(3,1) cache_relD(1) [OF rel q]] by blast
    with False have "slab_ok ?sz m' (frees v q) q = slab_ok ?sz m (frees v q) q"
      by (intro slab_ok_cong) (auto simp: m'_def)
    with False show ?thesis using cache_relD(2) [OF rel q] by (simp add: v'_def)
  qed
  have pl: "lpath (slab_next m) (partial_head c) (plist v)" "distinct (plist v)"
      "set (plist v) = {q \<in> pages v. frees v q \<noteq> []}"
    using rel by (auto simp: cache_rel_def)
  have lst: "lpath (slab_next m') (partial_head c') (plist v')"
  proof (cases full)
    case True
    then have "?pg \<notin> set (plist v)" using pl(3) full by simp
    then have "lpath (slab_next m') (partial_head c) (plist v) = lpath (slab_next m) (partial_head c) (plist v)"
      by (intro lpath_cong) (auto simp: m'_def)
    with True pl(1) show ?thesis by (simp add: c'_def v'_def, simp add: m'_def h_def Let_def)
  next
    case False
    then have "lpath (slab_next m') (partial_head c) (plist v) = lpath (slab_next m) (partial_head c) (plist v)"
      by (intro lpath_cong) (auto simp: m'_def h_def Let_def)
    with False pl(1) show ?thesis by (simp add: c'_def v'_def)
  qed
  have "distinct (plist v') \<and> set (plist v') = {q \<in> pages v'. frees v' q \<noteq> []}"
    using pl(2,3) full la(1) by (cases full) (auto simp: v'_def)
  with slab lst ok(3) cache_relD(1) [OF rel] have crel: "cache_rel c' m' v'"
    unfolding cache_rel_def by (auto simp: c'_def v'_def)
  have "live ?sz v' = (live ?sz v - slots ?sz ?pg) \<union> (slots ?sz ?pg - set (a # ?fs))"
    unfolding v'_def by (rule live_upd [OF rel la(1)]) (use la(2) s(3) in auto)
  moreover have "live ?sz v = (live ?sz v - slots ?sz ?pg) \<union> (slots ?sz ?pg - set ?fs)"
    using live_upd [OF rel la(1) s(3), of "plist v"] by (simp add: fun_upd_idem)
  ultimately have "live ?sz v' = live ?sz v - {a}" using la(2) by auto
  moreover have "mem_eq_outside (pages v) m m'"
    using la(1) page_of_page [OF ok(1)] by (auto simp: mem_eq_outside_def m'_def)
  ultimately show ?thesis
    using run crel by (intro exI [of _ c'] exI [of _ m'] exI [of _ v']) (simp add: c'_def v'_def)
qed

text \<open>The last slot in use: the slab leaves the partial list and its page goes back.\<close>

lemma scache_dealloc_release:
  assumes rel: "cache_rel c m v" and a: "a \<in> live (obj_size c) v" and n: "in_use (headers m (page_of a)) = 1"
    and fuel: "length (plist v) < fuel" and prov: "free_page p (page_of a) = Inr p'"
  shows "\<exists>c' m' v'. scache_dealloc fuel free_page c m p a = Inr (c', m', p') \<and>
    cache_rel c' m' v' \<and> obj_size c' = obj_size c \<and> pages v' = pages v - {page_of a} \<and>
    live (obj_size c) v' = live (obj_size c) v - {a} \<and> mem_eq_outside (pages v) m m'"
proof -
  let ?sz = "obj_size c" and ?pg = "page_of a" and ?fs = "frees v (page_of a)"
  let ?h = "headers m ?pg"
  note la = liveE [OF rel a]
  note ok = cache_relD [OF rel la(1)]
  have s: "distinct ?fs" "set ?fs \<subseteq> slots ?sz ?pg" "1 + length ?fs = slab_capacity ?sz"
    using ok(2) n by (auto simp: slab_ok_def)
  define h where "h = ?h\<lparr>freelist := Some a, in_use := 0\<rparr>"
  define m1 where "m1 = \<lparr>headers = (headers m)(?pg := h), objects = (objects m)(a := freelist ?h)\<rparr>"
  have pl: "lpath (slab_next m) (partial_head c) (plist v)" "distinct (plist v)"
      "set (plist v) = {q \<in> pages v. frees v q \<noteq> []}"
    using rel by (auto simp: cache_rel_def)
  have "lpath (slab_next m1) (partial_head c) (plist v) = lpath (slab_next m) (partial_head c) (plist v)"
    by (intro lpath_cong) (auto simp: m1_def h_def)
  then have "lpath (slab_next m1) (read_cursor None c m1) (plist v)" using pl(1) by (simp add: read_cursor_def)
  from remove_from_cursor_ok [OF this pl(2) _ fuel, of ?pg] obtain c' m' where r:
      "remove_slab_from_partial fuel c m1 ?pg = Inr (c', m')"
      "lpath (slab_next m') (partial_head c') (remove1 ?pg (plist v))" "same_but_next m1 m'"
      "\<forall>b. b \<notin> set (plist v) \<longrightarrow> headers m' b = headers m1 b" "obj_size c' = ?sz"
    by (auto simp: remove_slab_from_partial_def read_cursor_def)
  have run: "scache_dealloc fuel free_page c m p a = Inr (c', m', p')"
    using n la(4) r(1) prov by (simp add: scache_dealloc_def Let_def u64_sub_def m1_def h_def)
  define v' where "v' = v\<lparr>pages := pages v - {?pg}, plist := remove1 ?pg (plist v)\<rparr>"
  have slab: "slab_ok ?sz m' (frees v q) q" if q: "q \<in> pages v" "q \<noteq> ?pg" for q
  proof -
    have "a \<notin> slots ?sz q" using la(2) slots_disjoint [OF ok(3,1) cache_relD(1) [OF rel q(1)]] q(2) by blast
    then have "slab_ok ?sz m' (frees v q) q = slab_ok ?sz m (frees v q) q"
      using r(3) q(2) by (intro slab_ok_cong) (auto simp: same_but_next_def m1_def)
    then show ?thesis using cache_relD(2) [OF rel q(1)] by simp
  qed
  have crel: "cache_rel c' m' v'"
    using ok(3) slab cache_relD(1) [OF rel] r(2,5) pl(2,3) unfolding cache_rel_def by (auto simp: v'_def)
  have "slots ?sz ?pg - set ?fs = {a}"
  proof -
    have fin: "finite (slots ?sz ?pg)" by (simp add: slots_def)
    have "card (slots ?sz ?pg) = slab_capacity ?sz"
      using card_image [OF slot_inj [OF ok(3,1)]] by (simp add: slots_def)
    then have "card (slots ?sz ?pg - set ?fs) = 1"
      using s distinct_card [OF s(1)] by (subst card_Diff_subset) auto
    then obtain b where "slots ?sz ?pg - set ?fs = {b}" by (auto simp: card_1_singleton_iff)
    with la(2,3) show ?thesis by auto
  qed
  then have "live ?sz v = live ?sz v' \<union> {a}"
    using la(1) by (auto simp: live_def v'_def)
  moreover have "a \<notin> live ?sz v'"
    using la(2) slots_disjoint [OF ok(3,1) cache_relD(1) [OF rel]] by (fastforce simp: live_def v'_def)
  ultimately have "live ?sz v' = live ?sz v - {a}" by auto
  moreover have "mem_eq_outside (pages v) m m'"
  proof -
    have "headers m' b = headers m b \<and> objects m' b = objects m b" if b: "page_of b \<notin> pages v" for b
    proof -
      have "b \<notin> pages v" using b page_of_page cache_relD(1) [OF rel] by auto
      then have "b \<notin> set (plist v)" "b \<noteq> ?pg" using pl(3) la(1) by auto
      moreover have "b \<noteq> a" using b la(1) by auto
      ultimately show ?thesis using r(3,4) by (simp add: m1_def same_but_next_def)
    qed
    then show ?thesis by (simp add: mem_eq_outside_def)
  qed
  ultimately show ?thesis
    using run crel r(5) by (intro exI [of _ c'] exI [of _ m'] exI [of _ v']) (simp add: v'_def)
qed

subsection \<open>The interface to the page provider\<close>

text \<open>
  \<open>rel p A\<close>: the provider \<open>p\<close> has exactly the pages \<open>A\<close> to give. It hands out one of them or
  reports that there is none, and takes back any page it manages and does not already hold.
\<close>

locale page_provider =
  fixes alloc_page :: "'p \<Rightarrow> (u64 option \<times> 'p) outcome"
    and free_page :: "'p \<Rightarrow> u64 \<Rightarrow> 'p outcome"
    and rel :: "'p \<Rightarrow> u64 set \<Rightarrow> bool"
    and managed :: "'p \<Rightarrow> u64 set"
  assumes alloc_page_some: "rel p A \<Longrightarrow> A \<noteq> {} \<Longrightarrow>
      \<exists>a p'. alloc_page p = Inr (Some a, p') \<and> a \<in> A \<and> rel p' (A - {a}) \<and> managed p' = managed p"
    and alloc_page_none: "rel p {} \<Longrightarrow> alloc_page p = Inr (None, p)"
    and free_page_ok: "rel p A \<Longrightarrow> a \<in> managed p \<Longrightarrow> a \<notin> A \<Longrightarrow>
      \<exists>p'. free_page p a = Inr p' \<and> rel p' (insert a A) \<and> managed p' = managed p"
    and available_managed: "rel p A \<Longrightarrow> A \<subseteq> managed p"
    and managed_ok: "rel p A \<Longrightarrow> a \<in> managed p \<Longrightarrow> page_ok a"
begin

text \<open>A provider and the cache that draws its pages from it.\<close>

definition owns :: "'p \<Rightarrow> u64 set \<Rightarrow> scache \<Rightarrow> slab_mem \<Rightarrow> slab_view \<Rightarrow> bool" where
  "owns p A c m v \<longleftrightarrow> rel p A \<and> cache_rel c m v \<and> pages v \<inter> A = {} \<and> pages v \<subseteq> managed p"

lemma alloc_ok:
  assumes "owns p A c m v" "0 < fuel"
  obtains (none) "scache_alloc fuel alloc_page c m p = Inr (None, c, m, p)" "plist v = []" "A = {}"
  | (some) a c' m' p' A' v' where "scache_alloc fuel alloc_page c m p = Inr (Some a, c', m', p')"
      "owns p' A' c' m' v'" "obj_size c' = obj_size c" "managed p' = managed p"
      "a \<notin> live (obj_size c) v" "live (obj_size c) v' = insert a (live (obj_size c) v)"
      "page_of a \<in> pages v'" "a \<in> slots (obj_size c) (page_of a)" "pages v' \<union> A' = pages v \<union> A" "pages v \<subseteq> pages v'"
      "mem_eq_outside (pages v') m m'"
proof -
  have o: "rel p A" "cache_rel c m v" "pages v \<inter> A = {}" "pages v \<subseteq> managed p"
    using assms(1) by (simp_all add: owns_def)
  obtain f where f: "fuel = Suc f" using assms(2) by (cases fuel) auto
  have sz: "size_ok (obj_size c)" using o(2) by (simp add: cache_rel_def)
  show thesis
  proof (cases "plist v")
    case (Cons pg ps)
    obtain a c' m' v' where r: "scache_alloc (Suc f) alloc_page c m p = Inr (Some a, c', m', p)"
        "cache_rel c' m' v'" "obj_size c' = obj_size c" "pages v' = pages v" "a \<notin> live (obj_size c) v"
        "live (obj_size c) v' = insert a (live (obj_size c) v)" "a \<in> slots (obj_size c) pg" "pg \<in> pages v"
        "mem_eq_outside (pages v) m m'"
      using scache_alloc_partial [OF o(2) Cons, of f alloc_page p] by (elim exE conjE) (rule that)
    have "page_of a = pg" using page_of_slots [OF sz cache_relD(1) [OF o(2) r(8)] r(7)] .
    then show thesis
      by (intro some [of a c' m' p A v']) (use r o f in \<open>simp_all add: owns_def\<close>)
  next
    case Nil
    then have nil: "partial_head c = None" using o(2) by (simp add: cache_rel_def)
    then have run: "scache_alloc fuel alloc_page c m p = new_slab alloc_page c m p" by (simp add: f)
    show thesis
    proof (cases "A = {}")
      case True
      then have "alloc_page p = Inr (None, p)" using alloc_page_none o(1) by simp
      then show thesis by (intro none) (use True Nil run in \<open>simp_all add: new_slab_def\<close>)
    next
      case False
      then obtain pg p' where pg: "alloc_page p = Inr (Some pg, p')" "pg \<in> A" "rel p' (A - {pg})" "managed p' = managed p"
        using alloc_page_some [OF o(1)] by blast
      have mg: "pg \<in> managed p" using available_managed [OF o(1)] pg(2) by blast
      have pok: "page_ok pg" "pg \<notin> pages v" using managed_ok [OF o(1) mg] o(3) pg(2) by auto
      obtain a c' m' v' where r: "new_slab alloc_page c m p = Inr (Some a, c', m', p')"
          "cache_rel c' m' v'" "obj_size c' = obj_size c" "pages v' = insert pg (pages v)" "a \<notin> live (obj_size c) v"
          "live (obj_size c) v' = insert a (live (obj_size c) v)" "a = slot (obj_size c) pg 0"
          "mem_eq_outside {pg} m m'"
        using new_slab_ok [where alloc_page = alloc_page, OF o(2) Nil pok pg(1)] by (elim exE conjE) (rule that)
      have sl: "a \<in> slots (obj_size c) pg" using size_facts(4) [OF sz] r(7) by (auto simp: slots_def)
      have "page_of a = pg" using page_of_slots [OF sz pok(1) sl] .
      moreover have "owns p' (A - {pg}) c' m' v'" using r(2,4) pg o mg by (auto simp: owns_def)
      moreover have "mem_eq_outside (pages v') m m'" using mem_eq_outside_mono [OF r(8)] r(4) by simp
      moreover have "pages v' \<union> (A - {pg}) = pages v \<union> A" using r(4) pg(2) by auto
      ultimately show thesis
        by (intro some [of a c' m' p' "A - {pg}" v']) (use r run pg(4) sl in auto)
    qed
  qed
qed

lemma dealloc_ok:
  assumes "owns p A c m v" "a \<in> live (obj_size c) v" "length (plist v) < fuel"
  obtains c' m' p' A' v' where "scache_dealloc fuel free_page c m p a = Inr (c', m', p')"
      "owns p' A' c' m' v'" "obj_size c' = obj_size c" "managed p' = managed p"
      "live (obj_size c) v' = live (obj_size c) v - {a}" "pages v' \<union> A' = pages v \<union> A" "pages v' \<subseteq> pages v"
      "mem_eq_outside (pages v) m m'"
proof -
  have o: "rel p A" "cache_rel c m v" "pages v \<inter> A = {}" "pages v \<subseteq> managed p"
    using assms(1) by (simp_all add: owns_def)
  note la = liveE [OF o(2) assms(2)]
  show thesis
  proof (cases "in_use (headers m (page_of a)) = 1")
    case False
    obtain c' m' v' where
        "scache_dealloc fuel free_page c m p a = Inr (c', m', p)" "cache_rel c' m' v'" "obj_size c' = obj_size c"
        "pages v' = pages v" "live (obj_size c) v' = live (obj_size c) v - {a}" "mem_eq_outside (pages v) m m'"
      using scache_dealloc_keep [OF o(2) assms(2) False, of fuel free_page p] by (elim exE conjE) (rule that)
    then show thesis by (intro that [of c' m' p A v']) (use o in \<open>simp_all add: owns_def\<close>)
  next
    case True
    obtain p' where p': "free_page p (page_of a) = Inr p'" "rel p' (insert (page_of a) A)" "managed p' = managed p"
      using free_page_ok [OF o(1), of "page_of a"] la(1) o(3,4) by blast
    obtain c' m' v' where
        r: "scache_dealloc fuel free_page c m p a = Inr (c', m', p')" "cache_rel c' m' v'" "obj_size c' = obj_size c"
        "pages v' = pages v - {page_of a}" "live (obj_size c) v' = live (obj_size c) v - {a}" "mem_eq_outside (pages v) m m'"
      using scache_dealloc_release [OF o(2) assms(2) True assms(3), of free_page p p', OF p'(1)]
      by (elim exE conjE) (rule that)
    have "owns p' (insert (page_of a) A) c' m' v'" using r(2,4) p' o by (auto simp: owns_def)
    moreover have "pages v' \<union> insert (page_of a) A = pages v \<union> A" using r(4) la(1) by auto
    ultimately show thesis
      by (intro that [of c' m' p' "insert (page_of a) A" v']) (use r p'(3) in auto)
  qed
qed

end

end
