(* ===== verification/Heap_Alloc.thy ===== *)
theory Heap_Alloc
  imports Buddy_Correct Slub_Correct
begin

text \<open>
  The kernel heap of \<^verbatim>\<open>kernel/src/mm/allocator.rs\<close>: the page allocator that gives the slab caches
  their pages, the eight caches of \<^verbatim>\<open>SlubAllocator\<close>, and the \<^verbatim>\<open>GlobalAlloc\<close> implementation on top.
  The globals behind the mutexes are the fields of \<open>heap\<close>; a lock that is taken and released within
  one operation has no effect on the result of that operation.
\<close>

record global_page_allocator =
  frame_allocator :: buddy

definition alloc_page :: "global_page_allocator \<Rightarrow> (u64 option \<times> global_page_allocator) outcome" where
  "alloc_page g =
     and_then (buddy_alloc (frame_allocator g) 0) (\<lambda>(res, b). Inr (res, g\<lparr>frame_allocator := b\<rparr>))"

definition free_page :: "global_page_allocator \<Rightarrow> u64 \<Rightarrow> global_page_allocator outcome" where
  "free_page g ptr =
     and_then (buddy_dealloc (frame_allocator g) ptr 0) (\<lambda>b. Inr (g\<lparr>frame_allocator := b\<rparr>))"

record layout =
  lsize :: u64
  lalign :: u64

record heap =
  page_allocator :: "global_page_allocator option"
  caches :: "scache list"
  slab_memory :: slab_mem

definition slub_allocator_new :: "scache list" where
  "slub_allocator_new = [scache_new 16, scache_new 32, scache_new 64, scache_new 128,
     scache_new 256, scache_new 512, scache_new 1024, scache_new 2048]"

definition cache_index :: "u64 \<Rightarrow> nat" where
  "cache_index sz =
     (if sz \<le> 16 then 0 else if sz \<le> 32 then 1 else if sz \<le> 64 then 2 else if sz \<le> 128 then 3
      else if sz \<le> 256 then 4 else if sz \<le> 512 then 5 else if sz \<le> 1024 then 6 else 7)"

text \<open>Fuel for the walks over linked slabs: there are never more slabs than pages.\<close>

definition HEAP_FUEL :: nat where "HEAP_FUEL = MAX_PAGES + 1"

definition global_alloc :: "heap \<Rightarrow> layout \<Rightarrow> (u64 \<times> heap) outcome" where
  "global_alloc h layout =
     (if lsize layout > 2048 then
        if lsize layout \<le> 4096 then
          case page_allocator h of
            Some p \<Rightarrow>
              and_then (alloc_page p) (\<lambda>(res, p).
              Inr (case res of Some ptr \<Rightarrow> ptr | None \<Rightarrow> 0, h\<lparr>page_allocator := Some p\<rparr>))
          | None \<Rightarrow> Inr (0, h)
        else Inr (0, h)
      else
        let index = cache_index (lsize layout)
        in case page_allocator h of
             Some p \<Rightarrow>
               and_then (scache_alloc HEAP_FUEL alloc_page (caches h ! index) (slab_memory h) p) (\<lambda>(res, c, m, p).
               Inr (case res of Some ptr \<Rightarrow> ptr | None \<Rightarrow> 0,
                    h\<lparr>page_allocator := Some p, caches := (caches h)[index := c], slab_memory := m\<rparr>))
           | None \<Rightarrow> Inr (0, h))"

definition global_dealloc :: "heap \<Rightarrow> u64 \<Rightarrow> layout \<Rightarrow> heap outcome" where
  "global_dealloc h ptr layout =
     (if lsize layout > 2048 then
        case page_allocator h of
          Some p \<Rightarrow> and_then (free_page p ptr) (\<lambda>p. Inr (h\<lparr>page_allocator := Some p\<rparr>))
        | None \<Rightarrow> Inr h
      else
        let index = cache_index (lsize layout)
        in case page_allocator h of
             Some p \<Rightarrow>
               and_then (scache_dealloc HEAP_FUEL free_page (caches h ! index) (slab_memory h) p ptr) (\<lambda>(c, m, p).
               Inr (h\<lparr>page_allocator := Some p, caches := (caches h)[index := c], slab_memory := m\<rparr>))
           | None \<Rightarrow> Inr h)"

text \<open>
  \<open>init_heap\<close> builds the buddy allocator over the static bitmap \<open>storage\<close>; \<open>mem\<close> is what the
  physical memory holds at that moment.
\<close>

definition init_heap :: "(nat \<Rightarrow> u8) \<Rightarrow> (u64 \<Rightarrow> free_frame) \<Rightarrow> heap \<Rightarrow> u64 \<Rightarrow> heap" where
  "init_heap storage mem h off =
     h\<lparr>page_allocator := Some \<lparr>frame_allocator = set_offset (buddy_new storage mem) off\<rparr>\<rparr>"

definition heap_add_frame :: "heap \<Rightarrow> u64 \<Rightarrow> heap outcome" where
  "heap_add_frame h start =
     (case page_allocator h of
        Some p \<Rightarrow> and_then (add_frame (frame_allocator p) start) (\<lambda>b.
          Inr (h\<lparr>page_allocator := Some (p\<lparr>frame_allocator := b\<rparr>)\<rparr>))
      | None \<Rightarrow> Inr h)"

definition heap_allocate_frame :: "(u64 \<Rightarrow> 'f outcome) \<Rightarrow> heap \<Rightarrow> ('f option \<times> heap) outcome" where
  "heap_allocate_frame phys_frame h =
     (case page_allocator h of
        Some p \<Rightarrow> and_then (allocate_frame phys_frame (frame_allocator p)) (\<lambda>(res, b).
          Inr (res, h\<lparr>page_allocator := Some (p\<lparr>frame_allocator := b\<rparr>)\<rparr>))
      | None \<Rightarrow> Inr (None, h))"

subsection \<open>The buddy allocator as a page provider\<close>

definition managed :: "global_page_allocator \<Rightarrow> u64 set" where
  "managed g = page_addr (offset (frame_allocator g)) ` {..<MAX_PAGES}"

definition provides :: "global_page_allocator \<Rightarrow> u64 set \<Rightarrow> bool" where
  "provides g A \<longleftrightarrow> (\<exists>L. buddy_rel (frame_allocator g) L \<and> offset (frame_allocator g) \<noteq> 0 \<and>
     4096 dvd unat (offset (frame_allocator g)) \<and> A = page_addr (offset (frame_allocator g)) ` free_pages L)"

lemma page_addr_inj_on: "window_ok off \<Longrightarrow> inj_on (page_addr off) {..<MAX_PAGES}"
  by (intro inj_onI) (use page_addr_inj less_imp_le in blast)

lemma page_addr_image_Diff:
  assumes "window_ok off" "X \<subseteq> {..<MAX_PAGES}" "p < MAX_PAGES"
  shows "page_addr off ` (X - {p}) = page_addr off ` X - {page_addr off p}"
  using inj_on_image_set_diff [OF page_addr_inj_on [OF assms(1)], of X "{p}"] assms(2,3) by auto

lemma block_0 [simp]: "block p 0 = {p}"
  by (auto simp: block_def)

lemma page_ok_page_addr:
  assumes "window_ok off" "off \<noteq> 0" "4096 dvd unat off" "p < MAX_PAGES"
  shows "page_ok (page_addr off p)"
  using assms page_addr_nonnull [of off p] unat_page_addr [of off p]
  by (simp add: page_ok_def PAGE_SIZE_def dvd_add)

interpretation gpa: page_provider alloc_page free_page provides managed
proof
  fix g A assume g: "provides g A"
  then obtain L where L: "buddy_rel (frame_allocator g) L" "offset (frame_allocator g) \<noteq> 0"
      "4096 dvd unat (offset (frame_allocator g))" "A = page_addr (offset (frame_allocator g)) ` free_pages L"
    by (auto simp: provides_def)
  let ?b = "frame_allocator g"
  have w: "window_ok (offset ?b)" "spec_inv L" using L(1) by (simp_all add: buddy_rel_def)
  have bound: "free_pages L \<subseteq> {..<MAX_PAGES}" by (rule free_pages_bound [OF w(2)])
  show "A \<subseteq> managed g" using L(4) bound by (auto simp: managed_def)
  show "page_ok a" if "a \<in> managed g" for a
    using that page_ok_page_addr [OF w(1) L(2,3)] by (auto simp: managed_def)
  show "\<exists>a g'. alloc_page g = Inr (Some a, g') \<and> a \<in> A \<and> provides g' (A - {a}) \<and> managed g' = managed g" if ne: "A \<noteq> {}"
  proof -
    obtain q where q: "q \<in> free_pages L" using ne L(4) by auto
    then have "spec_alloc 0 L \<noteq> None"
      using spec_alloc_complete [OF w(2), of 0] by (auto simp: MAX_ORDER_def)
    then obtain p L' where sp: "spec_alloc 0 L = Some (p, L')" by auto
    obtain b' where b': "buddy_alloc ?b 0 = Inr (Some (page_addr (offset ?b) p), b')" "buddy_rel b' L'" "offset b' = offset ?b"
      using buddy_alloc_refines [OF L(1), of 0] sp by (auto simp: untouched_def)
    have fp: "p \<notin> free_pages L'" "free_pages L = free_pages L' \<union> {p}"
      using spec_alloc_correct [OF w(2) sp] by simp_all
    then have eq: "free_pages L' = free_pages L - {p}" "p < MAX_PAGES" using bound by auto
    have "provides (g\<lparr>frame_allocator := b'\<rparr>) (A - {page_addr (offset ?b) p})"
      unfolding provides_def
      by (intro exI [of _ L']) (use b'(2,3) L page_addr_image_Diff [OF w(1) bound eq(2)] eq(1) in simp)
    moreover have "page_addr (offset ?b) p \<in> A" using L(4) fp(2) by auto
    moreover have "managed (g\<lparr>frame_allocator := b'\<rparr>) = managed g" by (simp add: managed_def b'(3))
    moreover have "alloc_page g = Inr (Some (page_addr (offset ?b) p), g\<lparr>frame_allocator := b'\<rparr>)"
      by (simp add: alloc_page_def b'(1))
    ultimately show ?thesis by blast
  qed
  show "\<exists>g'. free_page g a = Inr g' \<and> provides g' (insert a A) \<and> managed g' = managed g"
    if a: "a \<in> managed g" "a \<notin> A" for a
  proof -
    obtain p where p: "p < MAX_PAGES" "a = page_addr (offset ?b) p" using a(1) by (auto simp: managed_def)
    have np: "p \<notin> free_pages L" using a(2) p(2) L(4) by auto
    have v: "valid_block p 0" using p(1) by (simp add: valid_block_def MAX_ORDER_def)
    have nz: "page_addr (offset ?b) p \<noteq> 0" using page_addr_nonnull [OF w(1)] L(2) p(1) by simp
    have dj: "block p 0 \<inter> free_pages L = {}" using np by simp
    obtain b' where b': "buddy_dealloc ?b a 0 = Inr b'" "buddy_rel b' (spec_dealloc p 0 L)" "offset b' = offset ?b"
      using buddy_dealloc_refines [OF L(1) v dj nz] p(2) by (auto simp: untouched_def)
    have "free_pages (spec_dealloc p 0 L) = insert p (free_pages L)"
      using spec_dealloc_correct [OF w(2) v dj] by simp
    then have "provides (g\<lparr>frame_allocator := b'\<rparr>) (insert a A)"
      unfolding provides_def
      by (intro exI [of _ "spec_dealloc p 0 L"]) (use b'(2,3) L p(2) in simp)
    then show ?thesis using b'(1,3) by (simp add: free_page_def managed_def)
  qed
next
  fix g assume "provides g {}"
  then obtain L where L: "buddy_rel (frame_allocator g) L" "free_pages L = {}"
    by (auto simp: provides_def)
  then have "spec_alloc 0 L = None"
    using spec_alloc_complete [of L 0] by (cases "spec_alloc 0 L") (auto simp: MAX_ORDER_def buddy_rel_def)
  then show "alloc_page g = Inr (None, g)"
    using buddy_alloc_refines [OF L(1), of 0] by (simp add: alloc_page_def)
qed

subsection \<open>The state of the heap\<close>

definition class_size :: "nat \<Rightarrow> u64" where
  "class_size i = [16, 32, 64, 128, 256, 512, 1024, 2048] ! i"

definition block_size :: "layout \<Rightarrow> u64" where
  "block_size l = (if lsize l > 2048 then 4096 else class_size (cache_index (lsize l)))"

text \<open>
  The provider holds the pages \<open>A\<close>, cache \<open>i\<close> represents \<open>vs i\<close>, and the pages \<open>G\<close> have been
  handed out whole; no page is in two of these places.
\<close>

definition heap_rel :: "heap \<Rightarrow> u64 set \<Rightarrow> (nat \<Rightarrow> slab_view) \<Rightarrow> u64 set \<Rightarrow> bool" where
  "heap_rel h A vs G \<longleftrightarrow>
     (\<exists>p. page_allocator h = Some p \<and> provides p A \<and> G \<subseteq> managed p \<and> (\<forall>i<8. pages (vs i) \<subseteq> managed p)) \<and>
     length (caches h) = 8 \<and>
     (\<forall>i<8. obj_size (caches h ! i) = class_size i \<and> cache_rel (caches h ! i) (slab_memory h) (vs i) \<and>
        pages (vs i) \<inter> A = {} \<and> pages (vs i) \<inter> G = {}) \<and>
     G \<inter> A = {} \<and> (\<forall>i<8. \<forall>j<8. i \<noteq> j \<longrightarrow> pages (vs i) \<inter> pages (vs j) = {})"

text \<open>The blocks in use, with the number of bytes each provides.\<close>

definition live_blocks :: "(nat \<Rightarrow> slab_view) \<Rightarrow> u64 set \<Rightarrow> (u64 \<times> u64) set" where
  "live_blocks vs G = {(a, class_size i) |i a. i < 8 \<and> a \<in> live (class_size i) (vs i)} \<union> (\<lambda>g. (g, 4096)) ` G"

definition block_bytes :: "u64 \<times> u64 \<Rightarrow> nat set" where
  "block_bytes b = {unat (fst b)..<unat (fst b) + unat (snd b)}"

lemma less_8_cases:
  assumes "i < 8"
  obtains "i = 0" | "i = 1" | "i = 2" | "i = 3" | "i = 4" | "i = 5" | "i = 6" | "i = (7 :: nat)"
  using assms by linarith

lemma class_size_simps [simp]:
  "class_size 0 = 16" "class_size (Suc 0) = 32" "class_size 2 = 64" "class_size 3 = 128" "class_size 4 = 256"
  "class_size 5 = 512" "class_size 6 = 1024" "class_size 7 = 2048"
  by (simp_all add: class_size_def)

lemma class_size_ok: "i < 8 \<Longrightarrow> size_ok (class_size i) \<and> class_size i \<noteq> 4096"
  by (elim less_8_cases) (auto simp: size_ok_def)

lemma class_size_inj: "i < 8 \<Longrightarrow> j < 8 \<Longrightarrow> class_size i = class_size j \<Longrightarrow> i = j"
  by (elim less_8_cases) auto

lemma cache_index_less: "cache_index sz < 8"
  by (simp add: cache_index_def)

lemma cache_index_fits: "sz \<le> 2048 \<Longrightarrow> sz \<le> class_size (cache_index sz)"
  by (simp add: cache_index_def)

lemma slab_new_mem: "(a, class_size i) \<in> live_blocks vs G \<longleftrightarrow> a \<in> live (class_size i) (vs i)" if "i < 8"
  using that class_size_inj [of i] class_size_ok [of i] by (auto simp: live_blocks_def)

lemma large_mem: "(a, 4096) \<in> live_blocks vs G \<longleftrightarrow> a \<in> G"
  using class_size_ok by (auto simp: live_blocks_def)

lemma live_blocks_insert:
  assumes "i < 8" "live (class_size i) v = insert a (live (class_size i) (vs i))"
  shows "live_blocks (vs(i := v)) G = insert (a, class_size i) (live_blocks vs G)"
  using assms by (auto simp: live_blocks_def)

lemma live_blocks_delete:
  assumes "i < 8" "live (class_size i) v = live (class_size i) (vs i) - {a}"
  shows "live_blocks (vs(i := v)) G = live_blocks vs G - {(a, class_size i)}"
proof (rule set_eqI)
  fix x :: "u64 \<times> u64"
  obtain b t where x: "x = (b, t)" by fastforce
  show "x \<in> live_blocks (vs(i := v)) G \<longleftrightarrow> x \<in> live_blocks vs G - {(a, class_size i)}"
  proof (cases "\<exists>j<8. t = class_size j")
    case True
    then obtain j where j: "j < 8" "t = class_size j" by blast
    then show ?thesis
      using slab_new_mem [OF j(1)] class_size_inj [OF j(1) assms(1)] assms(2) by (cases "j = i") (auto simp: x)
  next
    case False
    then show ?thesis using assms(1) by (auto simp: x live_blocks_def)
  qed
qed

lemma heap_owns:
  assumes "heap_rel h A vs G" "i < 8" "page_allocator h = Some p"
  shows "gpa.owns p A (caches h ! i) (slab_memory h) (vs i)" "obj_size (caches h ! i) = class_size i"
  using assms by (auto simp: heap_rel_def gpa.owns_def)

text \<open>Replacing one cache, given what its operation did to the pages and to memory.\<close>

lemma heap_rel_step:
  assumes rel: "heap_rel h A vs G" and i: "i < 8" and p: "page_allocator h = Some p"
    and own: "gpa.owns p' A' c' m' v'" and same: "obj_size c' = class_size i" "managed p' = managed p"
    and pages: "pages v' \<union> A' = pages (vs i) \<union> A" and mem: "mem_eq_outside (pages (vs i) \<union> A) (slab_memory h) m'"
  shows "heap_rel (h\<lparr>page_allocator := Some p', caches := (caches h)[i := c'], slab_memory := m'\<rparr>) A' (vs(i := v')) G"
proof -
  have r: "G \<subseteq> managed p" "\<And>j. j < 8 \<Longrightarrow> pages (vs j) \<subseteq> managed p" "length (caches h) = 8" "G \<inter> A = {}"
      "\<And>j. j < 8 \<Longrightarrow> obj_size (caches h ! j) = class_size j \<and> cache_rel (caches h ! j) (slab_memory h) (vs j) \<and>
        pages (vs j) \<inter> A = {} \<and> pages (vs j) \<inter> G = {}"
      "\<And>j k. j < 8 \<Longrightarrow> k < 8 \<Longrightarrow> j \<noteq> k \<Longrightarrow> pages (vs j) \<inter> pages (vs k) = {}"
    using rel p by (auto simp: heap_rel_def)
  have o: "provides p' A'" "cache_rel c' m' v'" "pages v' \<inter> A' = {}" "pages v' \<subseteq> managed p"
    using own same(2) by (simp_all add: gpa.owns_def)
  have sub: "A' \<subseteq> pages (vs i) \<union> A" "pages v' \<subseteq> pages (vs i) \<union> A" using pages by auto
  have far: "pages (vs j) \<inter> (pages (vs i) \<union> A) = {}" if "j < 8" "j \<noteq> i" for j
    using r(5) [of j] r(6) [of j i] that i by blast
  have gfar: "G \<inter> (pages (vs i) \<union> A) = {}" using r(4) r(5) [OF i] by blast
  have frame: "cache_rel (caches h ! j) m' (vs j)" if "j < 8" "j \<noteq> i" for j
    using cache_rel_frame [OF _ mem far [OF that]] r(5) that by blast
  show ?thesis
    unfolding heap_rel_def
  proof (intro conjI)
    show "\<exists>q. page_allocator (h\<lparr>page_allocator := Some p', caches := (caches h)[i := c'], slab_memory := m'\<rparr>) = Some q \<and>
        provides q A' \<and> G \<subseteq> managed q \<and> (\<forall>j<8. pages ((vs(i := v')) j) \<subseteq> managed q)"
      using o(1,4) same(2) r(1,2) by auto
    show "length (caches (h\<lparr>page_allocator := Some p', caches := (caches h)[i := c'], slab_memory := m'\<rparr>)) = 8"
      using r(3) by simp
    show "G \<inter> A' = {}" using sub(1) gfar by blast
    show "\<forall>j<8. \<forall>k<8. j \<noteq> k \<longrightarrow> pages ((vs(i := v')) j) \<inter> pages ((vs(i := v')) k) = {}"
      using r(6) far sub(2) i by (auto simp: fun_upd_def) blast+
    show "\<forall>j<8. obj_size (caches (h\<lparr>page_allocator := Some p', caches := (caches h)[i := c'], slab_memory := m'\<rparr>) ! j) = class_size j \<and>
        cache_rel (caches (h\<lparr>page_allocator := Some p', caches := (caches h)[i := c'], slab_memory := m'\<rparr>) ! j)
          (slab_memory (h\<lparr>page_allocator := Some p', caches := (caches h)[i := c'], slab_memory := m'\<rparr>)) ((vs(i := v')) j) \<and>
        pages ((vs(i := v')) j) \<inter> A' = {} \<and> pages ((vs(i := v')) j) \<inter> G = {}"
    proof (intro allI impI)
      fix j :: nat assume j: "j < 8"
      show "obj_size (caches (h\<lparr>page_allocator := Some p', caches := (caches h)[i := c'], slab_memory := m'\<rparr>) ! j) = class_size j \<and>
        cache_rel (caches (h\<lparr>page_allocator := Some p', caches := (caches h)[i := c'], slab_memory := m'\<rparr>) ! j)
          (slab_memory (h\<lparr>page_allocator := Some p', caches := (caches h)[i := c'], slab_memory := m'\<rparr>)) ((vs(i := v')) j) \<and>
        pages ((vs(i := v')) j) \<inter> A' = {} \<and> pages ((vs(i := v')) j) \<inter> G = {}"
      proof (cases "j = i")
        case True
        then show ?thesis using i r(3) o(2,3) same(1) sub(2) gfar by auto
      next
        case False
        then show ?thesis using j r(5) [OF j] frame far [OF j False] sub(1) by auto
      qed
    qed
  qed
qed

end
