(* ===== verification/Heap_Correct.thy ===== *)
theory Heap_Correct
  imports Heap_Alloc
begin

text \<open>
  What the global allocator promises: blocks in use never overlap, an allocation returns a fresh
  block that is large enough and aligned to its size class, a release makes exactly that block
  reusable, and a request fails only when the page allocator is empty. The contract of
  \<^verbatim>\<open>GlobalAlloc\<close> also asks for the alignment of the layout; \<open>heap_alloc_misaligned\<close> shows a request
  whose alignment is not honoured.
\<close>

subsection \<open>Fuel\<close>

lemma card_managed: "card (managed p) \<le> MAX_PAGES"
  unfolding managed_def by (rule order_trans [OF card_image_le]) simp_all

lemma plist_fuel:
  assumes "gpa.owns p A c m v"
  shows "length (plist v) < HEAP_FUEL"
proof -
  have "distinct (plist v)" "set (plist v) \<subseteq> managed p"
    using assms by (auto simp: gpa.owns_def cache_rel_def)
  then have "length (plist v) \<le> card (managed p)"
    using distinct_card [of "plist v"] card_mono [of "managed p" "set (plist v)"] by (simp add: managed_def)
  then show ?thesis using card_managed [of p] by (simp add: HEAP_FUEL_def)
qed

subsection \<open>Whole pages\<close>

text \<open>All pages of the heap: free ones, pages in use as a whole, and slabs.\<close>

definition heap_pages :: "u64 set \<Rightarrow> (nat \<Rightarrow> slab_view) \<Rightarrow> u64 set \<Rightarrow> u64 set" where
  "heap_pages A vs G = A \<union> G \<union> (\<Union>i<8. pages (vs i))"

lemma heap_pages_upd:
  assumes "i < 8" "pages v \<union> A' = pages (vs i) \<union> A"
  shows "heap_pages A' (vs(i := v)) G = heap_pages A vs G"
proof -
  have "A' \<union> (\<Union>j<8. pages ((vs(i := v)) j)) = A' \<union> pages v \<union> (\<Union>j\<in>{..<8} - {i}. pages (vs j))" using assms(1) by (auto split: if_splits)
  also have "\<dots> = A \<union> (\<Union>j<8. pages (vs j))" using assms by auto
  finally show ?thesis unfolding heap_pages_def by blast
qed

lemma heap_rel_pages:
  assumes rel: "heap_rel h A vs G" and p: "page_allocator h = Some p"
    and p': "provides p' A'" "managed p' = managed p" and sets: "A' \<union> G' = A \<union> G" "A' \<inter> G' = {}"
  shows "heap_rel (h\<lparr>page_allocator := Some p'\<rparr>) A' vs G'"
proof -
  have "A' \<subseteq> A \<union> G" "G' \<subseteq> A \<union> G" using sets(1) by auto
  moreover have "A \<subseteq> managed p" using gpa.available_managed rel p by (auto simp: heap_rel_def)
  moreover have "G \<subseteq> managed p" using rel p by (simp add: heap_rel_def)
  ultimately have "G' \<subseteq> managed p" by blast
  moreover have "pages (vs i) \<inter> A' = {} \<and> pages (vs i) \<inter> G' = {}" if "i < 8" for i
    using rel that sets(1) by (auto simp: heap_rel_def)
  ultimately show ?thesis
    using rel p p' sets(2) unfolding heap_rel_def by (auto simp: Int_commute)
qed

lemma alloc_large:
  assumes rel: "heap_rel h A vs G" and l: "lsize l > 2048" "lsize l \<le> 4096"
  shows "(A = {} \<and> global_alloc h l = Inr (0, h)) \<or>
    (\<exists>a h'. global_alloc h l = Inr (a, h') \<and> a \<noteq> 0 \<and> 4096 dvd unat a \<and> a \<in> A \<and> a \<notin> G \<and> heap_rel h' (A - {a}) vs (insert a G))"
proof -
  obtain p where p: "page_allocator h = Some p" "provides p A" using rel by (auto simp: heap_rel_def)
  show ?thesis
  proof (cases "A = {}")
    case True
    then have "alloc_page p = Inr (None, p)" using gpa.alloc_page_none p(2) by simp
    with True p(1) l show ?thesis by (simp add: global_alloc_def)
  next
    case False
    obtain a p' where a: "alloc_page p = Inr (Some a, p')" "a \<in> A" "provides p' (A - {a})" "managed p' = managed p"
      using gpa.alloc_page_some [OF p(2) False] by blast
    have ok: "page_ok a" using gpa.available_managed [OF p(2)] gpa.managed_ok [OF p(2)] a(2) by blast
    have "a \<notin> G" using rel a(2) by (auto simp: heap_rel_def)
    have "heap_rel (h\<lparr>page_allocator := Some p'\<rparr>) (A - {a}) vs (insert a G)"
      using rel a(2) by (intro heap_rel_pages [OF rel p(1) a(3,4)]) (auto simp: heap_rel_def)
    moreover have "global_alloc h l = Inr (a, h\<lparr>page_allocator := Some p'\<rparr>)"
      using p(1) l a(1) by (simp add: global_alloc_def)
    ultimately show ?thesis using ok a(2) \<open>a \<notin> G\<close> by (auto simp: page_ok_def)
  qed
qed

lemma dealloc_large:
  assumes rel: "heap_rel h A vs G" and l: "lsize l > 2048" and a: "a \<in> G"
  shows "\<exists>h'. global_dealloc h a l = Inr h' \<and> heap_rel h' (insert a A) vs (G - {a})"
proof -
  obtain p where p: "page_allocator h = Some p" "provides p A" "G \<subseteq> managed p" using rel by (auto simp: heap_rel_def)
  have "a \<notin> A" using rel a by (auto simp: heap_rel_def)
  then obtain p' where p': "free_page p a = Inr p'" "provides p' (insert a A)" "managed p' = managed p"
    using gpa.free_page_ok [OF p(2)] a p(3) by blast
  have "heap_rel (h\<lparr>page_allocator := Some p'\<rparr>) (insert a A) vs (G - {a})"
    using rel a by (intro heap_rel_pages [OF rel p(1) p'(2,3)]) (auto simp: heap_rel_def)
  then show ?thesis using p(1) p'(1) l by (simp add: global_dealloc_def)
qed

subsection \<open>Slab objects\<close>

lemma alloc_small:
  assumes rel: "heap_rel h A vs G" and l: "\<not> lsize l > 2048"
  defines "i \<equiv> cache_index (lsize l)"
  shows "(A = {} \<and> (\<exists>h'. global_alloc h l = Inr (0, h') \<and> heap_rel h' A vs G)) \<or>
    (\<exists>a h' A' v'. global_alloc h l = Inr (a, h') \<and> a \<noteq> 0 \<and> unat (class_size i) dvd unat a \<and>
       a \<notin> live (class_size i) (vs i) \<and> live (class_size i) v' = insert a (live (class_size i) (vs i)) \<and>
       heap_rel h' A' (vs(i := v')) G \<and> heap_pages A' (vs(i := v')) G = heap_pages A vs G)"
proof -
  obtain p where p: "page_allocator h = Some p" using rel by (auto simp: heap_rel_def)
  have i: "i < 8" by (simp add: i_def cache_index_less)
  note own = heap_owns [OF rel i p]
  have fuel: "0 < HEAP_FUEL" by (simp add: HEAP_FUEL_def)
  from own(1) fuel show ?thesis
  proof (cases rule: gpa.alloc_ok)
    case none
    have "(caches h)[i := caches h ! i] = caches h" by simp
    then have "global_alloc h l = Inr (0, h\<lparr>page_allocator := Some p, caches := caches h, slab_memory := slab_memory h\<rparr>)"
      using l p none(1) by (simp add: global_alloc_def Let_def i_def [symmetric])
    moreover have "h\<lparr>page_allocator := Some p, caches := caches h, slab_memory := slab_memory h\<rparr> = h" using p by simp
    ultimately show ?thesis using none(3) rel by auto
  next
    case (some a c' m' p' A' v')
    let ?h = "h\<lparr>page_allocator := Some p', caches := (caches h)[i := c'], slab_memory := m'\<rparr>"
    have run: "global_alloc h l = Inr (a, ?h)"
      using l p some(1) by (simp add: global_alloc_def Let_def i_def [symmetric])
    have mem: "mem_eq_outside (pages (vs i) \<union> A) (slab_memory h) m'"
      using mem_eq_outside_mono [OF some(11)] some(9) by blast
    have "heap_rel ?h A' (vs(i := v')) G"
      by (rule heap_rel_step [OF rel i p some(2) _ some(4) some(9) mem]) (simp add: some(3) own(2))
    moreover have "page_ok (page_of a)" "size_ok (class_size i)"
      using some(2,7) class_size_ok [OF i] by (auto simp: gpa.owns_def cache_rel_def)
    then have "unat (class_size i) dvd unat a" "a \<noteq> 0"
      using slot_aligned some(8) slot_nonnull by (auto simp: own(2) slots_def)
    ultimately show ?thesis using run some(5,6) heap_pages_upd [where vs = vs and G = G, OF i some(9)] unfolding own(2) by blast
  qed
qed

lemma dealloc_small:
  assumes rel: "heap_rel h A vs G" and l: "\<not> lsize l > 2048"
  defines "i \<equiv> cache_index (lsize l)"
  assumes a: "a \<in> live (class_size i) (vs i)"
  shows "\<exists>h' A' v'. global_dealloc h a l = Inr h' \<and> live (class_size i) v' = live (class_size i) (vs i) - {a} \<and>
    heap_rel h' A' (vs(i := v')) G \<and> heap_pages A' (vs(i := v')) G = heap_pages A vs G"
proof -
  obtain p where p: "page_allocator h = Some p" using rel by (auto simp: heap_rel_def)
  have i: "i < 8" by (simp add: i_def cache_index_less)
  note own = heap_owns [OF rel i p]
  have la: "a \<in> live (obj_size (caches h ! i)) (vs i)" using a own(2) by simp
  show ?thesis
    using own(1) la plist_fuel [OF own(1)]
  proof (rule gpa.dealloc_ok)
    fix c' m' p' A' v'
    assume r: "scache_dealloc HEAP_FUEL free_page (caches h ! i) (slab_memory h) p a = Inr (c', m', p')"
        "gpa.owns p' A' c' m' v'" "obj_size c' = obj_size (caches h ! i)" "managed p' = managed p"
        "live (obj_size (caches h ! i)) v' = live (obj_size (caches h ! i)) (vs i) - {a}"
        "pages v' \<union> A' = pages (vs i) \<union> A" "mem_eq_outside (pages (vs i)) (slab_memory h) m'"
    let ?h = "h\<lparr>page_allocator := Some p', caches := (caches h)[i := c'], slab_memory := m'\<rparr>"
    have "global_dealloc h a l = Inr ?h"
      using l p r(1) by (simp add: global_dealloc_def Let_def i_def [symmetric])
    moreover have "heap_rel ?h A' (vs(i := v')) G"
      by (rule heap_rel_step [OF rel i p r(2) _ r(4,6) mem_eq_outside_mono [OF r(7)]])
        (auto simp: r(3) own(2))
    moreover have "heap_pages A' (vs(i := v')) G = heap_pages A vs G" by (rule heap_pages_upd) (rule i, rule r(6))
    ultimately show ?thesis using r(5) unfolding own(2) by blast
  qed
qed

subsection \<open>Properties\<close>

lemma heap_alloc_rel:
  assumes "heap_rel h A vs G"
  shows "\<exists>a h' A' vs' G'. global_alloc h l = Inr (a, h') \<and> heap_rel h' A' vs' G' \<and> heap_pages A' vs' G' = heap_pages A vs G \<and>
    (if a = 0 then (lsize l > 4096 \<or> A = {}) \<and> live_blocks vs' G' = live_blocks vs G
     else lsize l \<le> block_size l \<and> unat (block_size l) dvd unat a \<and> (a, block_size l) \<notin> live_blocks vs G \<and>
       live_blocks vs' G' = insert (a, block_size l) (live_blocks vs G))"
proof (cases "lsize l > 2048")
  case True
  show ?thesis
  proof (cases "lsize l \<le> 4096")
    case False
    obtain p where "page_allocator h = Some p" using assms by (auto simp: heap_rel_def)
    with True False have "global_alloc h l = Inr (0, h)" by (simp add: global_alloc_def)
    with assms False show ?thesis by (auto simp: not_le)
  next
    case le: True
    from alloc_large [OF assms True le] show ?thesis
    proof (elim disjE exE conjE)
      assume "A = {}" "global_alloc h l = Inr (0, h)"
      with assms show ?thesis by auto
    next
      fix a h' assume a: "global_alloc h l = Inr (a, h')" "a \<noteq> 0" "4096 dvd unat a" "a \<in> A" "a \<notin> G" "heap_rel h' (A - {a}) vs (insert a G)"
      have "live_blocks vs (insert a G) = insert (a, 4096) (live_blocks vs G)" by (auto simp: live_blocks_def)
      moreover have "heap_pages (A - {a}) vs (insert a G) = heap_pages A vs G" using a(4) by (auto simp: heap_pages_def)
      ultimately show ?thesis using a True le
        by (intro exI [of _ a] exI [of _ h'] exI [of _ "A - {a}"] exI [of _ vs] exI [of _ "insert a G"])
          (simp add: block_size_def large_mem)
    qed
  qed
next
  case False
  let ?i = "cache_index (lsize l)"
  have i: "?i < 8" by (rule cache_index_less)
  have bs: "block_size l = class_size ?i" "lsize l \<le> class_size ?i"
    using False cache_index_fits [of "lsize l"] by (simp_all add: block_size_def)
  from alloc_small [OF assms False] show ?thesis
  proof (elim disjE exE conjE)
    fix h' assume "A = {}" "global_alloc h l = Inr (0, h')" "heap_rel h' A vs G"
    then show ?thesis by auto
  next
    fix a h' A' v' assume a: "global_alloc h l = Inr (a, h')" "a \<noteq> 0" "unat (class_size ?i) dvd unat a"
      "a \<notin> live (class_size ?i) (vs ?i)" "live (class_size ?i) v' = insert a (live (class_size ?i) (vs ?i))"
      "heap_rel h' A' (vs(?i := v')) G" "heap_pages A' (vs(?i := v')) G = heap_pages A vs G"
    show ?thesis
      by (intro exI [of _ a] exI [of _ h'] exI [of _ A'] exI [of _ "vs(?i := v')"] exI [of _ G])
        (use a bs live_blocks_insert [of ?i v' a vs, OF i a(5)] slab_new_mem [OF i] in simp)
  qed
qed

text \<open>
  C8: A heap allocation never panics. It returns null only if the request exceeds a page or the page
  allocator has no page left, and then no block changes hands; otherwise it returns a block that was
  not in use, provides at least the requested size, and is aligned to the size it provides, and the
  blocks in use afterwards are those in use before and this one. The heap keeps all its pages.
\<close>

theorem heap_alloc_correct:
  assumes "heap_rel h A vs G"
  shows "\<exists>a h' A' vs' G'. global_alloc h l = Inr (a, h') \<and> heap_rel h' A' vs' G' \<and> heap_pages A' vs' G' = heap_pages A vs G \<and>
    (if a = 0 then (lsize l > 4096 \<or> A = {}) \<and> live_blocks vs' G' = live_blocks vs G
     else lsize l \<le> block_size l \<and> unat (block_size l) dvd unat a \<and> (a, block_size l) \<notin> live_blocks vs G \<and>
       live_blocks vs' G' = insert (a, block_size l) (live_blocks vs G))"
  using assms by (rule heap_alloc_rel)

lemma heap_alloc_some:
  assumes "heap_rel h A vs G" "A \<noteq> {}" "lsize l \<le> 4096"
  obtains a h' A' vs' G' where "global_alloc h l = Inr (a, h')" "a \<noteq> 0" "heap_rel h' A' vs' G'"
    "heap_pages A' vs' G' = heap_pages A vs G" "(a, block_size l) \<notin> live_blocks vs G"
    "live_blocks vs' G' = insert (a, block_size l) (live_blocks vs G)"
proof -
  obtain a h' A' vs' G' where r: "global_alloc h l = Inr (a, h')" "heap_rel h' A' vs' G'" "heap_pages A' vs' G' = heap_pages A vs G"
      "if a = 0 then (lsize l > 4096 \<or> A = {}) \<and> live_blocks vs' G' = live_blocks vs G
       else lsize l \<le> block_size l \<and> unat (block_size l) dvd unat a \<and> (a, block_size l) \<notin> live_blocks vs G \<and>
         live_blocks vs' G' = insert (a, block_size l) (live_blocks vs G)"
    using heap_alloc_rel [OF assms(1), of l] by (elim exE conjE) (rule that)
  have nz: "a \<noteq> 0" using r(4) assms(2,3) by auto
  with r(4) have "(a, block_size l) \<notin> live_blocks vs G" "live_blocks vs' G' = insert (a, block_size l) (live_blocks vs G)" by simp_all
  then show thesis by (rule that [OF r(1) nz r(2,3)])
qed

lemma heap_dealloc_rel:
  assumes "heap_rel h A vs G" "(a, block_size l) \<in> live_blocks vs G"
  shows "\<exists>h' A' vs' G'. global_dealloc h a l = Inr h' \<and> heap_rel h' A' vs' G' \<and> heap_pages A' vs' G' = heap_pages A vs G \<and>
    live_blocks vs' G' = live_blocks vs G - {(a, block_size l)}"
proof (cases "lsize l > 2048")
  case True
  then have a: "a \<in> G" using assms(2) by (simp add: block_size_def large_mem)
  have "live_blocks vs (G - {a}) = live_blocks vs G - {(a, 4096)}"
    using class_size_ok by (auto simp: live_blocks_def)
  moreover have "heap_pages (insert a A) vs (G - {a}) = heap_pages A vs G" using a by (auto simp: heap_pages_def)
  ultimately show ?thesis using dealloc_large [OF assms(1) True a] True by (auto simp: block_size_def)
next
  case False
  let ?i = "cache_index (lsize l)"
  have i: "?i < 8" by (rule cache_index_less)
  have bs: "block_size l = class_size ?i" using False by (simp add: block_size_def)
  have "a \<in> live (class_size ?i) (vs ?i)" using assms(2) slab_new_mem [OF i] by (simp add: bs)
  then obtain h' A' v' where r: "global_dealloc h a l = Inr h'"
      "live (class_size ?i) v' = live (class_size ?i) (vs ?i) - {a}" "heap_rel h' A' (vs(?i := v')) G"
      "heap_pages A' (vs(?i := v')) G = heap_pages A vs G"
    using dealloc_small [OF assms(1) False] by blast
  with live_blocks_delete [of ?i v' vs a, OF i r(2)] bs show ?thesis by metis
qed

text \<open>
  C9: Releasing a block in use with the layout it was allocated with never panics and removes exactly
  that block from the blocks in use. The heap keeps all its pages.
\<close>

theorem heap_dealloc_correct:
  assumes "heap_rel h A vs G" "(a, block_size l) \<in> live_blocks vs G"
  shows "\<exists>h' A' vs' G'. global_dealloc h a l = Inr h' \<and> heap_rel h' A' vs' G' \<and> heap_pages A' vs' G' = heap_pages A vs G \<and>
    live_blocks vs' G' = live_blocks vs G - {(a, block_size l)}"
  using assms by (rule heap_dealloc_rel)

lemma page_bytes_disjoint:
  assumes "page_ok p" "page_ok q" "p \<noteq> q"
  shows "{unat p..<unat p + 4096} \<inter> {unat q..<unat q + 4096} = {}"
proof -
  obtain i j where "unat p = i * 4096" "unat q = j * 4096"
    using assms(1,2) by (metis dvd_def mult.commute page_ok_def)
  moreover from this assms(3) have "i \<noteq> j" by (auto simp: word_unat_eq_iff)
  then have "Suc i \<le> j \<or> Suc j \<le> i" by auto
  ultimately show ?thesis by auto
qed

lemma slot_bytes_disjoint:
  assumes "size_ok sz" "page_ok pg" "a \<in> slots sz pg" "b \<in> slots sz pg" "a \<noteq> b"
  shows "block_bytes (a, sz) \<inter> block_bytes (b, sz) = {}"
proof -
  obtain i j where ij: "i < slab_capacity sz" "a = slot sz pg i" "j < slab_capacity sz" "b = slot sz pg j"
    using assms(3,4) by (auto simp: slots_def)
  have step: "i' * unat sz + unat sz \<le> j' * unat sz" if "Suc i' \<le> j'" for i' j'
    using mult_le_mono1 [OF that, of "unat sz"] by simp
  have "i \<noteq> j" using assms(5) ij by auto
  then have "Suc i \<le> j \<or> Suc j \<le> i" by auto
  then show ?thesis
    using step [of i j] step [of j i] unat_slot [OF assms(1,2)] ij by (auto simp: block_bytes_def)
qed

lemma slot_bytes_page:
  assumes "size_ok sz" "page_ok pg" "a \<in> slots sz pg"
  shows "block_bytes (a, sz) \<subseteq> {unat pg..<unat pg + 4096}"
proof -
  obtain i where i: "i < slab_capacity sz" "a = slot sz pg i" using assms(3) by (auto simp: slots_def)
  show ?thesis
    using slot_end [OF i(1)] unat_slot [OF assms(1,2) i(1)] by (auto simp: block_bytes_def i(2))
qed

text \<open>Every block in use lies in one page, owned by a cache or handed out whole.\<close>

lemma live_block_page:
  assumes rel: "heap_rel h A vs G" and b: "b \<in> live_blocks vs G"
  obtains (slab) i pg where "i < 8" "pg \<in> pages (vs i)" "snd b = class_size i" "fst b \<in> slots (class_size i) pg"
      "page_ok pg" "pg \<notin> A" "block_bytes b \<subseteq> {unat pg..<unat pg + 4096}"
  | (whole) pg where "pg \<in> G" "b = (pg, 4096)" "page_ok pg" "pg \<notin> A" "block_bytes b = {unat pg..<unat pg + 4096}"
proof -
  from b consider (s) i a where "i < 8" "b = (a, class_size i)" "a \<in> live (class_size i) (vs i)"
    | (w) g where "g \<in> G" "b = (g, 4096)"
    by (auto simp: live_blocks_def)
  then show thesis
  proof cases
    case s
    then obtain pg where pg: "pg \<in> pages (vs i)" "a \<in> slots (class_size i) pg" by (auto simp: live_def)
    have "page_ok pg" "pg \<notin> A" using rel s(1) pg(1) by (auto simp: heap_rel_def cache_rel_def)
    with s pg slot_bytes_page [of "class_size i" pg a] class_size_ok [OF s(1)] show thesis
      by (intro slab [of i pg]) auto
  next
    case w
    obtain p where "provides p A" "G \<subseteq> managed p" "G \<inter> A = {}" using rel by (auto simp: heap_rel_def)
    with w gpa.managed_ok [of p A g] show thesis by (intro whole [of g]) (auto simp: block_bytes_def)
  qed
qed

lemma live_blocks_apart:
  assumes rel: "heap_rel h A vs G" and b: "b \<in> live_blocks vs G" "b' \<in> live_blocks vs G" "b' \<noteq> b"
  shows "block_bytes b \<inter> block_bytes b' = {}"
proof -
  have far: "block_bytes b \<inter> block_bytes b' = {}" if "page_ok p" "page_ok q" "p \<noteq> q"
      "block_bytes b \<subseteq> {unat p..<unat p + 4096}" "block_bytes b' \<subseteq> {unat q..<unat q + 4096}" for p q
    using page_bytes_disjoint [OF that(1-3)] that(4,5) by blast
  have sep: "pages (vs i) \<inter> G = {}" "j < 8 \<Longrightarrow> i \<noteq> j \<Longrightarrow> pages (vs i) \<inter> pages (vs j) = {}" if "i < 8" for i j
    using rel that by (auto simp: heap_rel_def)
  from rel b(1) show ?thesis
  proof (cases rule: live_block_page)
    case p: (slab i pg)
    from rel b(2) show ?thesis
    proof (cases rule: live_block_page)
      case q: (slab j pg')
      show ?thesis
      proof (cases "pg = pg'")
        case True
        then have "i = j" using sep(2) [OF p(1) q(1)] p(2) q(2) by blast
        then have "fst b \<noteq> fst b'" using b(3) p(3) q(3) by (auto simp: prod_eq_iff)
        then have "block_bytes (fst b, class_size i) \<inter> block_bytes (fst b', class_size i) = {}"
          using slot_bytes_disjoint [of "class_size i" pg "fst b" "fst b'"] class_size_ok [OF p(1)] p(4,5) q(4)
            True \<open>i = j\<close> by blast
        then show ?thesis using p(3) q(3) \<open>i = j\<close> by (metis prod.collapse)
      next
        case False
        show ?thesis by (rule far [OF p(5) q(5) False p(7) q(7)])
      qed
    next
      case q: (whole pg')
      have "pg \<noteq> pg'" using sep(1) [OF p(1)] p(2) q(1) by blast
      then show ?thesis using far [OF p(5) q(3) _ p(7)] q(5) by simp
    qed
  next
    case p: (whole pg)
    from rel b(2) show ?thesis
    proof (cases rule: live_block_page)
      case q: (slab j pg')
      have "pg \<noteq> pg'" using sep(1) [OF q(1)] q(2) p(1) by blast
      then show ?thesis using far [OF p(3) q(5) _ _ q(7)] p(5) by simp
    next
      case q: (whole pg')
      have "pg \<noteq> pg'" using b(3) p(2) q(2) by auto
      then show ?thesis using far [OF p(3) q(3)] p(5) q(5) by simp
    qed
  qed
qed

lemma live_block_free_page:
  assumes "heap_rel h A vs G" "b \<in> live_blocks vs G" "pg \<in> A"
  shows "block_bytes b \<inter> {unat pg..<unat pg + 4096} = {}"
proof -
  obtain p where "provides p A" using assms(1) by (auto simp: heap_rel_def)
  then have "page_ok pg" using gpa.available_managed gpa.managed_ok assms(3) by blast
  from assms(1,2) show ?thesis
    by (cases rule: live_block_page) (use page_bytes_disjoint \<open>page_ok pg\<close> assms(3) in blast)+
qed

text \<open>
  Memory safety of the heap: the bytes of a newly returned block belong to no block in use, and to no
  page the page allocator could hand out again.
\<close>

lemma heap_alloc_fresh:
  assumes "heap_rel h A vs G" "global_alloc h l = Inr (a, h')" "a \<noteq> 0"
  shows "\<exists>A' vs' G'. heap_rel h' A' vs' G' \<and>
    (\<forall>b\<in>live_blocks vs G. block_bytes (a, block_size l) \<inter> block_bytes b = {}) \<and>
    (\<forall>pg\<in>A'. block_bytes (a, block_size l) \<inter> {unat pg..<unat pg + 4096} = {})"
proof -
  let ?b = "(a, block_size l)"
  obtain A' vs' G' where r: "heap_rel h' A' vs' G'" "?b \<notin> live_blocks vs G"
      "live_blocks vs' G' = insert ?b (live_blocks vs G)"
    using heap_alloc_rel [OF assms(1), of l] assms(2,3) by auto
  have "block_bytes ?b \<inter> block_bytes b = {}" if "b \<in> live_blocks vs G" for b
    using live_blocks_apart [OF r(1), of ?b b] r(2,3) that by blast
  moreover have "block_bytes ?b \<inter> {unat pg..<unat pg + 4096} = {}" if "pg \<in> A'" for pg
    using live_block_free_page [OF r(1) _ that, of ?b] r(3) by blast
  ultimately show ?thesis using r(1) by blast
qed

text \<open>
  C24: The alignment of the layout is not looked at: a request of at most 16 bytes that opens a new slab
  is answered with an address that is 32 modulo 64, so it violates every alignment of 64 or more.
\<close>

theorem heap_alloc_misaligned:
  assumes "heap_rel h A vs G" "plist (vs 0) = []" "A \<noteq> {}" "lsize l \<le> 16"
  shows "\<exists>a h'. global_alloc h l = Inr (a, h') \<and> a \<noteq> 0 \<and> unat a mod 64 = 32"
proof -
  obtain p where p: "page_allocator h = Some p" "provides p A" using assms(1) by (auto simp: heap_rel_def)
  let ?c = "caches h ! 0"
  have c: "cache_rel ?c (slab_memory h) (vs 0)" "obj_size ?c = 16" "pages (vs 0) \<inter> A = {}"
    using assms(1) class_size_simps(1) by (auto simp: heap_rel_def)
  obtain pg p' where pg: "alloc_page p = Inr (Some pg, p')" "pg \<in> A"
    using gpa.alloc_page_some [OF p(2) assms(3)] by blast
  have ok: "page_ok pg" "pg \<notin> pages (vs 0)"
    using gpa.available_managed [OF p(2)] gpa.managed_ok [OF p(2)] pg(2) c(3) by blast+
  obtain a c' m' where a: "new_slab alloc_page ?c (slab_memory h) p = Inr (Some a, c', m', p')" "a = slot 16 pg 0"
    using new_slab_ok [where alloc_page = alloc_page, OF c(1) assms(2) ok pg(1)] c(2) by auto
  have "partial_head ?c = None" using c(1) assms(2) by (simp add: cache_rel_def)
  then have "scache_alloc HEAP_FUEL alloc_page ?c (slab_memory h) p = Inr (Some a, c', m', p')"
    using a(1) by (simp add: HEAP_FUEL_def)
  moreover have "cache_index (lsize l) = 0" "\<not> lsize l > 2048"
    using assms(4) by (simp_all add: cache_index_def word_le_nat_alt word_less_nat_alt)
  ultimately have "global_alloc h l = Inr (a, h\<lparr>page_allocator := Some p', caches := (caches h)[0 := c'], slab_memory := m'\<rparr>)"
    using p(1) by (simp add: global_alloc_def)
  moreover have "unat a = unat pg + 32"
    using unat_slot [of 16 pg 0] ok(1) by (simp add: a(2) size_ok_def slab_capacity_def slot_offset_def round_up_def)
  moreover obtain k where "unat pg = 4096 * k" using ok(1) by (auto simp: page_ok_def dvd_def)
  moreover have "(4096 * k + 32) mod 64 = 32" by presburger
  ultimately show ?thesis by (intro exI [of _ a]) (auto simp: word_unat_eq_iff)
qed

subsection \<open>The initial heap\<close>

definition empty_view :: slab_view where
  "empty_view = \<lparr>pages = {}, frees = (\<lambda>_. []), plist = []\<rparr>"

lemma heap_rel_new:
  assumes "provides p A"
  shows "heap_rel \<lparr>page_allocator = Some p, caches = slub_allocator_new, slab_memory = m\<rparr> A (\<lambda>_. empty_view) {}"
proof -
  have "obj_size (slub_allocator_new ! i) = class_size i \<and> cache_rel (slub_allocator_new ! i) m empty_view" if "i < 8" for i
    using that
    by (elim less_8_cases) (simp_all add: slub_allocator_new_def scache_new_def cache_rel_def empty_view_def size_ok_def)
  then show ?thesis using assms by (simp add: heap_rel_def slub_allocator_new_def empty_view_def)
qed

lemma live_blocks_empty: "live_blocks (\<lambda>_. empty_view) {} = {}"
  by (simp add: live_blocks_def live_def empty_view_def)

text \<open>Handing frames to the heap one after the other.\<close>

fun heap_add_frames :: "heap \<Rightarrow> u64 list \<Rightarrow> heap outcome" where
  "heap_add_frames h [] = Inr h"
| "heap_add_frames h (a # as) = and_then (heap_add_frame h a) (\<lambda>h. heap_add_frames h as)"

lemma heap_add_frames_eq:
  assumes "page_allocator h = Some p"
  shows "heap_add_frames h as =
    and_then (add_frames (frame_allocator p) as) (\<lambda>b. Inr (h\<lparr>page_allocator := Some (p\<lparr>frame_allocator := b\<rparr>)\<rparr>))"
  using assms
proof (induction as arbitrary: h p)
  case Nil
  then show ?case by simp
next
  case (Cons a as)
  then show ?case by (cases "add_frame (frame_allocator p) a") (simp_all add: heap_add_frame_def)
qed

text \<open>
  Heap initialisation: with the physical memory mapped at a page-aligned, non-zero offset,
  \<open>init_heap\<close> followed by \<open>add_frame\<close> for distinct pages never panics and yields a heap with no block
  in use whose page allocator holds exactly the given pages inside the managed window.
\<close>

lemma heap_init_correct:
  assumes "window_ok off" "off \<noteq> 0" "4096 dvd unat off" "distinct ps" "\<forall>p\<in>set ps. unat off + p * PAGE_SIZE < 2 ^ 64"
  shows "\<exists>h. heap_add_frames
      (init_heap (\<lambda>_. 0) mem \<lparr>page_allocator = None, caches = slub_allocator_new, slab_memory = m\<rparr> off)
      (map (page_addr off) ps) = Inr h \<and>
    heap_rel h (page_addr off ` (set ps \<inter> {..<MAX_PAGES})) (\<lambda>_. empty_view) {} \<and>
    live_blocks (\<lambda>_. empty_view) {} = {} \<and> (\<exists>p. page_allocator h = Some p \<and> offset (frame_allocator p) = off)"
proof -
  let ?b = "set_offset (buddy_new (\<lambda>_. 0) mem) off"
  have off: "offset ?b = off" by (simp add: set_offset_def)
  obtain b L where b: "add_frames ?b (map (page_addr off) ps) = Inr b" "buddy_rel b L" "offset b = off"
      "free_pages L = set ps \<inter> {..<MAX_PAGES}"
    using add_frames_rel [OF buddy_rel_new [OF assms(1), of mem], of ps] assms(2,4,5) off by auto
  have "provides \<lparr>frame_allocator = b\<rparr> (page_addr off ` (set ps \<inter> {..<MAX_PAGES}))"
    unfolding provides_def by (intro exI [of _ L]) (use b assms in simp)
  note heap_rel_new [OF this, of m]
  moreover have "heap_add_frames
      (init_heap (\<lambda>_. 0) mem \<lparr>page_allocator = None, caches = slub_allocator_new, slab_memory = m\<rparr> off)
      (map (page_addr off) ps) =
    Inr \<lparr>page_allocator = Some \<lparr>frame_allocator = b\<rparr>, caches = slub_allocator_new, slab_memory = m\<rparr>"
    using b(1) by (simp add: init_heap_def heap_add_frames_eq)
  ultimately show ?thesis using live_blocks_empty b(3) by auto
qed

subsection \<open>A concrete heap\<close>

definition demo_heap :: heap where
  "demo_heap = \<lparr>page_allocator = Some \<lparr>frame_allocator = demo_buddy\<rparr>, caches = slub_allocator_new,
     slab_memory = \<lparr>headers = (\<lambda>_. \<lparr>next_slab = None, freelist = None, in_use = 0\<rparr>), objects = (\<lambda>_. None)\<rparr>\<rparr>"

definition demo_pages :: "u64 set" where
  "demo_pages = page_addr 0x1000 ` {..<2048}"

lemma demo_heap_rel: "heap_rel demo_heap demo_pages (\<lambda>_. empty_view) {}"
proof -
  have "provides \<lparr>frame_allocator = demo_buddy\<rparr> demo_pages"
    unfolding provides_def
    by (intro exI [of _ demo_lists]) (simp add: demo_buddy_rel demo_pages_def demo_free_pages, simp add: demo_buddy_def)
  from heap_rel_new [OF this] show ?thesis by (simp add: demo_heap_def)
qed

lemma demo_pages_nonempty: "demo_pages \<noteq> {}"
  by (auto simp: demo_pages_def lessThan_empty_iff)

text \<open>The demonstration heap after its first allocation of 100 bytes.\<close>

lemma demo_heap_first:
  obtains a h A vs G where "global_alloc demo_heap \<lparr>lsize = 100, lalign = 8\<rparr> = Inr (a, h)" "heap_rel h A vs G"
    "live_blocks vs G = {(a, 128)}"
proof -
  have ci: "cache_index 100 = 3" by (simp add: cache_index_def)
  from alloc_small [OF demo_heap_rel, of "\<lparr>lsize = 100, lalign = 8\<rparr>"] demo_pages_nonempty obtain a h A v where
      r: "global_alloc demo_heap \<lparr>lsize = 100, lalign = 8\<rparr> = Inr (a, h)"
        "live (class_size 3) v = insert a (live (class_size 3) empty_view)"
        "heap_rel h A ((\<lambda>_. empty_view)(3 := v)) {}"
    by (auto simp: ci)
  have "live_blocks ((\<lambda>_. empty_view)(3 := v)) {} = {(a, 128)}"
    using live_blocks_insert [of 3 v a "\<lambda>_. empty_view" "{}"] r(2) by (simp add: live_blocks_empty)
  with r(1,3) that show thesis by blast
qed

theorem heap_alloc_correct_witness:
  "\<exists>a h' A' vs' G'. global_alloc demo_heap \<lparr>lsize = 100, lalign = 8\<rparr> = Inr (a, h') \<and> heap_rel h' A' vs' G' \<and>
    (if a = 0 then False else 128 dvd unat a \<and> live_blocks vs' G' = {(a, 128)})"
proof -
  have bs: "block_size \<lparr>lsize = 100, lalign = 8\<rparr> = 128" by (simp add: block_size_def cache_index_def)
  show ?thesis
    using heap_alloc_correct [OF demo_heap_rel, of "\<lparr>lsize = 100, lalign = 8\<rparr>"] demo_pages_nonempty
    unfolding bs live_blocks_empty by (auto split: if_splits)
qed

theorem heap_dealloc_correct_witness:
  "\<exists>a h h' A' vs' G'. global_alloc demo_heap \<lparr>lsize = 100, lalign = 8\<rparr> = Inr (a, h) \<and>
    global_dealloc h a \<lparr>lsize = 100, lalign = 8\<rparr> = Inr h' \<and> heap_rel h' A' vs' G' \<and> live_blocks vs' G' = {}"
proof -
  have bs: "block_size \<lparr>lsize = 100, lalign = 8\<rparr> = 128" by (simp add: block_size_def cache_index_def)
  obtain a h A vs G where r: "global_alloc demo_heap \<lparr>lsize = 100, lalign = 8\<rparr> = Inr (a, h)" "heap_rel h A vs G"
      "live_blocks vs G = {(a, 128)}"
    by (rule demo_heap_first)
  with heap_dealloc_correct [OF r(2), of a "\<lparr>lsize = 100, lalign = 8\<rparr>"] show ?thesis
    unfolding bs by auto
qed

text \<open>A page, then a small block in the demonstration heap: the new block avoids the page.\<close>

theorem heap_alloc_misaligned_witness:
  "\<exists>a h'. global_alloc demo_heap \<lparr>lsize = 8, lalign = 64\<rparr> = Inr (a, h') \<and> a \<noteq> 0 \<and> unat a mod 64 = 32"
  using heap_alloc_misaligned [OF demo_heap_rel _ demo_pages_nonempty, of "\<lparr>lsize = 8, lalign = 64\<rparr>"]
  by (simp add: empty_view_def)

end
