(* ===== verification/Scheduler.thy ===== *)
theory Scheduler
  imports Prelude
begin

text \<open>
  Tasks and the round-robin scheduler: \<^verbatim>\<open>kernel/src/tasks/task.rs\<close> (contexts, task states, tasks)
  and \<^verbatim>\<open>kernel/src/tasks/scheduler.rs\<close>. The raw context pointers that \<open>schedule\<close> returns are
  indices into the task list. A task's kernel stack is the address of its box.
\<close>

record task_context =
  c_r15 :: u64
  c_r14 :: u64
  c_r13 :: u64
  c_r12 :: u64
  c_r11 :: u64
  c_r10 :: u64
  c_r9 :: u64
  c_r8 :: u64
  c_rbp :: u64
  c_rdi :: u64
  c_rsi :: u64
  c_rdx :: u64
  c_rcx :: u64
  c_rbx :: u64
  c_rax :: u64
  c_rip :: u64
  c_cs :: u64
  c_rflags :: u64
  c_rsp :: u64
  c_ss :: u64

datatype task_state = Ready | Running | Blocked

record task =
  tid :: u64
  tstate :: task_state
  tcontext :: task_context
  kernel_stack :: u64

record scheduler =
  tasks :: "task list"
  current :: nat
  initialized :: bool

definition KERNEL_STACK_SIZE :: u64 where "KERNEL_STACK_SIZE = 4096"

text \<open>\<open>new_user\<close>; the selectors come from the descriptor table.\<close>

definition new_user :: "u16 \<Rightarrow> u16 \<Rightarrow> u64 \<Rightarrow> u64 \<Rightarrow> task_context" where
  "new_user user_code_sel user_data_sel entry_point user_stack_top =
     \<lparr>c_r15 = 0, c_r14 = 0, c_r13 = 0, c_r12 = 0, c_r11 = 0, c_r10 = 0, c_r9 = 0, c_r8 = 0, c_rbp = 0,
      c_rdi = 0, c_rsi = 0, c_rdx = 0, c_rcx = 0, c_rbx = 0, c_rax = 0,
      c_rip = entry_point, c_cs = ucast (user_code_sel OR 3), c_rflags = 0x200, c_rsp = user_stack_top,
      c_ss = ucast (user_data_sel OR 3)\<rparr>"

definition kernel_stack_top :: "task \<Rightarrow> u64 outcome" where
  "kernel_stack_top t = u64_add (kernel_stack t) KERNEL_STACK_SIZE"

definition scheduler_new :: scheduler where
  "scheduler_new = \<lparr>tasks = [], current = 0, initialized = False\<rparr>"

definition add_task :: "scheduler \<Rightarrow> task \<Rightarrow> scheduler" where
  "add_task s t = s\<lparr>tasks := tasks s @ [t]\<rparr>"

definition task_count :: "scheduler \<Rightarrow> nat" where
  "task_count s = length (tasks s)"

definition start :: "scheduler \<Rightarrow> scheduler" where
  "start s =
     (if tasks s \<noteq> [] then s\<lparr>tasks := (tasks s)[0 := (tasks s ! 0)\<lparr>tstate := Running\<rparr>], initialized := True\<rparr>
      else s)"

definition is_initialized :: "scheduler \<Rightarrow> bool" where
  "is_initialized s = initialized s"

text \<open>Indexing \<^verbatim>\<open>self.tasks[i]\<close> panics out of range.\<close>

definition task_at :: "scheduler \<Rightarrow> nat \<Rightarrow> task outcome" where
  "task_at s i = (if i < length (tasks s) then Inr (tasks s ! i) else Inl IndexOutOfBounds)"

definition current_context :: "scheduler \<Rightarrow> task_context option outcome" where
  "current_context s =
     (if tasks s = [] then Inr None
      else and_then (task_at s (current s)) (\<lambda>t. Inr (Some (tcontext t))))"

definition current_kernel_stack_top :: "scheduler \<Rightarrow> u64 option outcome" where
  "current_kernel_stack_top s =
     (if tasks s = [] then Inr None
      else and_then (task_at s (current s)) (\<lambda>t. and_then (kernel_stack_top t) (\<lambda>top. Inr (Some top))))"

definition current_task_id :: "scheduler \<Rightarrow> u64 option outcome" where
  "current_task_id s =
     (if tasks s = [] then Inr None
      else and_then (task_at s (current s)) (\<lambda>t. Inr (Some (tid t))))"

definition set_state :: "scheduler \<Rightarrow> nat \<Rightarrow> task_state \<Rightarrow> scheduler outcome" where
  "set_state s i st = and_then (task_at s i) (\<lambda>t. Inr (s\<lparr>tasks := (tasks s)[i := t\<lparr>tstate := st\<rparr>]\<rparr>))"

definition schedule :: "scheduler \<Rightarrow> ((nat \<times> nat \<times> u64) option \<times> scheduler) outcome" where
  "schedule s =
     (if length (tasks s) < 2 then Inr (None, s)
      else
        and_then (set_state s (current s) Ready) (\<lambda>s1.
        let old = current s1;
            s2 = s1\<lparr>current := (current s1 + 1) mod length (tasks s1)\<rparr>
        in and_then (set_state s2 (current s2) Running) (\<lambda>s3.
           and_then (task_at s3 (current s3)) (\<lambda>t.
           and_then (kernel_stack_top t) (\<lambda>top.
           Inr (Some (old, current s3, top), s3))))))"

text \<open>Writing a context through the pointer returned by \<open>schedule\<close>.\<close>

definition set_context :: "scheduler \<Rightarrow> nat \<Rightarrow> task_context \<Rightarrow> scheduler" where
  "set_context s i ctx = s\<lparr>tasks := (tasks s)[i := (tasks s ! i)\<lparr>tcontext := ctx\<rparr>]\<rparr>"

subsection \<open>The scheduler's invariant\<close>

text \<open>
  The current index is valid as soon as there is a task; once started, the current task is the only
  running one, before that none is.
\<close>

definition sched_inv :: "scheduler \<Rightarrow> bool" where
  "sched_inv s \<longleftrightarrow> (tasks s = [] \<longrightarrow> current s = 0 \<and> \<not> initialized s) \<and> (tasks s \<noteq> [] \<longrightarrow> current s < length (tasks s)) \<and>
     (\<not> initialized s \<longrightarrow> current s = 0) \<and>
     (\<forall>i < length (tasks s). tstate (tasks s ! i) = Running \<longleftrightarrow> initialized s \<and> i = current s)"

definition stacks_ok :: "scheduler \<Rightarrow> bool" where
  "stacks_ok s \<longleftrightarrow> (\<forall>t\<in>set (tasks s). unat (kernel_stack t) + 4096 < 2 ^ 64)"

text \<open>The steps a scheduler takes, as the kernel drives it: tasks arrive ready, it is started once.\<close>

inductive sched_step :: "scheduler \<Rightarrow> scheduler \<Rightarrow> bool" where
  Add: "tstate t \<noteq> Running \<Longrightarrow> unat (kernel_stack t) + 4096 < 2 ^ 64 \<Longrightarrow> sched_step s (add_task s t)"
| Start: "\<not> initialized s \<Longrightarrow> sched_step s (start s)"
| Schedule: "initialized s \<Longrightarrow> schedule s = Inr (r, s') \<Longrightarrow> sched_step s s'"
| Save: "i < length (tasks s) \<Longrightarrow> sched_step s (set_context s i ctx)"

inductive reachable :: "scheduler \<Rightarrow> bool" where
  New: "reachable scheduler_new"
| Step: "reachable s \<Longrightarrow> sched_step s s' \<Longrightarrow> reachable s'"

lemma nth_append_last: "i < length xs \<or> i = length xs \<Longrightarrow> (xs @ [x]) ! i = (if i < length xs then xs ! i else x)"
  by (auto simp: nth_append)

lemma sched_inv_new: "sched_inv scheduler_new"
  by (simp add: sched_inv_def scheduler_new_def)

lemma sched_inv_add: "sched_inv s \<Longrightarrow> tstate t \<noteq> Running \<Longrightarrow> sched_inv (add_task s t)"
  by (auto simp: sched_inv_def add_task_def less_Suc_eq nth_append_last)

lemma sched_inv_start: "sched_inv s \<Longrightarrow> \<not> initialized s \<Longrightarrow> sched_inv (start s)"
  by (auto simp: sched_inv_def start_def nth_list_update)

lemma sched_inv_context: "sched_inv s \<Longrightarrow> sched_inv (set_context s i ctx)"
  by (cases "i < length (tasks s)") (auto simp: sched_inv_def set_context_def nth_list_update)

text \<open>One call of \<open>schedule\<close> with at least two tasks.\<close>

lemma schedule_run:
  assumes "2 \<le> length (tasks s)" "current s < length (tasks s)" "stacks_ok s"
  defines "nxt \<equiv> (current s + 1) mod length (tasks s)"
  shows "\<exists>top s'. schedule s = Inr (Some (current s, nxt, top), s') \<and> nxt \<noteq> current s \<and> nxt < length (tasks s) \<and>
    kernel_stack_top (tasks s ! nxt) = Inr top \<and> current s' = nxt \<and> initialized s' = initialized s \<and>
    tasks s' = (tasks s)[current s := (tasks s ! current s)\<lparr>tstate := Ready\<rparr>, nxt := (tasks s ! nxt)\<lparr>tstate := Running\<rparr>]"
proof -
  let ?n = "length (tasks s)" and ?c = "current s"
  have nx: "Suc ?c mod ?n = nxt" by (simp add: nxt_def)
  have n: "nxt < ?n" using assms(1) unfolding nxt_def by (intro mod_less_divisor) linarith
  have ne: "nxt \<noteq> ?c"
    using assms(1,2) unfolding nxt_def by (cases "?c + 1 < ?n") (auto simp: mod_if)
  have "unat (kernel_stack (tasks s ! nxt)) + 4096 < 2 ^ 64"
    using assms(3) n by (simp add: stacks_ok_def)
  then have top: "kernel_stack_top (tasks s ! nxt) = Inr (kernel_stack (tasks s ! nxt) + KERNEL_STACK_SIZE)"
    by (simp add: kernel_stack_top_def u64_add_def KERNEL_STACK_SIZE_def)
  show ?thesis
    using assms(1,2) n ne top
    by (simp add: schedule_def set_state_def task_at_def Let_def nx kernel_stack_top_def)
qed

lemma sched_inv_schedule:
  assumes "sched_inv s" "stacks_ok s" "initialized s" "schedule s = Inr (r, s')"
  shows "sched_inv s'"
proof (cases "length (tasks s) < 2")
  case True
  then show ?thesis using assms(1,4) by (simp add: schedule_def)
next
  case False
  then have two: "2 \<le> length (tasks s)" by simp
  then have c: "current s < length (tasks s)" using assms(1) by (auto simp: sched_inv_def)
  let ?n = "(current s + 1) mod length (tasks s)"
  have s': "?n \<noteq> current s" "?n < length (tasks s)" "current s' = ?n" "initialized s'"
      "tasks s' = (tasks s)[current s := (tasks s ! current s)\<lparr>tstate := Ready\<rparr>, ?n := (tasks s ! ?n)\<lparr>tstate := Running\<rparr>]"
    using schedule_run [OF two c assms(2)] assms(3,4) by auto
  have "tstate (tasks s' ! i) = Running \<longleftrightarrow> i = ?n" if "i < length (tasks s)" for i
    using assms(1,3) s'(1,2) that unfolding s'(5) by (auto simp: sched_inv_def nth_list_update)
  moreover have "length (tasks s') = length (tasks s)" by (simp add: s'(5))
  ultimately show ?thesis using s'(2-4) two by (auto simp: sched_inv_def)
qed

lemma stacks_ok_schedule:
  assumes "stacks_ok s" "schedule s = Inr (r, s')"
  shows "stacks_ok s'"
proof -
  have st: "map kernel_stack (tasks s2) = map kernel_stack (tasks s1)" if "set_state s1 i st = Inr s2" for s1 s2 i st
    using that by (auto simp: set_state_def task_at_def nth_list_update split: if_splits intro!: nth_equalityI)
  have "map kernel_stack (tasks s') = map kernel_stack (tasks s)"
  proof (cases "length (tasks s) < 2")
    case True
    then show ?thesis using assms(2) by (simp add: schedule_def)
  next
    case False
    then obtain s1 s2 where "set_state s (current s) Ready = Inr s1"
        "set_state (s1\<lparr>current := (current s1 + 1) mod length (tasks s1)\<rparr>) ((current s1 + 1) mod length (tasks s1)) Running = Inr s2"
        "s2 = s'"
      using assms(2) by (auto simp: schedule_def Let_def and_then_eq_Inr)
    then show ?thesis using st by fastforce
  qed
  then have "set (map kernel_stack (tasks s')) = set (map kernel_stack (tasks s))" by simp
  then have "kernel_stack ` set (tasks s') = kernel_stack ` set (tasks s)" by simp
  then show ?thesis
    using assms(1) unfolding stacks_ok_def by (metis (no_types, lifting) imageE image_eqI)
qed

lemma reachable_inv: "reachable s \<Longrightarrow> sched_inv s \<and> stacks_ok s"
proof (induction rule: reachable.induct)
  case New
  show ?case using sched_inv_new by (simp add: stacks_ok_def scheduler_new_def)
next
  case (Step s s')
  from Step.hyps(2) show ?case
  proof (cases rule: sched_step.cases)
    case (Add t)
    then show ?thesis using Step.IH sched_inv_add by (auto simp: stacks_ok_def add_task_def)
  next
    case Start
    have "stacks_ok (start s)"
      using Step.IH by (cases "tasks s") (auto simp: stacks_ok_def start_def)
    then show ?thesis using Start Step.IH sched_inv_start by auto
  next
    case (Schedule r)
    then show ?thesis using Step.IH sched_inv_schedule stacks_ok_schedule by blast
  next
    case (Save i ctx)
    have "stacks_ok (set_context s i ctx)"
      using Step.IH Save(2) by (simp add: stacks_ok_def set_context_def all_set_conv_all_nth nth_list_update)
    then show ?thesis using Save Step.IH sched_inv_context by auto
  qed
qed

end
