(* ===== verification/Gdt.thy ===== *)
theory Gdt
  imports Prelude
begin

text \<open>
  Segmentation, \<^verbatim>\<open>kernel/src/gdt.rs\<close>: the task state segment with its interrupt stacks, the descriptor
  table and the selectors it hands out. The table itself is the x86_64 crate's: \<open>append\<close> is an
  argument, with what its documentation promises as \<open>gdt_laws\<close>. The addresses of the static stacks
  are arguments, as is the crate's \<open>VirtAddr::new\<close>.
\<close>

definition STACK_SIZE :: u64 where "STACK_SIZE = 4096 * 5"

definition DOUBLE_FAULT_IST_INDEX :: u16 where "DOUBLE_FAULT_IST_INDEX = 0"
definition PAGE_FAULT_IST_INDEX :: u16 where "PAGE_FAULT_IST_INDEX = 1"
definition GENERAL_PROTECTION_FAULT_IST_INDEX :: u16 where "GENERAL_PROTECTION_FAULT_IST_INDEX = 2"

record tss =
  interrupt_stack_table :: "u64 list"
  privilege_stack_table :: "u64 list"

definition stack_end :: "(u64 \<Rightarrow> u64 outcome) \<Rightarrow> u64 \<Rightarrow> u64 outcome" where
  "stack_end virt_new stack =
     and_then (virt_new stack) (\<lambda>stack_start.
     and_then (u64_add stack_start STACK_SIZE) virt_new)"

definition build_tss :: "(u64 \<Rightarrow> u64 outcome) \<Rightarrow> u64 \<Rightarrow> u64 \<Rightarrow> u64 \<Rightarrow> u64 \<Rightarrow> tss outcome" where
  "build_tss virt_new df_stack pf_stack gp_stack kernel_stack =
     (let t = \<lparr>interrupt_stack_table = replicate 7 0, privilege_stack_table = replicate 3 0\<rparr>
      in and_then (stack_end virt_new df_stack) (\<lambda>e.
         let t = t\<lparr>interrupt_stack_table := (interrupt_stack_table t)[unat DOUBLE_FAULT_IST_INDEX := e]\<rparr>
         in and_then (stack_end virt_new pf_stack) (\<lambda>e.
            let t = t\<lparr>interrupt_stack_table := (interrupt_stack_table t)[unat PAGE_FAULT_IST_INDEX := e]\<rparr>
            in and_then (stack_end virt_new gp_stack) (\<lambda>e.
               let t = t\<lparr>interrupt_stack_table := (interrupt_stack_table t)[unat GENERAL_PROTECTION_FAULT_IST_INDEX := e]\<rparr>
               in and_then (stack_end virt_new kernel_stack) (\<lambda>e.
                  Inr (t\<lparr>privilege_stack_table := (privilege_stack_table t)[0 := e]\<rparr>))))))"

datatype descriptor = KernelCode | KernelData | UserData | UserCode | TssSegment tss

record selectors =
  sel_code :: u16
  sel_data :: u16
  sel_user_code :: u16
  sel_user_data :: u16
  sel_tss :: u16

definition build_gdt :: "('g \<Rightarrow> descriptor \<Rightarrow> (u16 \<times> 'g) outcome) \<Rightarrow> 'g \<Rightarrow> tss \<Rightarrow> ('g \<times> selectors) outcome" where
  "build_gdt gdt_append gdt t =
     and_then (gdt_append gdt KernelCode) (\<lambda>(code, gdt).
     and_then (gdt_append gdt KernelData) (\<lambda>(data, gdt).
     and_then (gdt_append gdt UserData) (\<lambda>(user_data, gdt).
     and_then (gdt_append gdt UserCode) (\<lambda>(user_code, gdt).
     and_then (gdt_append gdt (TssSegment t)) (\<lambda>(tss_sel, gdt).
     Inr (gdt, \<lparr>sel_code = code, sel_data = data, sel_user_code = user_code, sel_user_data = user_data,
                sel_tss = tss_sel\<rparr>))))))"

text \<open>The registers \<open>init\<close> loads.\<close>

record 'g seg_regs =
  gdtr :: "'g option"
  reg_cs :: u16
  reg_ss :: u16
  reg_ds :: u16
  task_register :: u16

definition gdt_init :: "'g \<times> selectors \<Rightarrow> 'g seg_regs \<Rightarrow> 'g seg_regs" where
  "gdt_init g r =
     r\<lparr>gdtr := Some (fst g), reg_cs := sel_code (snd g), reg_ss := sel_data (snd g), reg_ds := sel_data (snd g),
       task_register := sel_tss (snd g)\<rparr>"

subsection \<open>What the crate's table does\<close>

fun slots_of :: "descriptor \<Rightarrow> nat" where
  "slots_of (TssSegment t) = 2"
| "slots_of d = 1"

fun privilege :: "descriptor \<Rightarrow> u16" where
  "privilege UserData = 3"
| "privilege UserCode = 3"
| "privilege d = 0"

text \<open>
  \<open>append\<close> puts a descriptor into the next free slots of a table with room for eight, of which the
  first is the null descriptor, and returns the selector made of the slot's index and the privilege level.
\<close>

definition gdt_laws :: "('g \<Rightarrow> descriptor \<Rightarrow> (u16 \<times> 'g) outcome) \<Rightarrow> ('g \<Rightarrow> nat) \<Rightarrow> 'g \<Rightarrow> bool" where
  "gdt_laws gdt_append used gdt_new \<longleftrightarrow> used gdt_new = 1 \<and>
     (\<forall>g d. used g + slots_of d \<le> 8 \<longrightarrow>
        (\<exists>g'. gdt_append g d = Inr (of_nat (8 * used g) OR privilege d, g') \<and> used g' = used g + slots_of d))"

text \<open>\<open>VirtAddr::new\<close> accepts canonical addresses unchanged and panics on others.\<close>

definition canonical :: "u64 \<Rightarrow> bool" where
  "canonical a \<longleftrightarrow> unat a < 2 ^ 47 \<or> 2 ^ 64 - 2 ^ 47 \<le> unat a"

definition virt_laws :: "(u64 \<Rightarrow> u64 outcome) \<Rightarrow> bool" where
  "virt_laws virt_new \<longleftrightarrow> (\<forall>a. canonical a \<longrightarrow> virt_new a = Inr a)"

lemma build_gdt_run:
  assumes laws: "gdt_laws gdt_append used gdt_new"
  obtains g where "build_gdt gdt_append gdt_new t =
    Inr (g, \<lparr>sel_code = 0x08, sel_data = 0x10, sel_user_code = 0x23, sel_user_data = 0x1B, sel_tss = 0x28\<rparr>)"
proof -
  have step: "\<exists>g'. gdt_append g d = Inr (of_nat (8 * used g) OR privilege d, g') \<and> used g' = used g + slots_of d"
    if "used g + slots_of d \<le> 8" for g d
    using laws that by (simp add: gdt_laws_def)
  have 0: "used gdt_new = 1" using laws by (simp add: gdt_laws_def)
  obtain g1 where 1: "gdt_append gdt_new KernelCode = Inr (8, g1)" "used g1 = 2" using step [of gdt_new KernelCode] 0 by auto
  obtain g2 where 2: "gdt_append g1 KernelData = Inr (16, g2)" "used g2 = 3" using step [of g1 KernelData] 1 by auto
  obtain g3 where 3: "gdt_append g2 UserData = Inr (27, g3)" "used g3 = 4" using step [of g2 UserData] 2 by auto
  obtain g4 where 4: "gdt_append g3 UserCode = Inr (35, g4)" "used g4 = 5" using step [of g3 UserCode] 3 by auto
  obtain g5 where 5: "gdt_append g4 (TssSegment t) = Inr (40, g5)" using step [of g4 "TssSegment t"] 4 by auto
  show thesis
    by (rule that [of g5]) (simp add: build_gdt_def 1(1) 2(1) 3(1) 4(1) 5)
qed

text \<open>A stack in the lower half, away from its upper end, has a canonical end.\<close>

definition static_stack :: "u64 \<Rightarrow> bool" where
  "static_stack a \<longleftrightarrow> canonical a \<and> canonical (a + STACK_SIZE) \<and> unat a + 20480 < 2 ^ 64"

lemma stack_end_ok: "virt_laws v \<Longrightarrow> static_stack a \<Longrightarrow> stack_end v a = Inr (a + STACK_SIZE)"
  by (simp add: stack_end_def virt_laws_def static_stack_def u64_add_def STACK_SIZE_def)

lemma build_tss_run:
  assumes "virt_laws v" "static_stack df" "static_stack pf" "static_stack gp" "static_stack ks"
  shows "build_tss v df pf gp ks =
    Inr \<lparr>interrupt_stack_table = [df + STACK_SIZE, pf + STACK_SIZE, gp + STACK_SIZE, 0, 0, 0, 0],
         privilege_stack_table = [ks + STACK_SIZE, 0, 0]\<rparr>"
proof -
  have r: "replicate 7 (0 :: u64) = [0, 0, 0, 0, 0, 0, 0]" "replicate 3 (0 :: u64) = [0, 0, 0]"
    by (simp_all add: eval_nat_numeral)
  have u: "unat (2 :: u16) = Suc (Suc 0)" by simp
  show ?thesis
    unfolding build_tss_def r DOUBLE_FAULT_IST_INDEX_def PAGE_FAULT_IST_INDEX_def GENERAL_PROTECTION_FAULT_IST_INDEX_def u
    using assms by (simp add: stack_end_ok Let_def)
qed

text \<open>
  The descriptor table gets the selectors the rest of the kernel counts on: kernel code 0x08, kernel data
  0x10, user data 0x1B, user code 0x23 and task state 0x28; after \<open>init\<close> the segment registers hold the
  kernel's selectors and the task register that of the task state segment.
\<close>

lemma gdt_selectors:
  assumes "gdt_laws gdt_append used gdt_new"
  shows "\<exists>g sel. build_gdt gdt_append gdt_new t = Inr (g, sel) \<and> sel_code sel = 0x08 \<and> sel_data sel = 0x10 \<and>
    sel_user_data sel = 0x18 OR 3 \<and> sel_user_code sel = 0x20 OR 3 \<and> sel_tss sel = 0x28 \<and>
    reg_cs (gdt_init (g, sel) r) = 0x08 \<and> reg_ss (gdt_init (g, sel) r) = 0x10 \<and> task_register (gdt_init (g, sel) r) = 0x28"
proof -
  obtain g where "build_gdt gdt_append gdt_new t =
      Inr (g, \<lparr>sel_code = 0x08, sel_data = 0x10, sel_user_code = 0x23, sel_user_data = 0x1B, sel_tss = 0x28\<rparr>)"
    by (rule build_gdt_run [OF assms])
  then show ?thesis by (simp add: gdt_init_def)
qed

text \<open>A table as a list of descriptors, each with its upper half where it has one.\<close>

definition list_append :: "descriptor list \<Rightarrow> descriptor \<Rightarrow> (u16 \<times> descriptor list) outcome" where
  "list_append g d =
     (if sum_list (map slots_of g) + 1 + slots_of d \<le> 8
      then Inr (of_nat (8 * (sum_list (map slots_of g) + 1)) OR privilege d, g @ [d])
      else Inl (PanicMsg ''GDT requires enough free entries''))"

lemma list_gdt_laws: "gdt_laws list_append (\<lambda>g. sum_list (map slots_of g) + 1) []"
  by (auto simp: gdt_laws_def list_append_def)

end
