(* ===== verification/Elf_Loader.thy ===== *)
theory Elf_Loader
  imports Heap_Correct Scheduler Gdt Io
begin

text \<open>
  Creation of a user task: \<^verbatim>\<open>kernel/src/mm/user.rs\<close> (\<open>BuddyFrameAllocator\<close>, \<open>map_user_page\<close>),
  \<^verbatim>\<open>kernel/src/tasks/elf.rs\<close> (\<open>load_elf\<close>) and \<open>Task::from_elf\<close> of \<^verbatim>\<open>kernel/src/tasks/task.rs\<close>.

  The state of a load is the page tables behind \<open>mapper\<close>, the frame allocator, the bytes of memory as the
  kernel addresses them and the console. A call that returns a Rust \<open>Result\<close> gives the
  state with \<open>Inl\<close> of the error or \<open>Inr\<close> of the value, since its effects stay on an error; \<open>try_then\<close> is the
  question mark operator. The \<^verbatim>\<open>goblin\<close> structures and the operations of the \<^verbatim>\<open>x86_64\<close> crate
  are the fields of \<open>elf_env\<close>.
\<close>

record elf_header =
  e_ident :: "u8 list"
  e_entry :: u64
  e_phoff :: u64
  e_phentsize :: u16
  e_phnum :: u16

record program_header =
  p_type :: u32
  p_flags :: u32
  p_offset :: u64
  p_vaddr :: u64
  p_filesz :: u64
  p_memsz :: u64

record ('m, 'a) loader =
  mapper :: 'm
  frames_from :: 'a
  phys_mem :: "u64 \<Rightarrow> u8"
  console :: io

text \<open>
  \<open>header_at\<close> and \<open>phdr_at\<close> read the structure that starts at the first byte of a list, \<open>header_len\<close> and
  \<open>phdr_len\<close> are their sizes. \<open>map_to\<close> gets the page tables, memory, the frame allocator, a page, a frame and flags;
  its first result says whether it succeeded.
\<close>

record ('m, 'a, 'f) elf_env =
  header_len :: u64
  phdr_len :: u64
  header_at :: "u8 list \<Rightarrow> elf_header"
  phdr_at :: "u8 list \<Rightarrow> program_header"
  virt_addr :: "u64 \<Rightarrow> u64 outcome"
  page_containing :: "u64 \<Rightarrow> u64"
  frame_start :: "'f \<Rightarrow> u64"
  map_to :: "('a \<Rightarrow> ('f option \<times> 'a) outcome) \<Rightarrow> 'm \<Rightarrow> (u64 \<Rightarrow> u8) \<Rightarrow> 'a \<Rightarrow> u64 \<Rightarrow> 'f \<Rightarrow> u64 \<Rightarrow>
    (bool \<times> 'm \<times> (u64 \<Rightarrow> u8) \<times> 'a) outcome"

definition USER_STACK_TOP :: u64 where "USER_STACK_TOP = 0x7FFFFF000"
definition USER_STACK_PAGES :: u64 where "USER_STACK_PAGES = 16"
definition USER_STACK_SIZE :: u64 where "USER_STACK_SIZE = USER_STACK_PAGES * 4096"

text \<open>The error type of \<^verbatim>\<open>goblin\<close>; the loader never builds such a value.\<close>

typedecl goblin_error

datatype elf_error = MappingFailed string | InvalidElf goblin_error

record elf_load_result =
  entry_point :: u64
  stack_top :: u64

type_synonym ('s, 'e, 'a) call = "('s \<times> ('e + 'a)) outcome"

definition try_then :: "('s, 'e, 'a) call \<Rightarrow> ('s \<Rightarrow> 'a \<Rightarrow> ('s, 'e, 'b) call) \<Rightarrow> ('s, 'e, 'b) call" where
  "try_then c f = and_then c (\<lambda>(s, r). case r of Inl e \<Rightarrow> Inr (s, Inl e) | Inr x \<Rightarrow> f s x)"

definition map_err :: "('d \<Rightarrow> 'e) \<Rightarrow> ('s, 'd, 'a) call \<Rightarrow> ('s, 'e, 'a) call" where
  "map_err f c = and_then c (\<lambda>(s, r). Inr (s, case r of Inl e \<Rightarrow> Inl (f e) | Inr x \<Rightarrow> Inr x))"

text \<open>A loop over \<open>xs\<close> whose body may leave the function with an error.\<close>

fun for_each :: "('x \<Rightarrow> 's \<Rightarrow> ('s, 'e, unit) call) \<Rightarrow> 'x list \<Rightarrow> 's \<Rightarrow> ('s, 'e, unit) call" where
  "for_each body [] s = Inr (s, Inr ())"
| "for_each body (x # xs) s = try_then (body x s) (\<lambda>s _. for_each body xs s)"

text \<open>The addresses of \<^verbatim>\<open>(first..limit).step_by(4096)\<close>.\<close>

definition page_steps :: "u64 \<Rightarrow> u64 \<Rightarrow> u64 list" where
  "page_steps first limit = map (\<lambda>i. first + of_nat i * 4096) [0..<(unat limit - unat first + 4095) div 4096]"

text \<open>\<^verbatim>\<open>ptr::write_bytes\<close> and \<^verbatim>\<open>ptr::copy_nonoverlapping\<close> on the bytes of memory.\<close>

definition write_bytes :: "(u64 \<Rightarrow> u8) \<Rightarrow> u64 \<Rightarrow> u8 \<Rightarrow> nat \<Rightarrow> u64 \<Rightarrow> u8" where
  "write_bytes mem ptr v n = (\<lambda>a. if unat (a - ptr) < n then v else mem a)"

definition copy_bytes :: "(u64 \<Rightarrow> u8) \<Rightarrow> u64 \<Rightarrow> u8 list \<Rightarrow> u64 \<Rightarrow> u8" where
  "copy_bytes mem ptr bs = (\<lambda>a. if unat (a - ptr) < length bs then bs ! unat (a - ptr) else mem a)"

text \<open>Indexing a slice with a range.\<close>

definition slice :: "u8 list \<Rightarrow> u64 \<Rightarrow> u64 \<Rightarrow> u8 list outcome" where
  "slice data first limit =
     (if first \<le> limit \<and> unat limit \<le> length data
      then Inr (take (unat limit - unat first) (drop (unat first) data)) else Inl IndexOutOfBounds)"

subsection \<open>Mapping a user page\<close>

definition PRESENT :: u64 where "PRESENT = 1"
definition WRITABLE :: u64 where "WRITABLE = 2"
definition USER_ACCESSIBLE :: u64 where "USER_ACCESSIBLE = 4"
definition NO_EXECUTE :: u64 where "NO_EXECUTE = 0x8000000000000000"

text \<open>\<open>BuddyFrameAllocator\<close> is a unit structure: its frames come from the global heap.\<close>

definition buddy_frame_allocate :: "(u64 \<Rightarrow> 'f outcome) \<Rightarrow> heap \<Rightarrow> ('f option \<times> heap) outcome" where
  "buddy_frame_allocate phys_frame h = heap_allocate_frame phys_frame h"

definition map_user_page ::
  "('m, 'a, 'f) elf_env \<Rightarrow> ('a \<Rightarrow> ('f option \<times> 'a) outcome) \<Rightarrow> u64 \<Rightarrow> u64 \<Rightarrow> ('m, 'a) loader \<Rightarrow>
    (('m, 'a) loader, string, u64) call" where
  "map_user_page E alloc vaddr flags s =
     (let page = page_containing E vaddr
      in and_then (alloc (frames_from s)) (\<lambda>(res, a).
         let s = s\<lparr>frames_from := a\<rparr>
         in case res of
              None \<Rightarrow> Inr (s, Inl ''Failed to allocate frame'')
            | Some frame \<Rightarrow>
                let phys_addr = frame_start E frame
                in and_then (map_to E alloc (mapper s) (phys_mem s) (frames_from s) page frame flags) (\<lambda>(ok, m, mem, a).
                   let s = s\<lparr>mapper := m, phys_mem := mem, frames_from := a\<rparr>
                   in if ok then Inr (s, Inr phys_addr) else Inr (s, Inl ''Failed to map page''))))"

subsection \<open>Loading the segments and the stack\<close>

definition print_line :: "string \<Rightarrow> ('m, 'a) loader \<Rightarrow> ('m, 'a) loader outcome" where
  "print_line t s = and_then (serial_println t (console s)) (\<lambda>io. Inr (s\<lparr>console := io\<rparr>))"

definition page_flags :: "program_header \<Rightarrow> u64" where
  "page_flags ph =
     (let flags = PRESENT OR USER_ACCESSIBLE OR WRITABLE
      in if p_flags ph AND 1 = 0 then flags OR NO_EXECUTE else flags)"

text \<open>Copying the part of the file data that falls into the page at \<open>page_vaddr\<close>, whose frame the kernel sees at \<open>kernel_ptr\<close>.\<close>

definition copy_page ::
  "u8 list \<Rightarrow> program_header \<Rightarrow> u64 \<Rightarrow> u64 \<Rightarrow> ('m, 'a) loader \<Rightarrow> ('m, 'a) loader outcome" where
  "copy_page data ph page_vaddr kernel_ptr s =
     and_then (u64_add page_vaddr 4096) (\<lambda>page_end.
     and_then (u64_add (p_vaddr ph) (p_filesz ph)) (\<lambda>seg_file_end.
     if seg_file_end > page_vaddr \<and> p_vaddr ph < page_end then
       let copy_start = max (p_vaddr ph) page_vaddr;
           copy_end = min seg_file_end page_end
       in and_then (u64_sub copy_end copy_start) (\<lambda>copy_len.
          if copy_len > 0 then
            and_then (u64_sub copy_start (p_vaddr ph)) (\<lambda>into.
            and_then (u64_add (p_offset ph) into) (\<lambda>file_offset.
            and_then (u64_add file_offset copy_len) (\<lambda>file_end.
            and_then (slice data file_offset file_end) (\<lambda>src.
            and_then (u64_sub copy_start page_vaddr) (\<lambda>page_off.
            and_then (print_line (''      Copying '' @ dec copy_len @ '' bytes at offset '' @ dec page_off @ '' in page'') s) (\<lambda>s.
            Inr (s\<lparr>phys_mem := copy_bytes (phys_mem s) (kernel_ptr + page_off) src\<rparr>)))))))
          else Inr s)
     else Inr s))"

definition load_page ::
  "('m, 'a, 'f) elf_env \<Rightarrow> ('a \<Rightarrow> ('f option \<times> 'a) outcome) \<Rightarrow> u64 \<Rightarrow> u8 list \<Rightarrow> program_header \<Rightarrow> u64 \<Rightarrow>
    ('m, 'a) loader \<Rightarrow> (('m, 'a) loader, elf_error, unit) call" where
  "load_page E alloc phys_mem_offset data ph page_vaddr s =
     and_then (virt_addr E page_vaddr) (\<lambda>va.
     try_then (map_err MappingFailed (map_user_page E alloc va (page_flags ph) s)) (\<lambda>s phys_addr.
     and_then (u64_add phys_mem_offset phys_addr) (\<lambda>kernel_ptr.
     and_then (copy_page data ph page_vaddr kernel_ptr
         (s\<lparr>phys_mem := write_bytes (phys_mem s) kernel_ptr 0 4096\<rparr>)) (\<lambda>s.
     Inr (s, Inr ())))))"

definition load_segment ::
  "('m, 'a, 'f) elf_env \<Rightarrow> ('a \<Rightarrow> ('f option \<times> 'a) outcome) \<Rightarrow> u64 \<Rightarrow> u8 list \<Rightarrow> program_header \<Rightarrow>
    ('m, 'a) loader \<Rightarrow> (('m, 'a) loader, elf_error, unit) call" where
  "load_segment E alloc phys_mem_offset data ph s =
     and_then (print_line (''  LOAD: vaddr=0x'' @ hex (p_vaddr ph) @ '', memsz=0x'' @ hex (p_memsz ph) @
         '', filesz=0x'' @ hex (p_filesz ph) @ '', flags=0x'' @ hex (ucast (p_flags ph))) s) (\<lambda>s.
     let start_page = p_vaddr ph AND NOT 0xFFF
     in and_then (u64_add (p_vaddr ph) (p_memsz ph)) (\<lambda>seg_end.
        and_then (u64_add seg_end 0xFFF) (\<lambda>rounded.
        let end_page = rounded AND NOT 0xFFF
        in for_each (load_page E alloc phys_mem_offset data ph) (page_steps start_page end_page) s)))"

definition load_header ::
  "('m, 'a, 'f) elf_env \<Rightarrow> ('a \<Rightarrow> ('f option \<times> 'a) outcome) \<Rightarrow> u64 \<Rightarrow> u8 list \<Rightarrow> elf_header \<Rightarrow> nat \<Rightarrow>
    ('m, 'a) loader \<Rightarrow> (('m, 'a) loader, elf_error, unit) call" where
  "load_header E alloc phys_mem_offset data header i s =
     and_then (u64_mul (of_nat i) (ucast (e_phentsize header))) (\<lambda>skip.
     and_then (u64_add (e_phoff header) skip) (\<lambda>ph_start.
     and_then (u64_add ph_start (phdr_len E)) (\<lambda>ph_end.
     if unat ph_end > length data then Inr (s, Inl (MappingFailed ''Program header out of bounds''))
     else
       let ph = phdr_at E (drop (unat ph_start) data)
       in if p_type ph = 1 then load_segment E alloc phys_mem_offset data ph s else Inr (s, Inr ()))))"

definition load_stack_page ::
  "('m, 'a, 'f) elf_env \<Rightarrow> ('a \<Rightarrow> ('f option \<times> 'a) outcome) \<Rightarrow> u64 \<Rightarrow> u64 \<Rightarrow> ('m, 'a) loader \<Rightarrow>
    (('m, 'a) loader, elf_error, unit) call" where
  "load_stack_page E alloc phys_mem_offset page s =
     and_then (virt_addr E page) (\<lambda>va.
     try_then (map_err MappingFailed
         (map_user_page E alloc va (PRESENT OR WRITABLE OR USER_ACCESSIBLE OR NO_EXECUTE) s)) (\<lambda>s phys_addr.
     and_then (u64_add phys_mem_offset phys_addr) (\<lambda>kernel_ptr.
     Inr (s\<lparr>phys_mem := write_bytes (phys_mem s) kernel_ptr 0 4096\<rparr>, Inr ()))))"

definition load_stack ::
  "('m, 'a, 'f) elf_env \<Rightarrow> ('a \<Rightarrow> ('f option \<times> 'a) outcome) \<Rightarrow> u64 \<Rightarrow> ('m, 'a) loader \<Rightarrow>
    (('m, 'a) loader, elf_error, unit) call" where
  "load_stack E alloc phys_mem_offset s =
     and_then (u64_sub USER_STACK_TOP USER_STACK_SIZE) (\<lambda>stack_bottom.
     and_then (print_line (''  Allocating stack: 0x'' @ hex stack_bottom @ '' - 0x'' @ hex USER_STACK_TOP @
         '' ('' @ dec USER_STACK_PAGES @ '' pages)'') s) (\<lambda>s.
     for_each (load_stack_page E alloc phys_mem_offset) (page_steps stack_bottom USER_STACK_TOP) s))"

definition load_elf ::
  "('m, 'a, 'f) elf_env \<Rightarrow> ('a \<Rightarrow> ('f option \<times> 'a) outcome) \<Rightarrow> u64 \<Rightarrow> u8 list \<Rightarrow> ('m, 'a) loader \<Rightarrow>
    (('m, 'a) loader, elf_error, elf_load_result) call" where
  "load_elf E alloc phys_mem_offset data s =
     (if length data < unat (header_len E) then Inr (s, Inl (MappingFailed ''ELF too small for header''))
      else let header = header_at E data
      in if take 4 (e_ident header) \<noteq> [0x7F, 0x45, 0x4C, 0x46] then Inr (s, Inl (MappingFailed ''Invalid ELF magic''))
      else if e_ident header ! 4 \<noteq> 2 then Inr (s, Inl (MappingFailed ''Not a 64-bit ELF''))
      else
        and_then (print_line (''Loading ELF: entry=0x'' @ hex (e_entry header) @ '', '' @
            dec (ucast (e_phnum header)) @ '' program headers'') s) (\<lambda>s.
        try_then (for_each (load_header E alloc phys_mem_offset data header) [0..<unat (e_phnum header)] s) (\<lambda>s _.
        try_then (load_stack E alloc phys_mem_offset s) (\<lambda>s _.
        and_then (print_line (''  ELF loaded successfully, entry=0x'' @ hex (e_entry header)) s) (\<lambda>s.
        Inr (s, Inr \<lparr>entry_point = e_entry header, stack_top = USER_STACK_TOP\<rparr>))))))"

subsection \<open>A task from an ELF file\<close>

text \<open>
  \<open>Box::new\<close> takes the zeroed kernel stack from the global heap, the same heap that gives
  \<open>BuddyFrameAllocator\<close> its frames; on a null pointer Rust aborts with the allocation error handler.
\<close>

definition box_new :: "u64 \<Rightarrow> u64 \<Rightarrow> heap \<Rightarrow> (u64 \<times> heap) outcome" where
  "box_new sz align h =
     and_then (global_alloc h \<lparr>lsize = sz, lalign = align\<rparr>) (\<lambda>(ptr, h).
     if ptr = 0 then Inl (PanicMsg ''memory allocation failed'') else Inr (ptr, h))"

definition from_elf ::
  "('m, heap, 'f) elf_env \<Rightarrow> (u64 \<Rightarrow> 'f outcome) \<Rightarrow> selectors \<Rightarrow> u64 \<Rightarrow> u8 list \<Rightarrow> u64 \<Rightarrow> ('m, heap) loader \<Rightarrow>
    (u64 \<times> ('m, heap) loader, elf_error, task) call" where
  "from_elf E phys_frame gdt phys_mem_offset elf_data next_task_id s =
     (let tid = next_task_id; next_task_id = next_task_id + 1
      in and_then (load_elf E (buddy_frame_allocate phys_frame) phys_mem_offset elf_data s) (\<lambda>(s, r).
         case r of
           Inl e \<Rightarrow> Inr ((next_task_id, s), Inl e)
         | Inr loaded \<Rightarrow>
             and_then (box_new KERNEL_STACK_SIZE 1 (frames_from s)) (\<lambda>(kernel_stack, h).
             Inr ((next_task_id, s\<lparr>frames_from := h, phys_mem := write_bytes (phys_mem s) kernel_stack 0 (unat KERNEL_STACK_SIZE)\<rparr>),
               Inr \<lparr>tid = tid, tstate = Ready,
                    tcontext = new_user (sel_user_code gdt) (sel_user_data gdt) (entry_point loaded) (stack_top loaded),
                    kernel_stack = kernel_stack\<rparr>))))"

end
