(* ===== verification/Frame_Source.thy ===== *)
theory Frame_Source
  imports Heap_Correct Boot_Frames_Correct
begin

text \<open>
  The interface \<^verbatim>\<open>FrameAllocator<Size4KiB>\<close> that the page table code and the ELF loader rely on, and the two
  allocators of the kernel that implement it: \<open>BootInfoFrameAllocator\<close> and, behind
  \<open>BuddyFrameAllocator\<close>, the buddy allocator of the global heap.

  \<open>owns c a F\<close> says that the allocator state \<open>a\<close> can hand out exactly the frames with the start addresses \<open>F\<close>; the
  configuration \<open>c\<close> carries what stays fixed: the frame type of the \<^verbatim>\<open>x86_64\<close> crate and, for the
  heap, its offset and the blocks in use, which taking frames leaves alone.
\<close>

locale frame_source =
  fixes take_frame :: "'c \<Rightarrow> 'a \<Rightarrow> ('f option \<times> 'a) outcome"
    and start_of :: "'c \<Rightarrow> 'f \<Rightarrow> u64"
    and owns :: "'c \<Rightarrow> 'a \<Rightarrow> u64 set \<Rightarrow> bool"
  assumes take_some: "owns c a F \<Longrightarrow> F \<noteq> {} \<Longrightarrow>
      \<exists>f a'. take_frame c a = Inr (Some f, a') \<and> start_of c f \<in> F \<and> owns c a' (F - {start_of c f})"
    and take_none: "owns c a {} \<Longrightarrow> take_frame c a = Inr (None, a)"
    and frames_aligned: "owns c a F \<Longrightarrow> p \<in> F \<Longrightarrow> 4096 dvd unat p \<and> unat p < 2 ^ 52"

lemma page_start_unique:
  assumes "4096 dvd unat p" "4096 dvd unat q" "unat q \<le> unat p" "unat p < unat q + 4096"
  shows "p = (q :: u64)"
proof -
  obtain i j where ij: "unat p = 4096 * i" "unat q = 4096 * j" using assms(1,2) by (auto simp: dvd_def)
  with assms(3,4) have "i = j" by simp
  then have "unat p = unat q" by (simp add: ij)
  then show ?thesis by (simp add: word_unat_eq_iff)
qed

subsection \<open>The boot allocator\<close>

type_synonym 'f frame_type = "(u64 \<Rightarrow> 'f outcome) \<times> ('f \<Rightarrow> u64)"

definition boot_owns :: "'f frame_type \<Rightarrow> boot_alloc \<Rightarrow> u64 set \<Rightarrow> bool" where
  "boot_owns c s F \<longleftrightarrow> phys_frame_laws (fst c) (snd c) \<and> boot_inv s \<and>
     F = {p. 4096 dvd unat p \<and> unat p \<in> free_bytes s}"

lemma free_page_serves:
  assumes inv: "boot_inv s" and p: "4096 dvd unat p" "unat p \<in> free_bytes s"
  obtains j where "j < range_count s" "serves s 4096 (2 ^ 12) j"
proof -
  have s: "arr_ok s" "ranges_wf (active s)" using inv by (simp_all add: boot_inv_def)
  obtain r where r: "r \<in> set (active s)" "unat p \<in> range_bytes r"
    using p(2) by (auto simp: free_bytes_def bytes_def)
  then obtain j where j: "j < range_count s" "active s ! j = r"
    using length_active [OF s(1)] by (auto simp: in_set_conv_nth)
  have ok: "range_ok r" using ranges_wf_ok [OF s(2) r(1)] .
  then have "round_up (unat (rstart r)) 4096 = unat (rstart r)"
    by (intro round_up_id) (simp_all add: range_ok_def)
  moreover obtain x y where "unat (rstart r) = 4096 * x" "unat (rend r) = 4096 * y"
    using ok by (auto simp: range_ok_def dvd_def)
  then have "unat (rstart r) + 4096 \<le> unat (rend r)"
    using ok by (auto simp: range_ok_def word_less_nat_alt)
  ultimately show thesis using that j by (auto simp: serves_def Let_def)
qed

interpretation boot_frames: frame_source "\<lambda>c. boot_allocate_frame (fst c)" snd boot_owns
proof
  fix c :: "'f frame_type" and s :: boot_alloc and F :: "u64 set"
  assume own: "boot_owns c s F"
  then have o: "phys_frame_laws (fst c) (snd c)" "boot_inv s" "F = {p. 4096 dvd unat p \<and> unat p \<in> free_bytes s}"
    by (simp_all add: boot_owns_def)
  have run: "boot_allocate_frame (fst c) s = allocate_contiguous_aligned (fst c) s 1 (2 ^ 12)"
    by (simp add: boot_allocate_frame_def allocate_contiguous_def)
  show "4096 dvd unat p \<and> unat p < 2 ^ 52" if "p \<in> F" for p
    using that o bytes_bound [of "active s"] by (auto simp: boot_inv_def ranges_wf_def free_bytes_def)
  assume "F \<noteq> {}"
  then obtain p :: u64 where p: "4096 dvd unat p" "unat p \<in> free_bytes s" using o(3) by auto
  obtain i where i: "i < range_count s" "serves s 4096 (2 ^ 12) i" by (rule free_page_serves [OF o(2) p])
  have one: "0 < (1 :: u64)" "unat (1 :: u64) < 2 ^ 51" "(12 :: nat) \<le> 52" by simp_all
  show "\<exists>f a'. boot_allocate_frame (fst c) s = Inr (Some f, a') \<and> snd c f \<in> F \<and> boot_owns c a' (F - {snd c f})"
    using o(2,1) one
  proof (cases rule: allocate_cases)
    case none
    then show ?thesis using i by auto
  next
    case (some j f s')
    have dv: "4096 dvd unat (1 * 4096 :: u64)" by simp
    note t = take_from_range_inv [OF o(2) some(1) some(2) [folded some(7)] some(8) dv some(5,6)]
    have blk: "{unat (snd c f)..<unat (snd c f) + 4096} \<subseteq> free_bytes s" using t(3) by simp
    have fb: "free_bytes s' = free_bytes s - {unat (snd c f)..<unat (snd c f) + 4096}" using t(4) by simp
    have al: "4096 dvd unat (snd c f)" by (rule t(7))
    have "{p. 4096 dvd unat p \<and> unat p \<in> free_bytes s'} = F - {snd c f}"
      unfolding fb o(3) using page_start_unique [OF _ al] by fastforce
    then have "boot_owns c s' (F - {snd c f})" using o(1) t(1) by (simp add: boot_owns_def)
    moreover have "snd c f \<in> F" unfolding o(3) using blk al by auto
    ultimately show ?thesis using some(4) run by auto
  qed
next
  fix c :: "'f frame_type" and s :: boot_alloc
  assume "boot_owns c s {}"
  then have o: "phys_frame_laws (fst c) (snd c)" "boot_inv s" "\<And>p :: u64. 4096 dvd unat p \<Longrightarrow> unat p \<notin> free_bytes s"
    by (auto simp: boot_owns_def)
  have one: "0 < (1 :: u64)" "unat (1 :: u64) < 2 ^ 51" "(12 :: nat) \<le> 52" by simp_all
  show "boot_allocate_frame (fst c) s = Inr (None, s)"
    using o(2,1) one
  proof (cases rule: allocate_cases)
    case none
    then show ?thesis by (simp add: boot_allocate_frame_def allocate_contiguous_def)
  next
    case (some j f s')
    have dv: "4096 dvd unat (1 * 4096 :: u64)" by simp
    note t = take_from_range_inv [OF o(2) some(1) some(2) [folded some(7)] some(8) dv some(5,6)]
    have "unat (snd c f) \<in> free_bytes s" using t(3) by (rule subsetD) simp
    then show ?thesis using o(3) [OF t(7)] by blast
  qed
qed

subsection \<open>The global heap\<close>

record 'f heap_config =
  hc_frames :: "'f frame_type"
  hc_offset :: u64
  hc_blocks :: "nat \<Rightarrow> slab_view"
  hc_pages :: "u64 set"

definition heap_owns_frames :: "'f heap_config \<Rightarrow> heap \<Rightarrow> u64 set \<Rightarrow> bool" where
  "heap_owns_frames c h F \<longleftrightarrow> phys_frame_laws (fst (hc_frames c)) (snd (hc_frames c)) \<and>
     (\<exists>p. page_allocator h = Some p \<and> offset (frame_allocator p) = hc_offset c) \<and>
     heap_rel h ((+) (hc_offset c) ` F) (hc_blocks c) (hc_pages c)"

lemma heap_frame_page:
  assumes "heap_owns_frames c h F" "f \<in> F"
  obtains p where "f = of_nat (p * PAGE_SIZE)" "unat f = p * PAGE_SIZE" "p < MAX_PAGES" "window_ok (hc_offset c)"
proof -
  obtain g where g: "page_allocator h = Some g" "offset (frame_allocator g) = hc_offset c" "provides g ((+) (hc_offset c) ` F)"
    using assms(1) by (auto simp: heap_owns_frames_def heap_rel_def)
  obtain L where L: "buddy_rel (frame_allocator g) L" "(+) (hc_offset c) ` F = page_addr (hc_offset c) ` free_pages L"
    using g(2,3) by (auto simp: provides_def)
  have w: "window_ok (hc_offset c)" "spec_inv L" using L(1) g(2) by (auto simp: buddy_rel_def)
  have "hc_offset c + f \<in> page_addr (hc_offset c) ` free_pages L" using L(2) assms(2) by blast
  then obtain p where p: "hc_offset c + f = page_addr (hc_offset c) p" "p < MAX_PAGES"
    using free_pages_bound [OF w(2)] by auto
  then have f: "f = of_nat (p * PAGE_SIZE)" by (simp add: page_addr_def)
  show thesis
    by (rule that [OF f _ p(2) w(1)]) (simp only: f unat_page_bytes [OF less_imp_le [OF p(2)]])
qed

lemma heap_frames_window:
  assumes "heap_owns_frames c h F" "f \<in> F"
  shows "unat (hc_offset c) + unat f + 4096 < 2 ^ 64" "unat f < 2 ^ 30" "4096 dvd unat f"
proof -
  obtain p where p: "unat f = p * PAGE_SIZE" "p < MAX_PAGES" "window_ok (hc_offset c)"
    by (rule heap_frame_page [OF assms])
  have "p * PAGE_SIZE + 4096 \<le> MAX_PAGES * PAGE_SIZE" using p(2) by (simp add: PAGE_SIZE_def)
  then show "unat (hc_offset c) + unat f + 4096 < 2 ^ 64" "unat f < 2 ^ 30"
    using p(1,3) by (simp_all add: window_ok_def MAX_PAGES_def PAGE_SIZE_def)
  show "4096 dvd unat f" using p(1) by (simp add: PAGE_SIZE_def)
qed

lemma buddy_alloc_offset:
  assumes "provides g A" "buddy_alloc (frame_allocator g) 0 = Inr (Some a, b)"
  shows "offset b = offset (frame_allocator g)"
proof -
  obtain L where L: "buddy_rel (frame_allocator g) L" using assms(1) by (auto simp: provides_def)
  show ?thesis
    using buddy_alloc_refines [OF L, of 0] assms(2) by (auto simp: untouched_def split: option.splits)
qed

lemma heap_rel_forget: "heap_rel h A vs G \<Longrightarrow> G' \<subseteq> G \<Longrightarrow> heap_rel h A vs G'"
proof -
  assume h: "heap_rel h A vs G" and G: "G' \<subseteq> G"
  obtain p where p: "page_allocator h = Some p" "provides p A" "G \<subseteq> managed p" "\<forall>i<8. pages (vs i) \<subseteq> managed p"
    using h by (auto simp: heap_rel_def)
  have "pages (vs i) \<inter> G' = {}" if "i < 8" for i using h G that by (auto simp: heap_rel_def)
  moreover have "\<exists>p. page_allocator h = Some p \<and> provides p A \<and> G' \<subseteq> managed p \<and> (\<forall>i<8. pages (vs i) \<subseteq> managed p)"
    using p G by blast
  moreover have "G' \<inter> A = {}" using h G by (auto simp: heap_rel_def)
  ultimately show ?thesis using h unfolding heap_rel_def by simp
qed

lemma heap_take_page:
  assumes "heap_rel h A vs G" "page_allocator h = Some g" "a \<in> A" "provides g' (A - {a})" "managed g' = managed g"
  shows "heap_rel (h\<lparr>page_allocator := Some g'\<rparr>) (A - {a}) vs G"
proof -
  have s: "A - {a} \<union> insert a G = A \<union> G" "(A - {a}) \<inter> insert a G = {}"
    using assms(1,3) by (auto simp: heap_rel_def)
  show ?thesis
    by (rule heap_rel_forget [OF heap_rel_pages [OF assms(1,2,4,5) s]]) auto
qed

interpretation heap_frames: frame_source "\<lambda>c. heap_allocate_frame (fst (hc_frames c))" "\<lambda>c. snd (hc_frames c)" heap_owns_frames
proof
  fix c :: "'f heap_config" and h :: heap and F :: "u64 set"
  assume own: "heap_owns_frames c h F"
  let ?off = "hc_offset c"
  show "4096 dvd unat p \<and> unat p < 2 ^ 52" if "p \<in> F" for p
    using heap_frames_window [OF own that] by simp
  assume ne: "F \<noteq> {}"
  have o: "phys_frame_laws (fst (hc_frames c)) (snd (hc_frames c))" "heap_rel h ((+) ?off ` F) (hc_blocks c) (hc_pages c)"
    using own by (simp_all add: heap_owns_frames_def)
  obtain g where g: "page_allocator h = Some g" "offset (frame_allocator g) = ?off" "provides g ((+) ?off ` F)"
    using own by (auto simp: heap_owns_frames_def heap_rel_def)
  obtain a g' where a: "alloc_page g = Inr (Some a, g')" "a \<in> (+) ?off ` F" "provides g' ((+) ?off ` F - {a})" "managed g' = managed g"
    using gpa.alloc_page_some [OF g(3)] ne by blast
  then obtain b where b: "buddy_alloc (frame_allocator g) 0 = Inr (Some a, b)" "g' = g\<lparr>frame_allocator := b\<rparr>"
    by (auto simp: alloc_page_def and_then_eq_Inr split: prod.splits)
  obtain f where f: "f \<in> F" "a = ?off + f" using a(2) by auto
  obtain p where p: "f = of_nat (p * PAGE_SIZE)" "p < MAX_PAGES" "window_ok ?off" by (rule heap_frame_page [OF own f(1)])
  have sub: "u64_sub a ?off = Inr f"
    using u64_sub_page_addr [OF p(3), of p] p(2) by (simp add: f(2) p(1) page_addr_def)
  obtain fr where fr: "fst (hc_frames c) f = Inr fr" "snd (hc_frames c) fr = f"
    using phys_frame_lawsD [OF o(1), of f] heap_frames_window [OF own f(1)] by auto
  have off: "offset b = ?off" using buddy_alloc_offset [OF g(3) b(1)] g(2) by simp
  let ?h = "h\<lparr>page_allocator := Some g'\<rparr>"
  have img: "(+) ?off ` F - {a} = (+) ?off ` (F - {f})" using f(2) by auto
  have "heap_rel ?h ((+) ?off ` (F - {f})) (hc_blocks c) (hc_pages c)"
    unfolding img [symmetric] by (rule heap_take_page [OF o(2) g(1) a(2-4)])
  then have "heap_owns_frames c ?h (F - {f})" using o(1) off b(2) by (simp add: heap_owns_frames_def)
  moreover have "heap_allocate_frame (fst (hc_frames c)) h = Inr (Some fr, ?h)"
    using g(1) b sub off fr(1) by (simp add: heap_allocate_frame_def allocate_frame_def)
  ultimately show "\<exists>f a'. heap_allocate_frame (fst (hc_frames c)) h = Inr (Some f, a') \<and> snd (hc_frames c) f \<in> F \<and>
      heap_owns_frames c a' (F - {snd (hc_frames c) f})"
    using fr(2) f(1) by auto
next
  fix c :: "'f heap_config" and h :: heap
  assume "heap_owns_frames c h {}"
  then obtain g where g: "page_allocator h = Some g" "provides g {}"
    by (auto simp: heap_owns_frames_def heap_rel_def)
  from g(2) obtain L where L: "buddy_rel (frame_allocator g) L" "free_pages L = {}" by (auto simp: provides_def)
  then have "spec_alloc 0 L = None"
    using spec_alloc_complete [of L 0] by (cases "spec_alloc 0 L") (auto simp: MAX_ORDER_def buddy_rel_def)
  then have "buddy_alloc (frame_allocator g) 0 = Inr (None, frame_allocator g)"
    using buddy_alloc_refines [OF L(1), of 0] by simp
  then show "heap_allocate_frame (fst (hc_frames c)) h = Inr (None, h)"
    using g(1) by (cases h, cases g) (simp add: heap_allocate_frame_def allocate_frame_def)
qed

end
