(* ===== verification/Elf_Pages.thy ===== *)
theory Elf_Pages
  imports Elf_Loader Frame_Source
begin

text \<open>
  The pages the ELF loader builds: bytes of frames seen through the kernel's window of physical memory,
  the laws of the page table code, the relation \<open>pages_built\<close> between the state of the loader and the pages built so far,
  and what one page adds to them. \<open>extends\<close> says what a part of the load adds.
\<close>

subsection \<open>Memory of frames\<close>

text \<open>A frame that the kernel reaches through its window of physical memory.\<close>

definition frame_ok :: "u64 \<Rightarrow> u64 \<Rightarrow> bool" where
  "frame_ok off f \<longleftrightarrow> 4096 dvd unat f \<and> unat off + unat f + 4096 < 2 ^ 64"

definition in_frame :: "u64 \<Rightarrow> u64 \<Rightarrow> u64 \<Rightarrow> bool" where
  "in_frame off f x \<longleftrightarrow> unat (x - (off + f)) < 4096"

lemma within_iff:
  assumes "unat base + n \<le> 2 ^ 64"
  shows "unat ((x :: u64) - base) < n \<longleftrightarrow> unat base \<le> unat x \<and> unat x < unat base + n"
proof (cases "base \<le> x")
  case True
  then show ?thesis by (auto simp: unat_sub word_le_nat_alt)
next
  case False
  then have lt: "unat x < unat base" by (simp add: word_le_nat_alt)
  then have "unat (x - base) = 2 ^ 64 + unat x - unat base"
    using unat_sub_if' [of x base] by simp
  then show ?thesis using lt assms by linarith
qed

lemma in_frame_iff:
  assumes "frame_ok off f"
  shows "in_frame off f x \<longleftrightarrow> unat off + unat f \<le> unat x \<and> unat x < unat off + unat f + 4096"
proof -
  have s: "unat (off + f) = unat off + unat f"
    using assms by (intro unat_add_u64) (simp add: frame_ok_def)
  show ?thesis
    using within_iff [of "off + f" 4096 x] assms unfolding in_frame_def s frame_ok_def by linarith
qed

lemma in_frame_offset:
  assumes "frame_ok off f" "i < 4096"
  shows "in_frame off f (off + f + of_nat i)" "off + f + of_nat i - (off + f) = (of_nat i :: u64)"
    "unat (off + f + of_nat i) = unat off + unat f + i"
proof -
  have i: "unat (of_nat i :: u64) = i" using assms(2) by (intro unat_of_nat_u64) simp
  show "off + f + of_nat i - (off + f) = (of_nat i :: u64)" by simp
  then show "in_frame off f (off + f + of_nat i)" using i assms(2) by (simp add: in_frame_def)
  have "unat (off + f) = unat off + unat f"
    using assms(1) by (intro unat_add_u64) (simp add: frame_ok_def)
  with i assms show "unat (off + f + of_nat i) = unat off + unat f + i"
    by (subst unat_add_u64) (simp_all add: frame_ok_def)
qed

lemma frames_apart:
  assumes "frame_ok off f" "frame_ok off g" "f \<noteq> g" "in_frame off f x"
  shows "\<not> in_frame off g x"
proof
  assume "in_frame off g x"
  with assms(4) have x: "unat f \<le> unat x - unat off" "unat x - unat off < unat f + 4096"
      "unat g \<le> unat x - unat off" "unat x - unat off < unat g + 4096"
    unfolding in_frame_iff [OF assms(1)] in_frame_iff [OF assms(2)] by linarith+
  have "4096 dvd unat f" "4096 dvd unat g" using assms(1,2) by (simp_all add: frame_ok_def)
  with x have "unat f \<le> unat g \<and> unat g \<le> unat f"
    by (auto simp: dvd_def)
  then show False using assms(3) by (simp add: word_unat_eq_iff)
qed

subsection \<open>What the loader relies on\<close>

text \<open>
  \<open>lookup\<close> is the mapping the page tables describe, from pages to frames with flags, \<open>tables\<close> the
  frames that hold the tables, and \<open>ready\<close> says that a page is unmapped and below no huge page.
  The documentation of \<^verbatim>\<open>Mapper::map_to\<close>: a page that is ready becomes mapped; up to three frames for new tables come from
  the allocator that is passed along; memory changes only in the tables.
\<close>

record 'm page_view =
  lookup :: "'m \<Rightarrow> u64 \<rightharpoonup> u64 \<times> u64"
  tables :: "'m \<Rightarrow> u64 set"
  ready :: "'m \<Rightarrow> u64 \<Rightarrow> bool"

definition map_to_laws ::
  "('m, 'a, 'f) elf_env \<Rightarrow> ('a \<Rightarrow> ('f option \<times> 'a) outcome) \<Rightarrow> ('a \<Rightarrow> u64 set \<Rightarrow> bool) \<Rightarrow> 'm page_view \<Rightarrow> u64 \<Rightarrow> bool" where
  "map_to_laws E alloc own V off \<longleftrightarrow>
     (\<forall>m mem a F page frame flags. own a F \<and> 3 \<le> card F \<and> frame_start E frame \<notin> F \<union> tables V m \<and> ready V m page \<longrightarrow>
       (\<exists>m' mem' a' F'. map_to E alloc m mem a page frame flags = Inr (True, m', mem', a') \<and>
          own a' F' \<and> F' \<subseteq> F \<and> card F \<le> card F' + 3 \<and>
          lookup V m' = (lookup V m)(page \<mapsto> (frame_start E frame, flags)) \<and>
          tables V m' \<subseteq> tables V m \<union> (F - F') \<and>
          (\<forall>q. ready V m q \<and> q \<noteq> page \<longrightarrow> ready V m' q) \<and>
          (\<forall>x. (\<forall>t\<in>tables V m'. \<not> in_frame off t x) \<longrightarrow> mem' x = mem x)))"

lemma map_to_lawsE:
  assumes "map_to_laws E alloc own V off" "own a F" "3 \<le> card F" "frame_start E frame \<notin> F \<union> tables V m" "ready V m page"
  obtains m' mem' a' F' where "map_to E alloc m mem a page frame flags = Inr (True, m', mem', a')"
    "own a' F'" "F' \<subseteq> F" "card F \<le> card F' + 3"
    "lookup V m' = (lookup V m)(page \<mapsto> (frame_start E frame, flags))" "tables V m' \<subseteq> tables V m \<union> (F - F')"
    "\<forall>q. ready V m q \<and> q \<noteq> page \<longrightarrow> ready V m' q"
    "\<forall>x. (\<forall>t\<in>tables V m'. \<not> in_frame off t x) \<longrightarrow> mem' x = mem x"
proof -
  note laws = assms(1) [unfolded map_to_laws_def, THEN spec, THEN spec, THEN spec, THEN spec, THEN spec, THEN spec, THEN spec,
    THEN mp, OF conjI [OF assms(2) conjI [OF assms(3) conjI [OF assms(4,5)]]], of mem flags]
  show thesis using laws by (elim exE conjE) (rule that)
qed

definition env_laws ::
  "('m, 'a, 'f) elf_env \<Rightarrow> ('a \<Rightarrow> ('f option \<times> 'a) outcome) \<Rightarrow> ('a \<Rightarrow> u64 set \<Rightarrow> bool) \<Rightarrow> 'm page_view \<Rightarrow> u64 \<Rightarrow> bool" where
  "env_laws E alloc own V off \<longleftrightarrow> virt_laws (virt_addr E) \<and> (\<forall>a. page_containing E a = a AND NOT 0xFFF) \<and>
     map_to_laws E alloc own V off"

subsection \<open>The pages built so far\<close>

type_synonym image = "u64 \<rightharpoonup> u64 \<times> (nat \<Rightarrow> u8)"

text \<open>Page \<open>p\<close> is mapped with flags \<open>fl\<close> to a frame of its own that holds the bytes \<open>b\<close>.\<close>

definition holds :: "'m page_view \<Rightarrow> u64 \<Rightarrow> ('m, 'a) loader \<Rightarrow> u64 set \<Rightarrow> u64 \<Rightarrow> u64 \<Rightarrow> u64 \<Rightarrow> (nat \<Rightarrow> u8) \<Rightarrow> bool" where
  "holds V off s F p f fl b \<longleftrightarrow> lookup V (mapper s) p = Some (f, fl) \<and> frame_ok off f \<and> f \<notin> F \<and> f \<notin> tables V (mapper s) \<and>
     (\<forall>i<4096. phys_mem s (off + f + of_nat i) = b i)"

definition pages_built ::
  "('a \<Rightarrow> u64 set \<Rightarrow> bool) \<Rightarrow> 'm page_view \<Rightarrow> u64 \<Rightarrow> ('m, 'a) loader \<Rightarrow> u64 set \<Rightarrow> image \<Rightarrow> bool" where
  "pages_built own V off s F I \<longleftrightarrow> own (frames_from s) F \<and> serial1 (console s) \<and>
     F \<inter> tables V (mapper s) = {} \<and> (\<forall>f\<in>F \<union> tables V (mapper s). frame_ok off f) \<and>
     (\<forall>p fl b. I p = Some (fl, b) \<longrightarrow> (\<exists>f. holds V off s F p f fl b)) \<and>
     (\<forall>p\<in>dom I. \<forall>q\<in>dom I. p \<noteq> q \<longrightarrow> fst (the (lookup V (mapper s) p)) \<noteq> fst (the (lookup V (mapper s) q)))"

text \<open>
  What a part of the load does that builds the pages \<open>ps\<close>, each with its flags and bytes: at most four
  frames per page are used up, pages not listed stay ready and keep their mapping, and memory changes only in
  frames that were free and in tables.
\<close>

type_synonym plan = "(u64 \<times> u64 \<times> (nat \<Rightarrow> u8)) list"

definition extends ::
  "('a \<Rightarrow> u64 set \<Rightarrow> bool) \<Rightarrow> 'm page_view \<Rightarrow> u64 \<Rightarrow> ('m, 'a) loader \<Rightarrow> u64 set \<Rightarrow> image \<Rightarrow> plan \<Rightarrow> ('m, 'a) loader \<Rightarrow> u64 set \<Rightarrow> bool" where
  "extends own V off s F I ps s' F' \<longleftrightarrow>
     pages_built own V off s' F' (I ++ map_of (rev ps)) \<and> F' \<subseteq> F \<and> card F \<le> card F' + 4 * length ps \<and>
     tables V (mapper s') \<subseteq> tables V (mapper s) \<union> F \<and>
     (\<forall>q. ready V (mapper s) q \<and> q \<notin> fst ` set ps \<longrightarrow> ready V (mapper s') q) \<and>
     (\<forall>q. q \<notin> fst ` set ps \<longrightarrow> lookup V (mapper s') q = lookup V (mapper s) q) \<and>
     (\<forall>x. (\<forall>f\<in>F \<union> tables V (mapper s). \<not> in_frame off f x) \<longrightarrow> phys_mem s' x = phys_mem s x)"

lemma loaded_holds: "pages_built own V off s F I \<Longrightarrow> I p = Some (fl, b) \<Longrightarrow> \<exists>f. holds V off s F p f fl b"
  by (simp add: pages_built_def)

lemma loaded_console: "pages_built own V off s F I \<Longrightarrow> serial1 io \<Longrightarrow> pages_built own V off (s\<lparr>console := io\<rparr>) F I"
  by (simp add: pages_built_def holds_def)

lemma print_line_ok:
  assumes "serial1 (console s)"
  obtains io where "print_line t s = Inr (s\<lparr>console := io\<rparr>)" "serial1 io"
  using assms by (auto simp: print_line_def serial_println_def serial_print_def)

lemma extends_refl: "pages_built own V off s F I \<Longrightarrow> extends own V off s F I [] s F"
  by (simp add: extends_def)

lemma extends_console:
  "extends own V off (s\<lparr>console := io\<rparr>) F I ps s' F' \<longleftrightarrow> extends own V off s F I ps s' F'"
  by (simp add: extends_def)

lemma extends_trans:
  assumes 1: "extends own V off s F I ps s1 F1" and 2: "extends own V off s1 F1 (I ++ map_of (rev ps)) qs s2 F2"
  shows "extends own V off s F I (ps @ qs) s2 F2"
proof -
  have "I ++ map_of (rev (ps @ qs)) = I ++ map_of (rev ps) ++ map_of (rev qs)" by simp
  moreover have sub: "F1 \<subseteq> F" "tables V (mapper s1) \<subseteq> tables V (mapper s) \<union> F" using 1 by (simp_all add: extends_def)
  moreover have "phys_mem s2 x = phys_mem s x" if "\<forall>f\<in>F \<union> tables V (mapper s). \<not> in_frame off f x" for x
  proof -
    have "\<forall>f\<in>F1 \<union> tables V (mapper s1). \<not> in_frame off f x" using that sub by blast
    then show ?thesis using 1 2 that by (simp add: extends_def)
  qed
  moreover have "tables V (mapper s2) \<subseteq> tables V (mapper s) \<union> F" using 2 sub by (auto simp: extends_def)
  ultimately show ?thesis using 1 2 unfolding extends_def by (auto simp: image_Un)
qed

subsection \<open>One page\<close>

lemma page_built:
  assumes l: "pages_built own V off s F I" "page \<notin> dom I"
    and f: "f \<in> F" "f \<notin> F'" "F' \<subseteq> F" "card F \<le> card F' + 4" "f \<notin> tables V m" "frame_ok off f"
    and m: "lookup V m = (lookup V (mapper s))(page \<mapsto> (f, flags))" "tables V m \<subseteq> tables V (mapper s) \<union> F"
      "\<forall>q. ready V (mapper s) q \<and> q \<noteq> page \<longrightarrow> ready V m q"
      "\<forall>x. (\<forall>t\<in>tables V m. \<not> in_frame off t x) \<longrightarrow> mem x = phys_mem s x" "own a F'" "F' \<inter> tables V m = {}"
    and w: "\<forall>x. \<not> in_frame off f x \<longrightarrow> mem' x = mem x" "\<forall>i<4096. mem' (off + f + of_nat i) = b i" "serial1 io"
  shows "extends own V off s F I [(page, flags, b)] (s\<lparr>mapper := m, frames_from := a, phys_mem := mem', console := io\<rparr>) F'"
proof -
  let ?s = "s\<lparr>mapper := m, frames_from := a, phys_mem := mem', console := io\<rparr>"
  have ok: "\<And>g. g \<in> F \<union> tables V (mapper s) \<Longrightarrow> frame_ok off g" using l(1) by (simp add: pages_built_def)
  have old: "holds V off ?s F' p g fl c" if h: "holds V off s F p g fl c" and p: "p \<noteq> page" for p g fl c
  proof -
    have g: "frame_ok off g" "g \<notin> F" "g \<notin> tables V (mapper s)" "lookup V (mapper s) p = Some (g, fl)"
      using h by (simp_all add: holds_def)
    have "mem' (off + g + of_nat i) = phys_mem s (off + g + of_nat i)" if i: "i < 4096" for i
    proof -
      have x: "in_frame off g (off + g + of_nat i)" by (rule in_frame_offset [OF g(1) i])
      have "\<not> in_frame off t (off + g + of_nat i)" if "t \<in> tables V m \<union> {f}" for t
        using frames_apart [OF g(1) ok _ x] that g(2,3) m(2) f(1) by blast
      then show ?thesis using w(1) m(4) by simp
    qed
    then show ?thesis using h g f(3) m(1,2) p by (auto simp: holds_def)
  qed
  have new: "holds V off ?s F' page f flags b" using f m(1) w(2) by (simp add: holds_def)
  have lk: "lookup V m p = lookup V (mapper s) p" "fst (the (lookup V m p)) \<notin> F" if "p \<in> dom I" for p
  proof -
    obtain fl c where "I p = Some (fl, c)" using \<open>p \<in> dom I\<close> by auto
    then obtain g where "holds V off s F p g fl c" using loaded_holds [OF l(1)] by blast
    moreover have ne: "p \<noteq> page" using l(2) that by auto
    ultimately have "fst (the (lookup V (mapper s) p)) \<notin> F" by (simp add: holds_def)
    then show "lookup V m p = lookup V (mapper s) p" "fst (the (lookup V m p)) \<notin> F" using m(1) ne by simp_all
  qed
  have pg: "fst (the (lookup V m page)) = f" by (simp add: m(1))
  have sep: "\<forall>p\<in>dom I. \<forall>q\<in>dom I. p \<noteq> q \<longrightarrow> fst (the (lookup V (mapper s) p)) \<noteq> fst (the (lookup V (mapper s) q))"
    using l(1) unfolding pages_built_def by (elim conjE)
  have dist: "fst (the (lookup V m p)) \<noteq> fst (the (lookup V m q))" if pq: "p \<in> insert page (dom I)" "q \<in> insert page (dom I)" "p \<noteq> q" for p q
  proof -
    consider "p = page" "q \<in> dom I" | "q = page" "p \<in> dom I" | "p \<in> dom I" "q \<in> dom I" using pq by blast
    then show ?thesis
    proof cases
      case 3
      then show ?thesis unfolding lk(1) [OF 3(1)] lk(1) [OF 3(2)] using sep 3 pq(3) by blast
    qed (use lk(2) pg f(1) in force)+
  qed
  have "pages_built own V off ?s F' (I ++ map_of (rev [(page, flags, b)]))"
    unfolding pages_built_def
  proof (intro conjI)
    show "\<forall>p fl c. (I ++ map_of (rev [(page, flags, b)])) p = Some (fl, c) \<longrightarrow> (\<exists>f. holds V off ?s F' p f fl c)"
    proof (intro allI impI)
      fix p fl c assume I: "(I ++ map_of (rev [(page, flags, b)])) p = Some (fl, c)"
      show "\<exists>f. holds V off ?s F' p f fl c"
      proof (cases "p = page")
        case True
        then show ?thesis using new I by auto
      next
        case False
        then have "I p = Some (fl, c)" using I by simp
        then obtain g where "holds V off s F p g fl c" using loaded_holds [OF l(1)] by blast
        then show ?thesis using old False by blast
      qed
    qed
    show "\<forall>g\<in>F' \<union> tables V (mapper ?s). frame_ok off g" using ok f(3) m(2) by auto
    have dom: "dom (I ++ map_of (rev [(page, flags, b)])) = insert page (dom I)" "mapper ?s = m" by simp_all
    show "\<forall>p\<in>dom (I ++ map_of (rev [(page, flags, b)])). \<forall>q\<in>dom (I ++ map_of (rev [(page, flags, b)])). p \<noteq> q \<longrightarrow>
        fst (the (lookup V (mapper ?s) p)) \<noteq> fst (the (lookup V (mapper ?s) q))"
      unfolding dom by (intro ballI impI) (rule dist)
  qed (use m(5,6) w(3) in simp_all)
  moreover have "mem' x = phys_mem s x" if "\<forall>g\<in>F \<union> tables V (mapper s). \<not> in_frame off g x" for x
  proof -
    have "\<forall>t\<in>tables V m. \<not> in_frame off t x" "\<not> in_frame off f x" using that m(2) f(1) by auto
    then show ?thesis using w(1) m(4) by simp
  qed
  moreover have "\<forall>q. q \<noteq> page \<longrightarrow> lookup V m q = lookup V (mapper s) q" using m(1) by simp
  ultimately show ?thesis
    using f(3,4) m(2,3) by (simp add: extends_def)
qed

subsection \<open>The bytes of a segment\<close>

text \<open>The byte a segment puts at address \<open>x\<close>: its file data, then zeros.\<close>

definition seg_byte :: "u8 list \<Rightarrow> program_header \<Rightarrow> nat \<Rightarrow> u8" where
  "seg_byte data ph x =
     (if unat (p_vaddr ph) \<le> x \<and> x < unat (p_vaddr ph) + unat (p_filesz ph)
      then data ! (unat (p_offset ph) + (x - unat (p_vaddr ph))) else 0)"

text \<open>A loadable segment of a well-formed file: in the lower half, its file data inside the file.\<close>

definition seg_ok :: "u8 list \<Rightarrow> program_header \<Rightarrow> bool" where
  "seg_ok data ph \<longleftrightarrow> unat (p_vaddr ph) + unat (p_memsz ph) + 4096 < 2 ^ 47 \<and> p_filesz ph \<le> p_memsz ph \<and>
     unat (p_offset ph) + unat (p_filesz ph) \<le> length data \<and> length data < 2 ^ 64"

lemma unat_max: "unat (max a (b :: u64)) = max (unat a) (unat b)"
  by (simp add: max_def word_le_nat_alt)

lemma unat_min: "unat (min a (b :: u64)) = min (unat a) (unat b)"
  by (simp add: min_def word_le_nat_alt)

text \<open>Copying into a frame, byte by byte.\<close>

lemma copy_into_frame:
  assumes f: "frame_ok off f" and d: "d + length bs \<le> 4096"
  shows "\<not> in_frame off f x \<Longrightarrow> copy_bytes mem (off + f + of_nat d) bs x = mem x"
    "i < 4096 \<Longrightarrow> copy_bytes mem (off + f + of_nat d) bs (off + f + of_nat i) =
       (if d \<le> i \<and> i < d + length bs then bs ! (i - d) else mem (off + f + of_nat i))"
proof -
  let ?b = "off + f + of_nat d"
  have hit: "unat (y - ?b) < length bs \<longleftrightarrow> unat ?b \<le> unat y \<and> unat y < unat ?b + length bs" if "d < 4096" for y
    using within_iff [of ?b "length bs" y] in_frame_offset(3) [OF f that] d f unfolding frame_ok_def by linarith
  show "copy_bytes mem ?b bs x = mem x" if "\<not> in_frame off f x"
  proof (cases "d < 4096")
    case True
    then show ?thesis
      using that hit [OF True, of x] in_frame_offset(3) [OF f True] d unfolding copy_bytes_def in_frame_iff [OF f] by auto
  qed (use d in \<open>simp add: copy_bytes_def\<close>)
  show "copy_bytes mem ?b bs (off + f + of_nat i) = (if d \<le> i \<and> i < d + length bs then bs ! (i - d) else mem (off + f + of_nat i))"
    if i: "i < 4096"
  proof (cases "d < 4096")
    case True
    note u = in_frame_offset(3) [OF f True] in_frame_offset(3) [OF f i]
    have "unat (off + f + of_nat i - ?b) = i - d" if "d \<le> i"
      using that unat_sub [of ?b "off + f + of_nat i"] unfolding word_le_nat_alt u by simp
    then show ?thesis
      using hit [OF True, of "off + f + of_nat i"] unfolding copy_bytes_def u by auto
  qed (use d i in \<open>simp add: copy_bytes_def\<close>)
qed

text \<open>
  The copy of one page: \<open>first\<close> and \<open>stop\<close> delimit the file data in the page, and \<open>d\<close> is where it
  starts within the page.
\<close>

lemma copy_page_run:
  assumes seg: "seg_ok data ph" and page: "unat page + 4096 < 2 ^ 64" and s: "serial1 (console s)"
  defines "first \<equiv> max (unat (p_vaddr ph)) (unat page)"
    and "stop \<equiv> min (unat (p_vaddr ph) + unat (p_filesz ph)) (unat page + 4096)"
  obtains (none) "copy_page data ph page ptr s = Inr s" "stop \<le> first"
  | (some) io where "first < stop" "serial1 io" "copy_page data ph page ptr s = Inr (s\<lparr>console := io,
        phys_mem := copy_bytes (phys_mem s) (ptr + of_nat (first - unat page))
          (take (stop - first) (drop (unat (p_offset ph) + (first - unat (p_vaddr ph))) data))\<rparr>)"
proof -
  let ?v = "p_vaddr ph" and ?z = "p_filesz ph" and ?o = "p_offset ph"
  have sz: "unat ?v + unat ?z < 2 ^ 47" "unat ?o + unat ?z \<le> length data" "length data < 2 ^ 64"
    using seg by (auto simp: seg_ok_def word_le_nat_alt)
  have pe: "u64_add page 4096 = Inr (page + 4096)" "unat (page + 4096) = unat page + 4096"
    using page by (simp_all add: u64_add_ok unat_add_u64)
  have fe: "u64_add ?v ?z = Inr (?v + ?z)" "unat (?v + ?z) = unat ?v + unat ?z"
    using sz by (simp_all add: u64_add_ok unat_add_u64)
  define cs where "cs = max ?v page"
  define ce where "ce = min (?v + ?z) (page + 4096)"
  have ucs: "unat cs = first" and uce: "unat ce = stop"
    by (simp_all add: cs_def ce_def unat_max unat_min fe(2) pe(2) first_def stop_def)
  have guard: "?v + ?z > page \<and> ?v < page + 4096 \<longleftrightarrow> unat page < unat ?v + unat ?z \<and> unat ?v < unat page + 4096"
    by (simp add: word_less_nat_alt fe(2) pe(2))
  have run: "copy_page data ph page ptr s =
      (if ?v + ?z > page \<and> ?v < page + 4096 then
         and_then (u64_sub ce cs) (\<lambda>len. if len > 0 then
            and_then (u64_sub cs ?v) (\<lambda>into. and_then (u64_add ?o into) (\<lambda>file_offset.
            and_then (u64_add file_offset len) (\<lambda>file_end. and_then (slice data file_offset file_end) (\<lambda>src.
            and_then (u64_sub cs page) (\<lambda>page_off.
            and_then (print_line (''      Copying '' @ dec len @ '' bytes at offset '' @ dec page_off @ '' in page'') s) (\<lambda>s.
            Inr (s\<lparr>phys_mem := copy_bytes (phys_mem s) (ptr + page_off) src\<rparr>)))))))
          else Inr s)
       else Inr s)"
    unfolding copy_page_def pe(1) fe(1) cs_def ce_def by (simp add: Let_def)
  show thesis
  proof (cases "first < stop")
    case False
    have "cs = ce" if "?v + ?z > page \<and> ?v < page + 4096"
      using that False unfolding guard word_unat_eq_iff ucs uce by (simp add: first_def stop_def)
    then have "copy_page data ph page ptr s = Inr s"
      unfolding run by (auto simp: u64_sub_def)
    then show ?thesis using False none by simp
  next
    case True
    have g: "?v + ?z > page \<and> ?v < page + 4096" unfolding guard using True by (auto simp: first_def stop_def)
    have ge: "unat ?v \<le> first" "unat page \<le> first" "stop \<le> unat ?v + unat ?z" by (simp_all add: first_def stop_def)
    have len: "u64_sub ce cs = Inr (ce - cs)" "unat (ce - cs) = stop - first" "0 < ce - cs"
      using True by (auto simp: u64_sub_ok word_le_nat_alt word_less_nat_alt unat_sub ucs uce)
    have into: "u64_sub cs ?v = Inr (cs - ?v)" "unat (cs - ?v) = first - unat ?v"
      using ge by (simp_all add: u64_sub_ok word_le_nat_alt unat_sub ucs)
    have po: "u64_sub cs page = Inr (cs - page)" "unat (cs - page) = first - unat page"
      using ge by (simp_all add: u64_sub_ok word_le_nat_alt unat_sub ucs)
    have po': "of_nat (first - unat page) = cs - page" unfolding po(2) [symmetric] by simp
    have fo: "u64_add ?o (cs - ?v) = Inr (?o + (cs - ?v))" "unat (?o + (cs - ?v)) = unat ?o + (first - unat ?v)"
      using True ge sz into(2) by (simp_all add: u64_add_ok unat_add_u64)
    have bound: "unat (?o + (cs - ?v)) + unat (ce - cs) < 2 ^ 64" unfolding fo(2) len(2) using True ge sz by linarith
    have fe': "u64_add (?o + (cs - ?v)) (ce - cs) = Inr (?o + (cs - ?v) + (ce - cs))"
        "unat (?o + (cs - ?v) + (ce - cs)) = unat ?o + (first - unat ?v) + (stop - first)"
      using u64_add_ok [OF bound] unat_add_u64 [OF bound] unfolding fo(2) len(2) by simp_all
    have sl: "slice data (?o + (cs - ?v)) (?o + (cs - ?v) + (ce - cs)) =
        Inr (take (stop - first) (drop (unat ?o + (first - unat ?v)) data))"
    proof -
      have "unat ?o + (first - unat ?v) + (stop - first) \<le> length data" using True ge sz by linarith
      then show ?thesis unfolding slice_def word_le_nat_alt fo(2) fe'(2) by simp
    qed
    obtain io where io: "print_line (''      Copying '' @ dec (ce - cs) @ '' bytes at offset '' @ dec (cs - page) @ '' in page'') s =
        Inr (s\<lparr>console := io\<rparr>)" "serial1 io"
      by (rule print_line_ok [OF s])
    show ?thesis
      by (rule some [OF True io(2)]) (unfold run if_P [OF g] len(1) and_then.simps if_P [OF len(3)] into(1) fo(1) fe'(1) sl po(1) io(1), simp add: po')
  qed
qed

lemma copy_page_ok:
  assumes seg: "seg_ok data ph" and page: "unat page + 4096 < 2 ^ 64" and f: "frame_ok off f"
    and s: "serial1 (console s)" "\<forall>i<4096. phys_mem s (off + f + of_nat i) = 0"
  obtains mem io where "copy_page data ph page (off + f) s = Inr (s\<lparr>phys_mem := mem, console := io\<rparr>)" "serial1 io"
    "\<forall>x. \<not> in_frame off f x \<longrightarrow> mem x = phys_mem s x"
    "\<forall>i<4096. mem (off + f + of_nat i) = seg_byte data ph (unat page + i)"
  using seg page s(1)
proof (cases rule: copy_page_run [where ptr = "off + f"])
  case none
  then have "seg_byte data ph (unat page + i) = 0" if "i < 4096" for i
    using that by (auto simp: seg_byte_def)
  then show ?thesis
    using that [where mem = "phys_mem s" and io = "console s"] s none(1) by simp
next
  case (some io)
  let ?v = "unat (p_vaddr ph)" and ?z = "unat (p_filesz ph)" and ?o = "unat (p_offset ph)" and ?p = "unat page"
  let ?first = "max ?v ?p" and ?stop = "min (?v + ?z) (?p + 4096)"
  let ?src = "take (?stop - ?first) (drop (?o + (?first - ?v)) data)"
  have sz: "?o + ?z \<le> length data" using seg by (simp add: seg_ok_def)
  have len: "length ?src = ?stop - ?first" using sz some(1) by auto
  have d: "?first - ?p + length ?src \<le> 4096" unfolding len using some(1) by linarith
  note copy = copy_into_frame [OF f d, of _ "phys_mem s"]
  show ?thesis
  proof (rule that)
    show "copy_page data ph page (off + f) s =
        Inr (s\<lparr>phys_mem := copy_bytes (phys_mem s) (off + f + of_nat (?first - ?p)) ?src, console := io\<rparr>)"
      using some(3) by (cases s) simp
    show "\<forall>i<4096. copy_bytes (phys_mem s) (off + f + of_nat (?first - ?p)) ?src (off + f + of_nat i) = seg_byte data ph (?p + i)"
    proof (intro allI impI)
      fix i :: nat assume i: "i < 4096"
      have "?src ! (i - (?first - ?p)) = seg_byte data ph (?p + i)" if "?first \<le> ?p + i" "?p + i < ?stop"
      proof -
        have "?o + (?first - ?v) + (i - (?first - ?p)) = ?o + (?p + i - ?v)" using that(1) by linarith
        moreover have "i - (?first - ?p) < ?stop - ?first" using that by linarith
        ultimately show ?thesis using that sz by (simp add: seg_byte_def)
      qed
      moreover have "seg_byte data ph (?p + i) = 0" if "\<not> (?first \<le> ?p + i \<and> ?p + i < ?stop)"
        using that i by (auto simp: seg_byte_def)
      moreover have "?first - ?p \<le> i \<and> i < ?first - ?p + (?stop - ?first) \<longleftrightarrow> ?first \<le> ?p + i \<and> ?p + i < ?stop"
        using some(1) by linarith
      ultimately show "copy_bytes (phys_mem s) (off + f + of_nat (?first - ?p)) ?src (off + f + of_nat i) = seg_byte data ph (?p + i)"
        unfolding copy(2) [OF i] len using s(2) i by auto
    qed
  qed (use some(2) copy(1) in auto)
qed

end
