(* ===== verification/Elf_Correct.thy ===== *)
theory Elf_Correct
  imports Elf_Pages
begin

text \<open>
  Correctness of the ELF loader: for a well-formed file, with enough free frames and the pages it needs
  unmapped, \<open>load_elf\<close> returns, and in the address space it leaves behind every loadable segment has its file data
  followed by zeros at its virtual addresses, and the user stack is mapped and zero. The proof follows
  the pages one by one, once for every frame allocator that meets \<open>frame_source\<close>.
\<close>

subsection \<open>Parts of a load\<close>

text \<open>The pages of a plan are distinct, unmapped and not yet built.\<close>

definition fresh :: "'m page_view \<Rightarrow> ('m, 'a) loader \<Rightarrow> image \<Rightarrow> plan \<Rightarrow> bool" where
  "fresh V s I ps \<longleftrightarrow> distinct (map fst ps) \<and> (\<forall>p\<in>fst ` set ps. ready V (mapper s) p \<and> p \<notin> dom I)"

lemma fresh_append:
  assumes "fresh V s I (ps @ qs)" "extends own V off s F I ps s' F'"
  shows "fresh V s' (I ++ map_of (rev ps)) qs"
proof -
  have f: "distinct (map fst qs)" "fst ` set ps \<inter> fst ` set qs = {}"
      "\<And>p. p \<in> fst ` set qs \<Longrightarrow> ready V (mapper s) p \<and> p \<notin> dom I"
    using assms(1) by (auto simp: fresh_def)
  have "ready V (mapper s') p \<and> p \<notin> dom (I ++ map_of (rev ps))" if p: "p \<in> fst ` set qs" for p
  proof -
    have np: "p \<notin> fst ` set ps" using f(2) p by blast
    then have "ready V (mapper s') p" using assms(2) f(3) [OF p] unfolding extends_def by blast
    moreover have "p \<notin> dom (map_of (rev ps))" unfolding dom_map_of_conv_image_fst set_rev by (rule np)
    then have "p \<notin> dom (I ++ map_of (rev ps))" using f(3) [OF p] by simp
    ultimately show ?thesis ..
  qed
  then show ?thesis using f(1) by (simp add: fresh_def)
qed

lemma room_append: "extends own V off s F I ps s' F' \<Longrightarrow> 4 * length (ps @ qs) \<le> card F \<Longrightarrow> 4 * length qs \<le> card F'"
  by (simp add: extends_def)

lemma extends_loaded: "extends own V off s F I ps s' F' \<Longrightarrow> pages_built own V off s' F' (I ++ map_of (rev ps))"
  by (simp add: extends_def)

lemma loaded_serial: "pages_built own V off s F I \<Longrightarrow> serial1 (console s)"
  by (simp add: pages_built_def)

text \<open>A loop whose body builds the pages \<open>pl x\<close> for each element builds all of them.\<close>

lemma for_each_extends:
  assumes "\<And>x s F I. x \<in> set xs \<Longrightarrow> pages_built own V off s F I \<Longrightarrow> 4 * length (pl x) \<le> card F \<Longrightarrow> fresh V s I (pl x) \<Longrightarrow>
      \<exists>s' F'. body x s = Inr (s', Inr ()) \<and> extends own V off s F I (pl x) s' F'"
    "pages_built own V off s F I" "4 * length (concat (map pl xs)) \<le> card F" "fresh V s I (concat (map pl xs))"
  shows "\<exists>s' F'. for_each body xs s = Inr (s', Inr ()) \<and> extends own V off s F I (concat (map pl xs)) s' F'"
  using assms
proof (induction xs arbitrary: s F I)
  case Nil
  then show ?case using extends_refl [OF Nil(2)] by (intro exI [of _ s] exI [of _ F]) simp
next
  case (Cons x xs)
  let ?qs = "concat (map pl xs)"
  have p: "4 * length (pl x @ ?qs) \<le> card F" "fresh V s I (pl x @ ?qs)" using Cons.prems(3,4) by simp_all
  have "fresh V s I (pl x)" "4 * length (pl x) \<le> card F" using p by (auto simp: fresh_def)
  then obtain s1 F1 where 1: "body x s = Inr (s1, Inr ())" "extends own V off s F I (pl x) s1 F1"
    using Cons.prems(1,2) by (meson list.set_intros(1))
  have step: "\<And>y s F I. y \<in> set xs \<Longrightarrow> pages_built own V off s F I \<Longrightarrow> 4 * length (pl y) \<le> card F \<Longrightarrow> fresh V s I (pl y) \<Longrightarrow>
      \<exists>s' F'. body y s = Inr (s', Inr ()) \<and> extends own V off s F I (pl y) s' F'"
    using Cons.prems(1) by (meson list.set_intros(2))
  obtain s2 F2 where 2: "for_each body xs s1 = Inr (s2, Inr ())" "extends own V off s1 F1 (I ++ map_of (rev (pl x))) ?qs s2 F2"
    using Cons.IH [OF step extends_loaded [OF 1(2)] room_append [OF 1(2) p(1)] fresh_append [OF p(2) 1(2)]] by blast
  have "for_each body (x # xs) s = Inr (s2, Inr ())" using 1(1) 2(1) by (simp add: try_then_def)
  then show ?case using extends_trans [OF 1(2) 2(2)] by auto
qed

subsection \<open>The pages of a file\<close>

text \<open>A page of the lower half.\<close>

definition user_page :: "u64 \<Rightarrow> bool" where
  "user_page p \<longleftrightarrow> 4096 dvd unat p \<and> unat p + 4096 < 2 ^ 47"

lemma user_page_simps:
  assumes "user_page p"
  shows "p AND NOT 0xFFF = p" "canonical p" "unat p + 4096 < 2 ^ 64"
proof -
  have "unat (p AND NOT (mask 12)) = unat p" using assms unat_and_not_mask [of p 12] by (simp add: user_page_def)
  then show "p AND NOT 0xFFF = p" by (simp add: mask_eq_exp_minus_1 word_unat_eq_iff)
  show "canonical p" "unat p + 4096 < 2 ^ 64" using assms by (simp_all add: user_page_def canonical_def)
qed

lemma page_steps_set:
  assumes "4096 dvd unat a" "4096 dvd unat b"
  shows "set (page_steps a b) = {p. 4096 dvd unat p \<and> unat a \<le> unat p \<and> unat p < unat b}" "distinct (page_steps a b)"
proof -
  obtain i j where ij: "unat a = 4096 * i" "unat b = 4096 * j" using assms by (auto simp: dvd_def)
  let ?n = "(unat b - unat a + 4095) div 4096"
  have n: "?n = j - i" unfolding ij by simp
  have bnd: "unat b < 2 ^ 64" using unsigned_less [of b] by simp
  have u: "unat (a + of_nat k * 4096) = 4096 * (i + k)" if "k < j - i" for k
  proof -
    have "4096 * (i + k) < 4096 * j" using that by simp
    then have "unat a + k * 4096 < 2 ^ 64" using bnd ij by simp
    then show ?thesis using unat_of_nat_u64 [of "k * 4096"] ij(1) by (subst unat_add_u64) simp_all
  qed
  show "set (page_steps a b) = {p. 4096 dvd unat p \<and> unat a \<le> unat p \<and> unat p < unat b}"
  proof (intro equalityI subsetI)
    fix p assume "p \<in> set (page_steps a b)"
    then obtain k where "k < j - i" "p = a + of_nat k * 4096" unfolding page_steps_def n by auto
    then show "p \<in> {p. 4096 dvd unat p \<and> unat a \<le> unat p \<and> unat p < unat b}" using u [of k] ij by auto
  next
    fix p :: u64 assume "p \<in> {p. 4096 dvd unat p \<and> unat a \<le> unat p \<and> unat p < unat b}"
    then obtain q where q: "unat p = 4096 * q" "i \<le> q" "q < j" using ij by (auto simp: dvd_def)
    then have "p = a + of_nat (q - i) * 4096" using u [of "q - i"] by (simp add: word_unat_eq_iff)
    moreover have "q - i \<in> set [0..<j - i]" using q by simp
    ultimately show "p \<in> set (page_steps a b)" unfolding page_steps_def n set_map by (rule image_eqI)
  qed
  show "distinct (page_steps a b)"
    unfolding page_steps_def n distinct_map
  proof (intro conjI inj_onI)
    fix k l assume kl: "k \<in> set [0..<j - i]" "l \<in> set [0..<j - i]" "a + of_nat k * 4096 = a + of_nat l * 4096"
    have b: "k < j - i" "l < j - i" using kl(1,2) by simp_all
    have "4096 * (i + k) = 4096 * (i + l)" unfolding u [OF b(1), symmetric] u [OF b(2), symmetric] kl(3) by (rule refl)
    then show "k = l" by simp
  qed simp
qed

definition seg_plan :: "u8 list \<Rightarrow> program_header \<Rightarrow> plan" where
  "seg_plan data ph =
     map (\<lambda>p. (p, page_flags ph, \<lambda>i. seg_byte data ph (unat p + i)))
       (page_steps (p_vaddr ph AND NOT 0xFFF) ((p_vaddr ph + p_memsz ph + 0xFFF) AND NOT 0xFFF))"

lemma seg_pages:
  assumes "seg_ok data ph"
  shows "fst ` set (seg_plan data ph) = {p. 4096 dvd unat p \<and> unat (p_vaddr ph) div 4096 * 4096 \<le> unat p \<and>
      unat p < (unat (p_vaddr ph) + unat (p_memsz ph) + 4095) div 4096 * 4096}"
    and "p \<in> fst ` set (seg_plan data ph) \<Longrightarrow> user_page p"
    and "u64_add (p_vaddr ph) (p_memsz ph) = Inr (p_vaddr ph + p_memsz ph)"
    and "u64_add (p_vaddr ph + p_memsz ph) 0xFFF = Inr (p_vaddr ph + p_memsz ph + 0xFFF)"
proof -
  let ?v = "p_vaddr ph" and ?m = "p_memsz ph"
  have b: "unat ?v + unat ?m + 4096 < 2 ^ 47" using assms by (simp add: seg_ok_def)
  have e1: "unat (?v + ?m) = unat ?v + unat ?m" using b by (intro unat_add_u64) simp
  have e: "unat (?v + ?m + 0xFFF) = unat ?v + unat ?m + 4095" using b e1 by (subst unat_add_u64) simp_all
  show "u64_add ?v ?m = Inr (?v + ?m)" "u64_add (?v + ?m) 0xFFF = Inr (?v + ?m + 0xFFF)"
    using b e1 by (simp_all add: u64_add_ok)
  have m: "unat (x AND NOT 0xFFF) = unat x div 4096 * 4096" for x :: u64
    using unat_and_not_mask [of x 12] by (simp add: mask_eq_exp_minus_1)
  have "fst ` set (seg_plan data ph) = set (page_steps (?v AND NOT 0xFFF) ((?v + ?m + 0xFFF) AND NOT 0xFFF))"
    by (simp add: seg_plan_def image_comp)
  also have "\<dots> = {p. 4096 dvd unat p \<and> unat ?v div 4096 * 4096 \<le> unat p \<and> unat p < (unat ?v + unat ?m + 4095) div 4096 * 4096}"
    unfolding page_steps_set(1) [of "?v AND NOT 0xFFF" "(?v + ?m + 0xFFF) AND NOT 0xFFF", unfolded m, OF dvd_triv_right dvd_triv_right] e ..
  finally show pages: "fst ` set (seg_plan data ph) = \<dots>" .
  show "user_page p" if p: "p \<in> fst ` set (seg_plan data ph)"
  proof -
    obtain q where q: "unat p = 4096 * q" "4096 * q < (unat ?v + unat ?m + 4095) div 4096 * 4096"
      using p unfolding pages by (auto simp: dvd_def)
    then have "q < (unat ?v + unat ?m + 4095) div 4096" by simp
    then have "4096 * q + 4096 \<le> (unat ?v + unat ?m + 4095) div 4096 * 4096" by simp
    also have "\<dots> \<le> unat ?v + unat ?m + 4095" by simp
    finally show ?thesis using b q(1) by (simp add: user_page_def)
  qed
qed

definition stack_plan :: plan where
  "stack_plan = map (\<lambda>p. (p, PRESENT OR WRITABLE OR USER_ACCESSIBLE OR NO_EXECUTE, \<lambda>_. 0))
     (page_steps (USER_STACK_TOP - USER_STACK_SIZE) USER_STACK_TOP)"

definition phdr_of :: "('m, 'a, 'f) elf_env \<Rightarrow> u8 list \<Rightarrow> nat \<Rightarrow> program_header" where
  "phdr_of E data i = phdr_at E (drop (unat (e_phoff (header_at E data)) + i * unat (e_phentsize (header_at E data))) data)"

definition elf_plan :: "('m, 'a, 'f) elf_env \<Rightarrow> u8 list \<Rightarrow> plan" where
  "elf_plan E data =
     concat (map (\<lambda>i. if p_type (phdr_of E data i) = 1 then seg_plan data (phdr_of E data i) else [])
       [0..<unat (e_phnum (header_at E data))]) @ stack_plan"

text \<open>A well-formed file: the header checks pass, and the program headers and the data of the segments lie inside.\<close>

definition elf_ok :: "('m, 'a, 'f) elf_env \<Rightarrow> u8 list \<Rightarrow> bool" where
  "elf_ok E data \<longleftrightarrow> length data < 2 ^ 64 \<and> unat (header_len E) \<le> length data \<and>
     take 4 (e_ident (header_at E data)) = [0x7F, 0x45, 0x4C, 0x46] \<and> e_ident (header_at E data) ! 4 = 2 \<and>
     (\<forall>i<unat (e_phnum (header_at E data)).
        unat (e_phoff (header_at E data)) + i * unat (e_phentsize (header_at E data)) + unat (phdr_len E) \<le> length data \<and>
        (p_type (phdr_of E data i) = 1 \<longrightarrow> seg_ok data (phdr_of E data i)))"

lemma stack_pages:
  "fst ` set stack_plan = {p. 4096 dvd unat p \<and> 0x7FFFEF000 \<le> unat p \<and> unat p < 0x7FFFFF000}"
proof -
  have "fst ` set stack_plan = set (page_steps 0x7FFFEF000 0x7FFFFF000)"
    by (simp add: stack_plan_def USER_STACK_TOP_def USER_STACK_SIZE_def USER_STACK_PAGES_def image_comp)
  then show ?thesis using page_steps_set(1) [of "0x7FFFEF000" "0x7FFFFF000"] by simp
qed

lemma unat_u16_u64: "unat (ucast (x :: u16) :: u64) = unat x"
proof -
  have "unat x < 2 ^ LENGTH(16)" by (rule unsigned_less)
  then have "unat x < 2 ^ 64" by simp
  then show ?thesis unfolding unsigned_ucast_eq by (simp add: take_bit_eq_mod)
qed

subsection \<open>The loader on any frame allocator\<close>

context frame_source
begin

text \<open>\<open>map_user_page\<close> gives the page a frame of its own and leaves the pages built before as they are.\<close>

lemma map_user_page_ok:
  assumes E: "env_laws E (take_frame c) (owns c) V off" "frame_start E = start_of c"
    and l: "pages_built (owns c) V off s F I" and room: "4 \<le> card F"
    and page: "ready V (mapper s) page" "page AND NOT 0xFFF = page" "page \<notin> dom I"
  obtains f m mem a F' where
    "map_user_page E (take_frame c) page flags s = Inr (s\<lparr>mapper := m, phys_mem := mem, frames_from := a\<rparr>, Inr f)"
    "f \<in> F" "f \<notin> F'" "F' \<subseteq> F" "card F \<le> card F' + 4" "f \<notin> tables V m" "frame_ok off f"
    "lookup V m = (lookup V (mapper s))(page \<mapsto> (f, flags))" "tables V m \<subseteq> tables V (mapper s) \<union> F"
    "\<forall>q. ready V (mapper s) q \<and> q \<noteq> page \<longrightarrow> ready V m q"
    "\<forall>x. (\<forall>t\<in>tables V m. \<not> in_frame off t x) \<longrightarrow> mem x = phys_mem s x"
    "owns c a F'" "F' \<inter> tables V m = {}"
proof -
  have own: "owns c (frames_from s) F" and dj: "F \<inter> tables V (mapper s) = {}" and ok: "\<And>g. g \<in> F \<Longrightarrow> frame_ok off g"
    using l by (auto simp: pages_built_def)
  have "F \<noteq> {}" using room by auto
  then obtain f a where a: "take_frame c (frames_from s) = Inr (Some f, a)" "start_of c f \<in> F" "owns c a (F - {start_of c f})"
    using take_some [OF own] by blast
  let ?f = "start_of c f"
  have card: "card (F - {?f}) = card F - 1" using a(2) by simp
  have pre: "3 \<le> card (F - {?f})" "frame_start E f \<notin> (F - {?f}) \<union> tables V (mapper s)"
    using a(2) card room dj E(2) by auto
  have laws: "map_to_laws E (take_frame c) (owns c) V off" using E(1) by (simp add: env_laws_def)
  obtain m mem a' F' where m: "map_to E (take_frame c) (mapper s) (phys_mem s) a page f flags = Inr (True, m, mem, a')"
      "owns c a' F'" "F' \<subseteq> F - {?f}" "card (F - {?f}) \<le> card F' + 3"
      "lookup V m = (lookup V (mapper s))(page \<mapsto> (frame_start E f, flags))"
      "tables V m \<subseteq> tables V (mapper s) \<union> (F - {?f} - F')" "\<forall>q. ready V (mapper s) q \<and> q \<noteq> page \<longrightarrow> ready V m q"
      "\<forall>x. (\<forall>t\<in>tables V m. \<not> in_frame off t x) \<longrightarrow> mem x = phys_mem s x"
    by (rule map_to_lawsE [OF laws a(3) pre page(1)]) (rule that)
  have "page_containing E page = page" using E(1) page(2) by (simp add: env_laws_def)
  then have "map_user_page E (take_frame c) page flags s = Inr (s\<lparr>mapper := m, phys_mem := mem, frames_from := a'\<rparr>, Inr ?f)"
    using a(1) m(1) E(2) by (simp add: map_user_page_def)
  then show thesis
    by (rule that) (use m a dj card room ok E(2) in auto)
qed

lemma load_page_ok:
  assumes E: "env_laws E (take_frame c) (owns c) V off" "frame_start E = start_of c"
    and l: "pages_built (owns c) V off s F I" and room: "4 \<le> card F"
    and page: "ready V (mapper s) page" "user_page page" "page \<notin> dom I" and seg: "seg_ok data ph"
  shows "\<exists>s' F'. load_page E (take_frame c) off data ph page s = Inr (s', Inr ()) \<and>
    extends (owns c) V off s F I [(page, page_flags ph, \<lambda>i. seg_byte data ph (unat page + i))] s' F'"
proof -
  note p = user_page_simps [OF page(2)]
  obtain f m mem a F' where r:
    "map_user_page E (take_frame c) page (page_flags ph) s = Inr (s\<lparr>mapper := m, phys_mem := mem, frames_from := a\<rparr>, Inr f)"
    and f: "f \<in> F" "f \<notin> F'" "F' \<subseteq> F" "card F \<le> card F' + 4" "f \<notin> tables V m" "frame_ok off f"
    and m: "lookup V m = (lookup V (mapper s))(page \<mapsto> (f, page_flags ph))" "tables V m \<subseteq> tables V (mapper s) \<union> F"
      "\<forall>q. ready V (mapper s) q \<and> q \<noteq> page \<longrightarrow> ready V m q"
      "\<forall>x. (\<forall>t\<in>tables V m. \<not> in_frame off t x) \<longrightarrow> mem x = phys_mem s x" "owns c a F'" "F' \<inter> tables V m = {}"
    by (rule map_user_page_ok [OF E l room page(1) p(1) page(3), of "page_flags ph"])
  let ?mem = "write_bytes mem (off + f) 0 4096"
  let ?s = "s\<lparr>mapper := m, frames_from := a, phys_mem := ?mem\<rparr>"
  have z: "\<forall>i<4096. phys_mem ?s (off + f + of_nat i) = 0"
    using in_frame_offset(1) [OF f(6)] by (simp add: write_bytes_def in_frame_def)
  have ser: "serial1 (console ?s)" using loaded_serial [OF l] by simp
  obtain mem' io where c: "copy_page data ph page (off + f) ?s = Inr (?s\<lparr>phys_mem := mem', console := io\<rparr>)" "serial1 io"
      "\<forall>x. \<not> in_frame off f x \<longrightarrow> mem' x = phys_mem ?s x" "\<forall>i<4096. mem' (off + f + of_nat i) = seg_byte data ph (unat page + i)"
    by (rule copy_page_ok [OF seg p(3) f(6) ser z])
  have w: "\<forall>x. \<not> in_frame off f x \<longrightarrow> mem' x = mem x" using c(3) by (simp add: write_bytes_def in_frame_def)
  have "virt_addr E page = Inr page" using E(1) p(2) by (simp add: env_laws_def virt_laws_def)
  moreover have "u64_add off f = Inr (off + f)" using f(6) by (simp add: u64_add_ok frame_ok_def)
  ultimately have "load_page E (take_frame c) off data ph page s =
      Inr (s\<lparr>mapper := m, frames_from := a, phys_mem := mem', console := io\<rparr>, Inr ())"
    using r c(1) by (simp add: load_page_def try_then_def map_err_def)
  moreover note page_built [OF l page(3) f m w c(4,2)]
  ultimately show ?thesis by blast
qed

lemma load_stack_page_ok:
  assumes E: "env_laws E (take_frame c) (owns c) V off" "frame_start E = start_of c"
    and l: "pages_built (owns c) V off s F I" and room: "4 \<le> card F"
    and page: "ready V (mapper s) page" "user_page page" "page \<notin> dom I"
  shows "\<exists>s' F'. load_stack_page E (take_frame c) off page s = Inr (s', Inr ()) \<and>
    extends (owns c) V off s F I [(page, PRESENT OR WRITABLE OR USER_ACCESSIBLE OR NO_EXECUTE, \<lambda>_. 0)] s' F'"
proof -
  let ?fl = "PRESENT OR WRITABLE OR USER_ACCESSIBLE OR NO_EXECUTE"
  note p = user_page_simps [OF page(2)]
  obtain f m mem a F' where r:
    "map_user_page E (take_frame c) page ?fl s = Inr (s\<lparr>mapper := m, phys_mem := mem, frames_from := a\<rparr>, Inr f)"
    and f: "f \<in> F" "f \<notin> F'" "F' \<subseteq> F" "card F \<le> card F' + 4" "f \<notin> tables V m" "frame_ok off f"
    and m: "lookup V m = (lookup V (mapper s))(page \<mapsto> (f, ?fl))" "tables V m \<subseteq> tables V (mapper s) \<union> F"
      "\<forall>q. ready V (mapper s) q \<and> q \<noteq> page \<longrightarrow> ready V m q"
      "\<forall>x. (\<forall>t\<in>tables V m. \<not> in_frame off t x) \<longrightarrow> mem x = phys_mem s x" "owns c a F'" "F' \<inter> tables V m = {}"
    by (rule map_user_page_ok [OF E l room page(1) p(1) page(3), of ?fl])
  let ?mem = "write_bytes mem (off + f) 0 4096"
  have w: "\<forall>x. \<not> in_frame off f x \<longrightarrow> ?mem x = mem x" "\<forall>i<4096. ?mem (off + f + of_nat i) = 0"
    using in_frame_offset(1) [OF f(6)] by (simp_all add: write_bytes_def in_frame_def)
  have "virt_addr E page = Inr page" using E(1) p(2) by (simp add: env_laws_def virt_laws_def)
  moreover have "u64_add off f = Inr (off + f)" using f(6) by (simp add: u64_add_ok frame_ok_def)
  ultimately have "load_stack_page E (take_frame c) off page s =
      Inr (s\<lparr>mapper := m, frames_from := a, phys_mem := ?mem, console := console s\<rparr>, Inr ())"
    using r by (cases s) (simp add: load_stack_page_def try_then_def map_err_def)
  moreover note page_built [OF l page(3) f m w loaded_serial [OF l]]
  ultimately show ?thesis by blast
qed

lemma load_segment_ok:
  assumes E: "env_laws E (take_frame c) (owns c) V off" "frame_start E = start_of c" and seg: "seg_ok data ph"
    and l: "pages_built (owns c) V off s F I" "4 * length (seg_plan data ph) \<le> card F" "fresh V s I (seg_plan data ph)"
  shows "\<exists>s' F'. load_segment E (take_frame c) off data ph s = Inr (s', Inr ()) \<and>
    extends (owns c) V off s F I (seg_plan data ph) s' F'"
proof -
  let ?ps = "page_steps (p_vaddr ph AND NOT 0xFFF) ((p_vaddr ph + p_memsz ph + 0xFFF) AND NOT 0xFFF)"
  let ?pl = "\<lambda>p. [(p, page_flags ph, \<lambda>i. seg_byte data ph (unat p + i))]"
  have pl: "concat (map ?pl ?ps) = seg_plan data ph" by (simp add: seg_plan_def)
  have user: "user_page p" if "p \<in> set ?ps" for p
    using seg_pages(2) [OF seg] that by (simp add: seg_plan_def image_comp)
  obtain io where io: "print_line (''  LOAD: vaddr=0x'' @ hex (p_vaddr ph) @ '', memsz=0x'' @ hex (p_memsz ph) @
      '', filesz=0x'' @ hex (p_filesz ph) @ '', flags=0x'' @ hex (ucast (p_flags ph))) s = Inr (s\<lparr>console := io\<rparr>)" "serial1 io"
    by (rule print_line_ok [OF loaded_serial [OF l(1)]])
  let ?s = "s\<lparr>console := io\<rparr>"
  have step: "\<exists>s' F'. load_page E (take_frame c) off data ph p s = Inr (s', Inr ()) \<and> extends (owns c) V off s F I (?pl p) s' F'"
    if "p \<in> set ?ps" "pages_built (owns c) V off s F I" "4 * length (?pl p) \<le> card F" "fresh V s I (?pl p)" for p s F I
    using load_page_ok [OF E that(2) _ _ user [OF that(1)] _ seg] that(3,4) by (simp add: fresh_def)
  have "fresh V ?s I (concat (map ?pl ?ps))" "4 * length (concat (map ?pl ?ps)) \<le> card F"
    unfolding pl using l(2,3) by (simp_all add: fresh_def)
  from for_each_extends [OF step loaded_console [OF l(1) io(2)] this(2,1)]
  obtain s' F' where r: "for_each (load_page E (take_frame c) off data ph) ?ps ?s = Inr (s', Inr ())"
      "extends (owns c) V off ?s F I (seg_plan data ph) s' F'"
    unfolding pl by blast
  have "load_segment E (take_frame c) off data ph s = Inr (s', Inr ())"
    unfolding load_segment_def io(1) and_then.simps seg_pages(3,4) [OF seg] Let_def by (rule r(1))
  then show ?thesis using r(2) extends_console by blast
qed

lemma load_stack_ok:
  assumes E: "env_laws E (take_frame c) (owns c) V off" "frame_start E = start_of c"
    and l: "pages_built (owns c) V off s F I" "4 * length stack_plan \<le> card F" "fresh V s I stack_plan"
  shows "\<exists>s' F'. load_stack E (take_frame c) off s = Inr (s', Inr ()) \<and> extends (owns c) V off s F I stack_plan s' F'"
proof -
  let ?ps = "page_steps (USER_STACK_TOP - USER_STACK_SIZE) USER_STACK_TOP"
  let ?pl = "\<lambda>p. [(p, PRESENT OR WRITABLE OR USER_ACCESSIBLE OR NO_EXECUTE, \<lambda>_ :: nat. 0 :: u8)]"
  have pl: "concat (map ?pl ?ps) = stack_plan" by (simp add: stack_plan_def)
  have user: "user_page p" if "p \<in> set ?ps" for p
  proof -
    have "p \<in> fst ` set stack_plan" using that by (simp add: stack_plan_def image_comp)
    then show ?thesis unfolding stack_pages by (simp add: user_page_def)
  qed
  have bot: "u64_sub USER_STACK_TOP USER_STACK_SIZE = Inr (USER_STACK_TOP - USER_STACK_SIZE)"
    by (simp add: u64_sub_def USER_STACK_TOP_def USER_STACK_SIZE_def USER_STACK_PAGES_def)
  obtain io where io: "print_line (''  Allocating stack: 0x'' @ hex (USER_STACK_TOP - USER_STACK_SIZE) @ '' - 0x'' @ hex USER_STACK_TOP @
         '' ('' @ dec USER_STACK_PAGES @ '' pages)'') s = Inr (s\<lparr>console := io\<rparr>)" "serial1 io"
    by (rule print_line_ok [OF loaded_serial [OF l(1)]])
  let ?s = "s\<lparr>console := io\<rparr>"
  have step: "\<exists>s' F'. load_stack_page E (take_frame c) off p s = Inr (s', Inr ()) \<and> extends (owns c) V off s F I (?pl p) s' F'"
    if "p \<in> set ?ps" "pages_built (owns c) V off s F I" "4 * length (?pl p) \<le> card F" "fresh V s I (?pl p)" for p s F I
    using load_stack_page_ok [OF E that(2) _ _ user [OF that(1)]] that(3,4) by (simp add: fresh_def)
  have "fresh V ?s I (concat (map ?pl ?ps))" "4 * length (concat (map ?pl ?ps)) \<le> card F"
    unfolding pl using l(2,3) by (simp_all add: fresh_def)
  from for_each_extends [OF step loaded_console [OF l(1) io(2)] this(2,1)]
  obtain s' F' where r: "for_each (load_stack_page E (take_frame c) off) ?ps ?s = Inr (s', Inr ())"
      "extends (owns c) V off ?s F I stack_plan s' F'"
    unfolding pl by blast
  have "load_stack E (take_frame c) off s = Inr (s', Inr ())"
    unfolding load_stack_def bot and_then.simps io(1) by (rule r(1))
  then show ?thesis using r(2) extends_console by blast
qed

text \<open>The pages of one program header: those of a loadable segment, none otherwise.\<close>

lemma load_header_ok:
  assumes E: "env_laws E (take_frame c) (owns c) V off" "frame_start E = start_of c" and elf: "elf_ok E data"
    and i: "i < unat (e_phnum (header_at E data))"
  defines "pl \<equiv> if p_type (phdr_of E data i) = 1 then seg_plan data (phdr_of E data i) else []"
  assumes l: "pages_built (owns c) V off s F I" "4 * length pl \<le> card F" "fresh V s I pl"
  shows "\<exists>s' F'. load_header E (take_frame c) off data (header_at E data) i s = Inr (s', Inr ()) \<and>
    extends (owns c) V off s F I pl s' F'"
proof -
  let ?h = "header_at E data"
  let ?k = "ucast (e_phentsize ?h) :: u64"
  have k: "unat ?k = unat (e_phentsize ?h)" by (rule unat_u16_u64)
  have fit: "unat (e_phoff ?h) + i * unat (e_phentsize ?h) + unat (phdr_len E) \<le> length data" "length data < 2 ^ 64"
    using elf i by (simp_all add: elf_ok_def)
  have ui: "unat (of_nat i :: u64) = i"
  proof -
    have "unat (e_phnum ?h) < 2 ^ 16" using unsigned_less [of "e_phnum ?h"] by simp
    then show ?thesis using i by (intro unat_of_nat_u64) simp
  qed
  have b1: "unat (of_nat i :: u64) * unat ?k < 2 ^ 64" unfolding ui k using fit by linarith
  have u1: "unat (of_nat i * ?k) = i * unat (e_phentsize ?h)" using b1 ui k by (simp add: unat_word_ariths)
  have b2: "unat (e_phoff ?h) + unat (of_nat i * ?k) < 2 ^ 64" unfolding u1 using fit by linarith
  note u2 = unat_add_u64 [OF b2, unfolded u1]
  have b3: "unat (e_phoff ?h + of_nat i * ?k) + unat (phdr_len E) < 2 ^ 64" unfolding u2 using fit by linarith
  note u3 = unat_add_u64 [OF b3, unfolded u2]
  have run: "load_header E (take_frame c) off data ?h i s =
      (if p_type (phdr_of E data i) = 1 then load_segment E (take_frame c) off data (phdr_of E data i) s else Inr (s, Inr ()))"
    unfolding load_header_def u64_mul_ok [OF b1] and_then.simps u64_add_ok [OF b2] u64_add_ok [OF b3] u3 u2
    using fit by (simp add: phdr_of_def)
  show ?thesis
  proof (cases "p_type (phdr_of E data i) = 1")
    case True
    then have "seg_ok data (phdr_of E data i)" using elf i by (simp add: elf_ok_def)
    then show ?thesis using load_segment_ok [OF E _ l(1)] l(2,3) True by (simp add: run pl_def)
  next
    case False
    then show ?thesis using extends_refl [OF l(1)] by (intro exI [of _ s] exI [of _ F]) (simp add: run pl_def)
  qed
qed

lemma load_elf_ok:
  assumes E: "env_laws E (take_frame c) (owns c) V off" "frame_start E = start_of c" and elf: "elf_ok E data"
    and l: "pages_built (owns c) V off s F I" "4 * length (elf_plan E data) \<le> card F" "fresh V s I (elf_plan E data)"
  shows "\<exists>s' F'. load_elf E (take_frame c) off data s =
      Inr (s', Inr \<lparr>entry_point = e_entry (header_at E data), stack_top = USER_STACK_TOP\<rparr>) \<and>
    extends (owns c) V off s F I (elf_plan E data) s' F'"
proof -
  let ?h = "header_at E data"
  let ?pl = "\<lambda>i. if p_type (phdr_of E data i) = 1 then seg_plan data (phdr_of E data i) else []"
  let ?qs = "concat (map ?pl [0..<unat (e_phnum ?h)])"
  have plan: "elf_plan E data = ?qs @ stack_plan" by (simp add: elf_plan_def)
  obtain io where io: "print_line (''Loading ELF: entry=0x'' @ hex (e_entry ?h) @ '', '' @ dec (ucast (e_phnum ?h)) @
      '' program headers'') s = Inr (s\<lparr>console := io\<rparr>)" "serial1 io"
    by (rule print_line_ok [OF loaded_serial [OF l(1)]])
  let ?s = "s\<lparr>console := io\<rparr>"
  have fr: "fresh V ?s I (?qs @ stack_plan)" "4 * length (?qs @ stack_plan) \<le> card F"
    using l(2,3) unfolding plan by (simp_all add: fresh_def)
  then have fr1: "fresh V ?s I ?qs" "4 * length ?qs \<le> card F" by (auto simp: fresh_def)
  have step: "\<exists>s' F'. load_header E (take_frame c) off data ?h i s = Inr (s', Inr ()) \<and> extends (owns c) V off s F I (?pl i) s' F'"
    if "i \<in> set [0..<unat (e_phnum ?h)]" "pages_built (owns c) V off s F I" "4 * length (?pl i) \<le> card F" "fresh V s I (?pl i)" for i s F I
    using load_header_ok [OF E elf _ that(2-4)] that(1) by simp
  obtain s1 F1 where 1: "for_each (load_header E (take_frame c) off data ?h) [0..<unat (e_phnum ?h)] ?s = Inr (s1, Inr ())"
      "extends (owns c) V off ?s F I ?qs s1 F1"
    using for_each_extends [OF step loaded_console [OF l(1) io(2)] fr1(2,1)] by blast
  obtain s2 F2 where 2: "load_stack E (take_frame c) off s1 = Inr (s2, Inr ())"
      "extends (owns c) V off s1 F1 (I ++ map_of (rev ?qs)) stack_plan s2 F2"
    using load_stack_ok [OF E extends_loaded [OF 1(2)] room_append [OF 1(2) fr(2)] fresh_append [OF fr(1) 1(2)]] by blast
  note ext = extends_trans [OF 1(2) 2(2), folded plan, unfolded extends_console]
  obtain io' where io': "print_line (''  ELF loaded successfully, entry=0x'' @ hex (e_entry ?h)) s2 = Inr (s2\<lparr>console := io'\<rparr>)" "serial1 io'"
    by (rule print_line_ok [OF loaded_serial [OF extends_loaded [OF ext]]])
  have "load_elf E (take_frame c) off data s =
      Inr (s2\<lparr>console := io'\<rparr>, Inr \<lparr>entry_point = e_entry ?h, stack_top = USER_STACK_TOP\<rparr>)"
    using elf io(1) 1(1) 2(1) io'(1) by (simp add: load_elf_def elf_ok_def Let_def try_then_def)
  moreover have "extends (owns c) V off s F I (elf_plan E data) (s2\<lparr>console := io'\<rparr>) F2"
    using ext loaded_console [OF extends_loaded [OF ext] io'(2)] by (simp add: extends_def)
  ultimately show ?thesis by blast
qed

end

subsection \<open>Reading the address space\<close>

text \<open>The flags and the byte that user mode finds at an address.\<close>

definition user_byte :: "'m page_view \<Rightarrow> u64 \<Rightarrow> ('m, 'a) loader \<Rightarrow> u64 \<Rightarrow> (u64 \<times> u8) option" where
  "user_byte V off s a =
     (case lookup V (mapper s) (a AND NOT 0xFFF) of
        None \<Rightarrow> None
      | Some (f, fl) \<Rightarrow> Some (fl, phys_mem s (off + f + (a AND 0xFFF))))"

text \<open>
  The flags of a segment's pages: present, writable and accessible to the user, and not executable (bit 63) unless bit 0 of the
  segment's flags is set.
\<close>

definition seg_flags :: "program_header \<Rightarrow> u64" where
  "seg_flags ph = (if bit (p_flags ph) 0 then 7 else 0x8000000000000007)"

lemma page_flags_seg: "page_flags ph = seg_flags ph"
proof -
  have "p_flags ph AND 1 = 0 \<longleftrightarrow> \<not> bit (p_flags ph) 0" by (simp add: and_one_eq bit_0 odd_iff_mod_2_eq_one)
  then show ?thesis
    by (simp add: page_flags_def seg_flags_def PRESENT_def USER_ACCESSIBLE_def WRITABLE_def NO_EXECUTE_def)
qed

text \<open>The address space of a loaded file: its segments and the stack.\<close>

definition elf_image :: "('m, 'a, 'f) elf_env \<Rightarrow> u8 list \<Rightarrow> 'm page_view \<Rightarrow> u64 \<Rightarrow> ('m, 'a) loader \<Rightarrow> bool" where
  "elf_image E data V off s \<longleftrightarrow>
     (\<forall>i<unat (e_phnum (header_at E data)). p_type (phdr_of E data i) = 1 \<longrightarrow>
        (\<forall>a. unat (p_vaddr (phdr_of E data i)) \<le> unat a \<and>
             unat a < unat (p_vaddr (phdr_of E data i)) + unat (p_memsz (phdr_of E data i)) \<longrightarrow>
           user_byte V off s a = Some (seg_flags (phdr_of E data i), seg_byte data (phdr_of E data i) (unat a)))) \<and>
     (\<forall>a. 0x7FFFEF000 \<le> unat a \<and> unat a < 0x7FFFFF000 \<longrightarrow>
        user_byte V off s a = Some (PRESENT OR WRITABLE OR USER_ACCESSIBLE OR NO_EXECUTE, 0))"

lemma page_split:
  fixes a :: u64
  shows "unat (a AND NOT 0xFFF) = unat a div 4096 * 4096" "a AND 0xFFF = of_nat (unat a mod 4096)"
proof -
  show "unat (a AND NOT 0xFFF) = unat a div 4096 * 4096"
    using unat_and_not_mask [of a 12] by (simp add: mask_eq_exp_minus_1)
  have "a AND 0xFFF = take_bit 12 a" by (simp add: take_bit_eq_mask mask_eq_exp_minus_1)
  also have "\<dots> = of_nat (unat (take_bit 12 a))" by simp
  also have "unat (take_bit 12 a) = unat a mod 4096" unfolding unsigned_take_bit_eq by (simp add: take_bit_eq_mod)
  finally show "a AND 0xFFF = of_nat (unat a mod 4096)" .
qed

lemma plan_read:
  assumes "pages_built own V off s F (map_of (rev ps))" "distinct (map fst ps)" "(a AND NOT 0xFFF, fl, b) \<in> set ps"
  shows "user_byte V off s a = Some (fl, b (unat a mod 4096))"
proof -
  have "map_of (rev ps) (a AND NOT 0xFFF) = Some (fl, b)"
    using assms(2,3) by (intro map_of_is_SomeI) (simp_all add: rev_map [symmetric])
  then obtain f where "holds V off s F (a AND NOT 0xFFF) f fl b" using loaded_holds [OF assms(1)] by blast
  then have "lookup V (mapper s) (a AND NOT 0xFFF) = Some (f, fl)" "phys_mem s (off + f + of_nat (unat a mod 4096)) = b (unat a mod 4096)"
    by (simp_all add: holds_def)
  then show ?thesis unfolding user_byte_def page_split(2) by simp
qed

lemma seg_plan_mem:
  assumes "seg_ok data ph" "unat (p_vaddr ph) \<le> unat a" "unat a < unat (p_vaddr ph) + unat (p_memsz ph)"
  shows "(a AND NOT 0xFFF, page_flags ph, \<lambda>i. seg_byte data ph (unat (a AND NOT 0xFFF) + i)) \<in> set (seg_plan data ph)"
proof -
  let ?v = "unat (p_vaddr ph)" and ?m = "unat (p_memsz ph)"
  have "?v div 4096 * 4096 \<le> unat a div 4096 * 4096" using assms(2) by (intro mult_right_mono div_le_mono) simp_all
  moreover have "unat a div 4096 * 4096 < (?v + ?m + 4095) div 4096 * 4096"
  proof -
    have "unat a + 4096 \<le> ?v + ?m + 4095" using assms(3) by simp
    then have "(unat a + 4096) div 4096 \<le> (?v + ?m + 4095) div 4096" by (rule div_le_mono)
    then show ?thesis by simp
  qed
  ultimately have "a AND NOT 0xFFF \<in> fst ` set (seg_plan data ph)"
    unfolding seg_pages(1) [OF assms(1)] by (simp only: mem_Collect_eq page_split(1)) simp
  then show ?thesis unfolding seg_plan_def by (auto simp only: set_map image_comp comp_def fst_conv image_iff)
qed

lemma loaded_image:
  assumes elf: "elf_ok E data" and l: "pages_built own V off s F (map_of (rev (elf_plan E data)))"
    and d: "distinct (map fst (elf_plan E data))"
  shows "elf_image E data V off s"
proof -
  have split: "unat (a AND NOT 0xFFF) + unat a mod 4096 = unat a" for a :: u64 by (simp only: page_split(1) div_mult_mod_eq)
  have "user_byte V off s a = Some (seg_flags ph, seg_byte data ph (unat a))"
    if i: "i < unat (e_phnum (header_at E data))" "ph = phdr_of E data i" "p_type ph = 1"
      and a: "unat (p_vaddr ph) \<le> unat a" "unat a < unat (p_vaddr ph) + unat (p_memsz ph)" for i ph a
  proof -
    have "seg_ok data ph" using elf i by (simp add: elf_ok_def)
    moreover have "set (seg_plan data ph) \<subseteq> set (elf_plan E data)" using i by (auto simp: elf_plan_def)
    ultimately show ?thesis
      using plan_read [OF l d, of a] seg_plan_mem [OF _ a] split [of a] unfolding page_flags_seg by (metis (no_types, lifting) subsetD)
  qed
  moreover have "user_byte V off s a = Some (PRESENT OR WRITABLE OR USER_ACCESSIBLE OR NO_EXECUTE, 0)"
    if a: "0x7FFFEF000 \<le> unat a" "unat a < 0x7FFFFF000" for a
  proof -
    have "a AND NOT 0xFFF \<in> fst ` set stack_plan"
      unfolding stack_pages mem_Collect_eq page_split(1) using a by auto
    then have "(a AND NOT 0xFFF, PRESENT OR WRITABLE OR USER_ACCESSIBLE OR NO_EXECUTE, \<lambda>_. 0) \<in> set (elf_plan E data)"
      by (auto simp: stack_plan_def elf_plan_def image_comp)
    then show ?thesis using plan_read [OF l d] by blast
  qed
  ultimately show ?thesis unfolding elf_image_def by blast
qed

subsection \<open>A task on the global heap\<close>

lemma loaded_write_free:
  assumes l: "pages_built own V off s F I" and g: "g \<in> F"
  shows "pages_built (\<lambda>_ _. True) V off (s\<lparr>frames_from := a, phys_mem := write_bytes (phys_mem s) (off + g) 0 4096\<rparr>) F I"
proof -
  let ?s = "s\<lparr>frames_from := a, phys_mem := write_bytes (phys_mem s) (off + g) 0 4096\<rparr>"
  have ok: "frame_ok off g" using l g by (simp add: pages_built_def)
  have "holds V off ?s F p f fl b" if h: "holds V off s F p f fl b" for p f fl b
  proof -
    have f: "frame_ok off f" "f \<noteq> g" using h g by (auto simp: holds_def)
    have "\<not> in_frame off g (off + f + of_nat i)" if "i < 4096" for i
      by (rule frames_apart [OF f(1) ok f(2) in_frame_offset(1) [OF f(1) that]])
    then show ?thesis using h by (simp add: holds_def write_bytes_def in_frame_def)
  qed
  then have "\<exists>f. holds V off ?s F p f fl b" if "I p = Some (fl, b)" for p fl b
    using loaded_holds [OF l that] by blast
  then show ?thesis using l unfolding pages_built_def by simp
qed

lemma loaded_frame:
  assumes "pages_built own V off s F (map_of (rev ps))" "p \<in> fst ` set ps" "lookup V (mapper s) p = Some (f, fl)"
  shows "f \<notin> F"
proof -
  have "p \<in> dom (map_of (rev ps))" unfolding dom_map_of_conv_image_fst set_rev by (rule assms(2))
  then obtain fl' b where "map_of (rev ps) p = Some (fl', b)" by auto
  then obtain f' where "holds V off s F p f' fl' b" using loaded_holds [OF assms(1)] by blast
  then show ?thesis using assms(3) by (simp add: holds_def)
qed

lemma box_stack:
  assumes "heap_owns_frames c h F" "F \<noteq> {}"
  obtains g h' where "box_new KERNEL_STACK_SIZE al h = Inr (hc_offset c + g, h')" "g \<in> F"
    "heap_rel h' ((+) (hc_offset c) ` (F - {g})) (hc_blocks c) (insert (hc_offset c + g) (hc_pages c))"
proof -
  let ?l = "\<lparr>lsize = KERNEL_STACK_SIZE, lalign = al\<rparr>"
  have rel: "heap_rel h ((+) (hc_offset c) ` F) (hc_blocks c) (hc_pages c)" using assms(1) by (simp add: heap_owns_frames_def)
  have sz: "lsize ?l > 2048" "lsize ?l \<le> 4096" by (simp_all add: KERNEL_STACK_SIZE_def)
  obtain a h' where a: "global_alloc h ?l = Inr (a, h')" "a \<noteq> 0" "a \<in> (+) (hc_offset c) ` F"
      "heap_rel h' ((+) (hc_offset c) ` F - {a}) (hc_blocks c) (insert a (hc_pages c))"
    using alloc_large [OF rel sz] assms(2) by blast
  then obtain g where g: "g \<in> F" "a = hc_offset c + g" by blast
  have "(+) (hc_offset c) ` F - {a} = (+) (hc_offset c) ` (F - {g})" using g(2) by auto
  then show thesis using that [of g h'] a g by (simp add: box_new_def)
qed

lemma from_elf_run:
  assumes heap: "heap_owns_frames c (frames_from s) F" "4 * length (elf_plan E data) < card F"
    and env: "env_laws E (heap_allocate_frame (fst (hc_frames c))) (heap_owns_frames c) V (hc_offset c)"
      "frame_start E = snd (hc_frames c)"
    and tabs: "F \<inter> tables V (mapper s) = {}" "\<forall>t\<in>tables V (mapper s). frame_ok (hc_offset c) t"
    and elf: "elf_ok E data" "fresh V s Map.empty (elf_plan E data)" and ser: "serial1 (console s)"
  shows "\<exists>s' t g. from_elf E (fst (hc_frames c)) gdt (hc_offset c) data n s = Inr ((n + 1, s'), Inr t) \<and>
    tid t = n \<and> tstate t = Ready \<and>
    tcontext t = new_user (sel_user_code gdt) (sel_user_data gdt) (e_entry (header_at E data)) USER_STACK_TOP \<and>
    elf_image E data V (hc_offset c) s' \<and>
    g \<in> F \<and> kernel_stack t = hc_offset c + g \<and> (\<forall>i<4096. phys_mem s' (kernel_stack t + of_nat i) = 0) \<and>
    (\<forall>p f fl. p \<in> fst ` set (elf_plan E data) \<and> lookup V (mapper s') p = Some (f, fl) \<longrightarrow> f \<noteq> g) \<and>
    (\<exists>F'\<subseteq>F. heap_rel (frames_from s') ((+) (hc_offset c) ` F') (hc_blocks c) (insert (kernel_stack t) (hc_pages c)) \<and>
      card F \<le> card F' + 4 * length (elf_plan E data) + 1) \<and> serial1 (console s')"
proof -
  let ?off = "hc_offset c" and ?pl = "elf_plan E data" and ?alloc = "heap_allocate_frame (fst (hc_frames c))"
  have ok: "\<forall>f\<in>F \<union> tables V (mapper s). frame_ok ?off f"
    using heap_frames_window [OF heap(1)] tabs(2) by (auto simp: frame_ok_def)
  have l: "pages_built (heap_owns_frames c) V ?off s F Map.empty" using heap(1) tabs(1) ok ser by (simp add: pages_built_def)
  obtain s1 F1 where 1: "load_elf E ?alloc ?off data s =
      Inr (s1, Inr \<lparr>entry_point = e_entry (header_at E data), stack_top = USER_STACK_TOP\<rparr>)"
      "extends (heap_owns_frames c) V ?off s F Map.empty ?pl s1 F1"
    using heap_frames.load_elf_ok [OF env elf(1) l _ elf(2)] heap(2) by auto
  have l1: "pages_built (heap_owns_frames c) V ?off s1 F1 (map_of (rev ?pl))" "F1 \<subseteq> F" "card F \<le> card F1 + 4 * length ?pl"
    using 1(2) by (simp_all add: extends_def)
  have "F1 \<noteq> {}" using l1(3) heap(2) by auto
  moreover have own: "heap_owns_frames c (frames_from s1) F1" using l1(1) by (simp add: pages_built_def)
  ultimately obtain g h' where g: "box_new KERNEL_STACK_SIZE 1 (frames_from s1) = Inr (?off + g, h')" "g \<in> F1"
      "heap_rel h' ((+) ?off ` (F1 - {g})) (hc_blocks c) (insert (?off + g) (hc_pages c))"
    by (metis box_stack)
  let ?s = "s1\<lparr>frames_from := h', phys_mem := write_bytes (phys_mem s1) (?off + g) 0 4096\<rparr>"
  have l2: "pages_built (\<lambda>_ _. True) V ?off ?s F1 (map_of (rev ?pl))" by (rule loaded_write_free [OF l1(1) g(2)])
  have d: "distinct (map fst ?pl)" using elf(2) by (simp add: fresh_def)
  have "frame_ok ?off g" using ok g(2) l1(2) by blast
  then have z: "\<forall>i<4096. phys_mem ?s (?off + g + of_nat i) = 0"
    using in_frame_offset(1) by (simp add: write_bytes_def in_frame_def)
  have "buddy_frame_allocate (fst (hc_frames c)) = ?alloc" by (rule ext) (simp add: buddy_frame_allocate_def)
  then have run: "from_elf E (fst (hc_frames c)) gdt ?off data n s = Inr ((n + 1, ?s), Inr \<lparr>tid = n, tstate = Ready,
      tcontext = new_user (sel_user_code gdt) (sel_user_data gdt) (e_entry (header_at E data)) USER_STACK_TOP,
      kernel_stack = ?off + g\<rparr>)"
    using 1(1) g(1) by (simp add: from_elf_def KERNEL_STACK_SIZE_def)
  have far: "\<forall>p f fl. p \<in> fst ` set ?pl \<and> lookup V (mapper ?s) p = Some (f, fl) \<longrightarrow> f \<noteq> g"
    using loaded_frame [OF l2] g(2) by blast
  have on: "serial1 (console ?s)" using l2 by (simp add: pages_built_def)
  have "finite F" using heap(2) card.infinite by fastforce
  then have "card F \<le> card (F1 - {g}) + 4 * length ?pl + 1" using l1(2,3) g(2) finite_subset [OF l1(2)] by (simp add: card_Diff_singleton)
  then have hr: "\<exists>F'\<subseteq>F. heap_rel (frames_from ?s) ((+) ?off ` F') (hc_blocks c) (insert (?off + g) (hc_pages c)) \<and>
      card F \<le> card F' + 4 * length ?pl + 1"
    using g(3) l1(2) by (intro exI [of _ "F1 - {g}"]) auto
  show ?thesis
    by (intro exI [of _ ?s] exI [of _ g] exI, rule conjI [OF run]) (use l1(2) g(2) z far hr on loaded_image [OF elf(1) l2 d] in \<open>simp add: subsetD\<close>)
qed

text \<open>
  C4: Creating a task from a well-formed ELF file succeeds when its pages are unmapped and the heap has four frames
  for each of them and one more. The task gets the next number and is ready to enter the file's entry point with the top
  of the user stack; the address space holds every loadable segment (file data, then zeros, executable
  only if the header says so) and the zeroed user stack; and the kernel stack is a zeroed heap page that backs no page
  of the task. Blocks that were in use in the heap stay in use, and no more frames than these leave it.
\<close>

theorem from_elf_correct:
  assumes heap: "heap_owns_frames c (frames_from s) F" "4 * length (elf_plan E data) < card F"
    and env: "env_laws E (heap_allocate_frame (fst (hc_frames c))) (heap_owns_frames c) V (hc_offset c)"
      "frame_start E = snd (hc_frames c)"
    and tabs: "F \<inter> tables V (mapper s) = {}" "\<forall>t\<in>tables V (mapper s). frame_ok (hc_offset c) t"
    and elf: "elf_ok E data" "fresh V s Map.empty (elf_plan E data)" and ser: "serial1 (console s)"
  shows "\<exists>s' t g. from_elf E (fst (hc_frames c)) gdt (hc_offset c) data n s = Inr ((n + 1, s'), Inr t) \<and>
    tid t = n \<and> tstate t = Ready \<and>
    tcontext t = new_user (sel_user_code gdt) (sel_user_data gdt) (e_entry (header_at E data)) USER_STACK_TOP \<and>
    elf_image E data V (hc_offset c) s' \<and>
    g \<in> F \<and> kernel_stack t = hc_offset c + g \<and> (\<forall>i<4096. phys_mem s' (kernel_stack t + of_nat i) = 0) \<and>
    (\<forall>p f fl. p \<in> fst ` set (elf_plan E data) \<and> lookup V (mapper s') p = Some (f, fl) \<longrightarrow> f \<noteq> g) \<and>
    (\<exists>F'\<subseteq>F. heap_rel (frames_from s') ((+) (hc_offset c) ` F') (hc_blocks c) (insert (kernel_stack t) (hc_pages c)) \<and>
      card F \<le> card F' + 4 * length (elf_plan E data) + 1) \<and> serial1 (console s')"
  using assms by (rule from_elf_run)

subsection \<open>Files whose data is missing\<close>

text \<open>A loadable segment that starts on a page and whose file data of the first page reaches beyond the file.\<close>

definition seg_truncated :: "u8 list \<Rightarrow> program_header \<Rightarrow> bool" where
  "seg_truncated data ph \<longleftrightarrow> p_type ph = 1 \<and> user_page (p_vaddr ph) \<and> 0 < p_filesz ph \<and> p_filesz ph \<le> p_memsz ph \<and>
     unat (p_vaddr ph) + unat (p_memsz ph) + 4096 < 2 ^ 47 \<and> unat (p_offset ph) + unat (p_filesz ph) < 2 ^ 64 \<and>
     length data < unat (p_offset ph) + min (unat (p_filesz ph)) 4096"

lemma copy_page_truncated:
  assumes "seg_truncated data ph"
  shows "copy_page data ph (p_vaddr ph) ptr s = Inl IndexOutOfBounds"
proof -
  let ?v = "p_vaddr ph" and ?z = "p_filesz ph" and ?o = "p_offset ph"
  have t: "0 < unat ?z" "unat ?v + unat ?z < 2 ^ 47" "unat ?v + 4096 < 2 ^ 47" "unat ?o + unat ?z < 2 ^ 64"
      "length data < unat ?o + min (unat ?z) 4096"
    using assms by (auto simp: seg_truncated_def word_le_nat_alt word_less_nat_alt user_page_def)
  have pe: "u64_add ?v 4096 = Inr (?v + 4096)" "unat (?v + 4096) = unat ?v + 4096"
    using t by (simp_all add: u64_add_ok unat_add_u64)
  have fe: "u64_add ?v ?z = Inr (?v + ?z)" "unat (?v + ?z) = unat ?v + unat ?z"
    using t by (simp_all add: u64_add_ok unat_add_u64)
  have g: "?v + ?z > ?v \<and> ?v < ?v + 4096" unfolding word_less_nat_alt fe(2) pe(2) using t(1) by simp
  define n where "n = min (?v + ?z) (?v + 4096) - ?v"
  have le: "?v \<le> min (?v + ?z) (?v + 4096)" unfolding word_le_nat_alt unat_min fe(2) pe(2) by simp
  have n: "unat n = min (unat ?z) 4096"
    unfolding n_def unat_sub [OF le] unat_min fe(2) pe(2) by simp
  have pos: "0 < n" unfolding word_less_nat_alt n using t(1) by simp
  have b: "unat ?o + unat n < 2 ^ 64" unfolding n using t(4) by simp
  have sl: "slice data ?o (?o + n) = Inl IndexOutOfBounds"
    unfolding slice_def unat_add_u64 [OF b] n using t(5) by simp
  have zero: "u64_sub ?v ?v = Inr 0" "u64_add ?o 0 = Inr ?o" using b by (simp_all add: u64_sub_def u64_add_def)
  have len: "u64_sub (min (?v + ?z) (?v + 4096)) ?v = Inr n" unfolding n_def by (rule u64_sub_ok [OF le])
  show ?thesis
    unfolding copy_page_def pe(1) fe(1) and_then.simps if_P [OF g] Let_def max.idem len if_P [OF pos] zero u64_add_ok [OF b] sl
    by (rule refl)
qed

lemma page_steps_first:
  assumes "4096 dvd unat a" "unat a < unat b"
  shows "\<exists>ps. page_steps a b = a # ps"
proof -
  have "0 < (unat b - unat a + 4095) div 4096" using assms(2) by (simp add: div_greater_zero_iff)
  then have "[0..<(unat b - unat a + 4095) div 4096] = 0 # [1..<(unat b - unat a + 4095) div 4096]"
    by (simp add: upt_conv_Cons)
  then show ?thesis by (simp add: page_steps_def)
qed

lemma for_each_panic: "body x s = Inl p \<Longrightarrow> for_each body (x # xs) s = Inl p"
  by (simp add: try_then_def)

context frame_source
begin

lemma load_segment_truncated:
  assumes E: "env_laws E (take_frame c) (owns c) V off" "frame_start E = start_of c"
    and l: "pages_built (owns c) V off s F Map.empty" "4 \<le> card F"
    and seg: "seg_truncated data ph" "ready V (mapper s) (p_vaddr ph)"
  shows "load_segment E (take_frame c) off data ph s = Inl IndexOutOfBounds"
proof -
  let ?v = "p_vaddr ph" and ?m = "p_memsz ph"
  have t: "user_page ?v" "unat ?v + unat ?m + 4096 < 2 ^ 47" "0 < unat ?m"
    using seg(1) by (auto simp: seg_truncated_def word_le_nat_alt word_less_nat_alt)
  note p = user_page_simps [OF t(1)]
  obtain io where io: "print_line (''  LOAD: vaddr=0x'' @ hex ?v @ '', memsz=0x'' @ hex ?m @
      '', filesz=0x'' @ hex (p_filesz ph) @ '', flags=0x'' @ hex (ucast (p_flags ph))) s = Inr (s\<lparr>console := io\<rparr>)" "serial1 io"
    by (rule print_line_ok [OF loaded_serial [OF l(1)]])
  let ?s = "s\<lparr>console := io\<rparr>"
  have rd: "ready V (mapper ?s) ?v" "?v \<notin> dom (Map.empty :: image)" using seg(2) by simp_all
  obtain f m mem a where r: "map_user_page E (take_frame c) ?v (page_flags ph) ?s =
      Inr (?s\<lparr>mapper := m, phys_mem := mem, frames_from := a\<rparr>, Inr f)" "frame_ok off f"
    by (rule map_user_page_ok [OF E loaded_console [OF l(1) io(2)] l(2) rd(1) p(1) rd(2), of "page_flags ph"])
  have "virt_addr E ?v = Inr ?v" using E(1) p(2) by (simp add: env_laws_def virt_laws_def)
  moreover have "u64_add off f = Inr (off + f)" using r(2) by (simp add: u64_add_ok frame_ok_def)
  ultimately have bad: "load_page E (take_frame c) off data ph ?v ?s = Inl IndexOutOfBounds"
    using r(1) by (simp add: load_page_def try_then_def map_err_def copy_page_truncated [OF seg(1)])
  have e1: "unat ?v + unat ?m < 2 ^ 64" using t(2) by simp
  have e2: "unat (?v + ?m) + unat (0xFFF :: u64) < 2 ^ 64" unfolding unat_add_u64 [OF e1] using t(2) by simp
  have lim: "unat ((?v + ?m + 0xFFF) AND NOT 0xFFF) = (unat ?v + unat ?m + 4095) div 4096 * 4096"
    unfolding page_split(1) unat_add_u64 [OF e2] unat_add_u64 [OF e1] by simp
  obtain k where k: "unat ?v = 4096 * k" using t(1) by (auto simp: user_page_def dvd_def)
  have "(unat ?v + 4096) div 4096 * 4096 \<le> (unat ?v + unat ?m + 4095) div 4096 * 4096"
    using t(3) by (intro mult_right_mono div_le_mono) simp_all
  then have "unat ?v < (unat ?v + unat ?m + 4095) div 4096 * 4096" unfolding k by simp
  then obtain ps where "page_steps ?v ((?v + ?m + 0xFFF) AND NOT 0xFFF) = ?v # ps"
    using page_steps_first [of ?v] t(1) lim unfolding user_page_def by metis
  then show ?thesis
    unfolding load_segment_def io(1) and_then.simps u64_add_ok [OF e1] u64_add_ok [OF e2] Let_def p(1)
    using for_each_panic [of "load_page E (take_frame c) off data ph", OF bad] by simp
qed

end

text \<open>
  C39: The range of the file that holds the data of a segment is not checked. When the first program header is a loadable
  segment whose first page of data reaches beyond the file, \<open>load_elf\<close> does not return an error: the kernel panics
  on the slice index.
\<close>

theorem load_elf_truncated_panics:
  assumes heap: "heap_owns_frames c (frames_from s) F" "4 \<le> card F"
    and env: "env_laws E (heap_allocate_frame (fst (hc_frames c))) (heap_owns_frames c) V (hc_offset c)"
      "frame_start E = snd (hc_frames c)"
    and tabs: "F \<inter> tables V (mapper s) = {}" "\<forall>t\<in>tables V (mapper s). frame_ok (hc_offset c) t"
    and ser: "serial1 (console s)"
    and header: "unat (header_len E) \<le> length data" "take 4 (e_ident (header_at E data)) = [0x7F, 0x45, 0x4C, 0x46]"
      "e_ident (header_at E data) ! 4 = 2" "0 < e_phnum (header_at E data)"
      "unat (e_phoff (header_at E data)) + unat (phdr_len E) \<le> length data" "length data < 2 ^ 64"
    and seg: "seg_truncated data (phdr_of E data 0)" "ready V (mapper s) (p_vaddr (phdr_of E data 0))"
  shows "load_elf E (heap_allocate_frame (fst (hc_frames c))) (hc_offset c) data s = Inl IndexOutOfBounds"
proof -
  let ?off = "hc_offset c" and ?h = "header_at E data" and ?alloc = "heap_allocate_frame (fst (hc_frames c))"
  have ok: "\<forall>f\<in>F \<union> tables V (mapper s). frame_ok ?off f"
    using heap_frames_window [OF heap(1)] tabs(2) by (auto simp: frame_ok_def)
  have l: "pages_built (heap_owns_frames c) V ?off s F Map.empty" using heap(1) tabs(1) ok ser by (simp add: pages_built_def)
  obtain io where io: "print_line (''Loading ELF: entry=0x'' @ hex (e_entry ?h) @ '', '' @ dec (ucast (e_phnum ?h)) @
      '' program headers'') s = Inr (s\<lparr>console := io\<rparr>)" "serial1 io"
    by (rule print_line_ok [OF ser])
  let ?s = "s\<lparr>console := io\<rparr>"
  have rd: "ready V (mapper ?s) (p_vaddr (phdr_of E data 0))" using seg(2) by simp
  note bad = heap_frames.load_segment_truncated [OF env loaded_console [OF l io(2)] heap(2) seg(1) rd]
  have add: "u64_mul (of_nat 0) (ucast (e_phentsize ?h)) = Inr 0" "u64_add (e_phoff ?h) 0 = Inr (e_phoff ?h)"
      "u64_add (e_phoff ?h) (phdr_len E) = Inr (e_phoff ?h + phdr_len E)" "\<not> length data < unat (e_phoff ?h + phdr_len E)"
    using header(5,6) by (simp_all add: u64_mul_def u64_add_def unat_add_u64)
  have ph: "phdr_at E (drop (unat (e_phoff ?h)) data) = phdr_of E data 0" "p_type (phdr_of E data 0) = 1"
    using seg(1) by (simp_all add: phdr_of_def seg_truncated_def)
  have "load_header E ?alloc ?off data ?h 0 ?s = Inl IndexOutOfBounds"
    unfolding load_header_def add(1-3) and_then.simps if_not_P [OF add(4)] Let_def ph(1) using ph(2) bad by simp
  moreover obtain ks where "[0..<unat (e_phnum ?h)] = 0 # ks"
    using header(4) by (simp add: word_less_nat_alt upt_conv_Cons)
  ultimately show ?thesis
    using header(1-3) io(1) for_each_panic [of "load_header E ?alloc ?off data ?h" 0 ?s]
    by (simp add: load_elf_def Let_def try_then_def)
qed

subsection \<open>A concrete task\<close>

text \<open>
  The structures read as the ELF64 format lays them out (little-endian), page tables that are a map from pages to frames,
  and a file with one segment at 0x400078: four bytes and the texts of the program, followed in memory by ten zero bytes.
\<close>

fun le_nat :: "u8 list \<Rightarrow> nat" where
  "le_nat [] = 0"
| "le_nat (b # bs) = unat b + 256 * le_nat bs"

definition field :: "nat \<Rightarrow> nat \<Rightarrow> u8 list \<Rightarrow> nat" where
  "field pos n bs = le_nat (take n (drop pos bs))"

type_synonym demo_mapper = "u64 \<rightharpoonup> u64 \<times> u64"

definition demo_env :: "(demo_mapper, heap, u64) elf_env" where
  "demo_env = \<lparr>header_len = 64, phdr_len = 56,
     header_at = \<lambda>bs. \<lparr>e_ident = take 16 bs, e_entry = of_nat (field 24 8 bs), e_phoff = of_nat (field 32 8 bs),
       e_phentsize = of_nat (field 54 2 bs), e_phnum = of_nat (field 56 2 bs)\<rparr>,
     phdr_at = \<lambda>bs. \<lparr>p_type = of_nat (field 0 4 bs), p_flags = of_nat (field 4 4 bs), p_offset = of_nat (field 8 8 bs),
       p_vaddr = of_nat (field 16 8 bs), p_filesz = of_nat (field 32 8 bs), p_memsz = of_nat (field 40 8 bs)\<rparr>,
     virt_addr = \<lambda>a. if canonical a then Inr a else Inl (PanicMsg ''not canonical''), page_containing = \<lambda>a. a AND NOT 0xFFF,
     frame_start = \<lambda>f. f, map_to = \<lambda>alloc m mem a page frame flags. Inr (m page = None, m(page \<mapsto> (frame, flags)), mem, a)\<rparr>"

definition demo_view :: "demo_mapper page_view" where
  "demo_view = \<lparr>lookup = \<lambda>m. m, tables = \<lambda>_. {}, ready = \<lambda>m p. m p = None\<rparr>"

definition demo_elf_header :: "u8 list" where
  "demo_elf_header = [0x7F, 0x45, 0x4C, 0x46, 2, 1, 1, 0, 0, 0, 0, 0, 0, 0, 0, 0] @ [2, 0, 0x3E, 0, 1, 0, 0, 0] @
     [0x78, 0, 0x40, 0, 0, 0, 0, 0] @ [0x40, 0, 0, 0, 0, 0, 0, 0] @ [0, 0, 0, 0, 0, 0, 0, 0] @ [0, 0, 0, 0, 0x40, 0, 0x38, 0, 1, 0, 0, 0, 0, 0, 0, 0]"

definition demo_elf :: "u8 list" where
  "demo_elf = demo_elf_header @
     [1, 0, 0, 0, 5, 0, 0, 0, 0x78, 0, 0, 0, 0, 0, 0, 0, 0x78, 0, 0x40, 0, 0, 0, 0, 0, 0x78, 0, 0x40, 0, 0, 0, 0, 0,
      30, 0, 0, 0, 0, 0, 0, 0, 40, 0, 0, 0, 0, 0, 0, 0, 0, 0x10, 0, 0, 0, 0, 0, 0] @ [0xEB, 0xFE, 0x68, 0x69] @
     [0x54, 0x65, 0x73, 0x74, 0x4D, 0x6F, 0x72, 0x65, 0x20, 0x74, 0x65, 0x73, 0x74, 0x48, 0x65, 0x6C, 0x6C, 0x6F, 0x2C, 0x20, 0x77, 0x6F, 0x72, 0x6C, 0x64, 0x21]"

definition demo_short :: "u8 list" where
  "demo_short = demo_elf_header @
     [1, 0, 0, 0, 5, 0, 0, 0, 0x78, 0, 0, 0, 0, 0, 0, 0, 0, 0, 0x40, 0, 0, 0, 0, 0, 0, 0, 0x40, 0, 0, 0, 0, 0,
      4, 0, 0, 0, 0, 0, 0, 0, 8, 0, 0, 0, 0, 0, 0, 0, 0, 0x10, 0, 0, 0, 0, 0, 0]"

definition demo_loader :: "(demo_mapper, heap) loader" where
  "demo_loader = \<lparr>mapper = Map.empty, frames_from = demo_heap, phys_mem = \<lambda>_. 0xFF,
     console = \<lparr>serial1 = True, serial_out = [], lapic_address = 0, mmio_log = [], port_log = []\<rparr>\<rparr>"

definition demo_config :: "u64 heap_config" where
  "demo_config = \<lparr>hc_frames = (Inr, \<lambda>f. f), hc_offset = 0x1000, hc_blocks = \<lambda>_. empty_view, hc_pages = {}\<rparr>"

definition demo_frames :: "u64 set" where
  "demo_frames = (\<lambda>p. of_nat (p * PAGE_SIZE)) ` {..<2048}"

lemma demo_owns: "heap_owns_frames demo_config demo_heap demo_frames"
proof -
  have "(+) 0x1000 ` demo_frames = demo_pages" by (simp add: demo_frames_def demo_pages_def image_comp comp_def page_addr_def)
  then show ?thesis
    using demo_heap_rel by (simp add: heap_owns_frames_def demo_config_def phys_frame_laws_def) (simp add: demo_heap_def demo_buddy_def)
qed

lemma card_demo_frames: "card demo_frames = 2048"
proof -
  have "inj_on (\<lambda>p. of_nat (p * PAGE_SIZE) :: u64) {..<2048}"
  proof (rule inj_onI)
    fix p q assume pq: "p \<in> {..<2048}" "q \<in> {..<2048}" "of_nat (p * PAGE_SIZE) = (of_nat (q * PAGE_SIZE) :: u64)"
    have b: "p \<le> MAX_PAGES" "q \<le> MAX_PAGES" using pq(1,2) by (simp_all add: MAX_PAGES_def)
    have "p * PAGE_SIZE = q * PAGE_SIZE"
      using arg_cong [where f = unat, OF pq(3)] unfolding unat_page_bytes [OF b(1)] unat_page_bytes [OF b(2)] .
    then show "p = q" by (simp add: PAGE_SIZE_def)
  qed
  then show ?thesis by (simp add: demo_frames_def card_image)
qed

lemma demo_env_laws: "env_laws demo_env alloc own demo_view off"
  unfolding env_laws_def map_to_laws_def virt_laws_def
  by (auto simp: demo_env_def demo_view_def intro!: exI)


lemma demo_header:
  "header_at demo_env demo_elf = \<lparr>e_ident = take 16 demo_elf_header, e_entry = 0x400078, e_phoff = 64, e_phentsize = 56, e_phnum = 1\<rparr>"
  "header_at demo_env demo_short = \<lparr>e_ident = take 16 demo_elf_header, e_entry = 0x400078, e_phoff = 64, e_phentsize = 56, e_phnum = 1\<rparr>"
  by (simp_all add: demo_env_def demo_elf_def demo_short_def demo_elf_header_def field_def)

lemma demo_phdr:
  "phdr_of demo_env demo_elf 0 = \<lparr>p_type = 1, p_flags = 5, p_offset = 0x78, p_vaddr = 0x400078, p_filesz = 30, p_memsz = 40\<rparr>"
  "phdr_of demo_env demo_short 0 = \<lparr>p_type = 1, p_flags = 5, p_offset = 0x78, p_vaddr = 0x400000, p_filesz = 4, p_memsz = 8\<rparr>"
  by (simp_all add: phdr_of_def demo_header) (simp_all add: demo_env_def demo_elf_def demo_short_def demo_elf_header_def field_def)

lemma demo_lengths: "length demo_elf = 150" "length demo_short = 120"
  by (simp_all add: demo_elf_def demo_short_def demo_elf_header_def)

lemma demo_elf_ok: "elf_ok demo_env demo_elf"
  by (simp add: elf_ok_def demo_header demo_lengths demo_phdr seg_ok_def demo_elf_header_def)
   (simp add: demo_env_def)

lemma demo_stack_pages: "map fst stack_plan = map (\<lambda>i. 0x7FFFEF000 + of_nat i * 4096) [0..<16]"
  by (simp add: stack_plan_def page_steps_def USER_STACK_TOP_def USER_STACK_SIZE_def USER_STACK_PAGES_def comp_def)

lemma demo_plan: "map fst (elf_plan demo_env demo_elf) = 0x400000 # map fst stack_plan"
  by (simp add: elf_plan_def demo_header demo_phdr seg_plan_def page_steps_def)

lemma demo_plan_facts: "length (elf_plan demo_env demo_elf) = 17" "fresh demo_view demo_loader Map.empty (elf_plan demo_env demo_elf)"
proof -
  have "length (map fst (elf_plan demo_env demo_elf)) = 17" unfolding demo_plan demo_stack_pages by simp
  then show "length (elf_plan demo_env demo_elf) = 17" by simp
  have "0x400000 \<notin> fst ` set stack_plan" unfolding stack_pages by simp
  moreover have "distinct (map fst stack_plan)"
    unfolding stack_plan_def map_map comp_def fst_conv map_ident
    by (rule page_steps_set(2)) (simp_all add: USER_STACK_TOP_def USER_STACK_SIZE_def USER_STACK_PAGES_def)
  ultimately have "distinct (map fst (elf_plan demo_env demo_elf))" unfolding demo_plan by simp
  then show "fresh demo_view demo_loader Map.empty (elf_plan demo_env demo_elf)"
    by (simp add: fresh_def demo_view_def demo_loader_def)
qed

lemmas demo_setup = demo_owns demo_env_laws card_demo_frames demo_plan_facts demo_elf_ok

theorem from_elf_correct_witness:
  "\<exists>s t. from_elf demo_env Inr \<lparr>sel_code = 0x08, sel_data = 0x10, sel_user_code = 0x23, sel_user_data = 0x1B, sel_tss = 0x28\<rparr>
      0x1000 demo_elf 1 demo_loader = Inr ((2, s), Inr t) \<and> c_rip (tcontext t) = 0x400078 \<and>
    user_byte demo_view 0x1000 s 0x400078 = Some (7, 0xEB) \<and> user_byte demo_view 0x1000 s 0x40009F = Some (7, 0)"
proof -
  let ?gdt = "\<lparr>sel_code = 0x08, sel_data = 0x10, sel_user_code = 0x23, sel_user_data = 0x1B, sel_tss = 0x28\<rparr>"
  have "heap_owns_frames demo_config (frames_from demo_loader) demo_frames" "serial1 (console demo_loader)"
    using demo_owns by (simp_all add: demo_loader_def)
  then obtain s t where r: "from_elf demo_env Inr ?gdt 0x1000 demo_elf 1 demo_loader = Inr ((1 + 1, s), Inr t)"
      "tcontext t = new_user 0x23 0x1B (e_entry (header_at demo_env demo_elf)) USER_STACK_TOP"
      "elf_image demo_env demo_elf demo_view 0x1000 s"
    using from_elf_correct [of demo_config demo_loader demo_frames demo_env demo_elf demo_view ?gdt 1] demo_setup
    by (auto simp: demo_config_def demo_view_def demo_env_def)
  have img: "user_byte demo_view 0x1000 s a = Some (7, seg_byte demo_elf (phdr_of demo_env demo_elf 0) (unat a))"
    if "0x400078 \<le> unat a" "unat a < 0x4000A0" for a
    using r(3) that by (simp add: elf_image_def demo_header demo_phdr seg_flags_def)
  have "demo_elf ! 120 = 0xEB" by (simp add: demo_elf_def demo_elf_header_def)
  then have "user_byte demo_view 0x1000 s 0x400078 = Some (7, 0xEB)" "user_byte demo_view 0x1000 s 0x40009F = Some (7, 0)"
    using img [of "0x400078"] img [of "0x40009F"] by (simp_all add: seg_byte_def demo_phdr)
  with r(1,2) show ?thesis by (auto simp: new_user_def demo_header)
qed

theorem load_elf_truncated_panics_witness:
  "load_elf demo_env (heap_allocate_frame Inr) 0x1000 demo_short demo_loader = Inl IndexOutOfBounds"
proof -
  have "seg_truncated demo_short (phdr_of demo_env demo_short 0)"
    by (simp add: seg_truncated_def demo_phdr user_page_def demo_lengths)
  moreover have "heap_owns_frames demo_config (frames_from demo_loader) demo_frames" "serial1 (console demo_loader)"
    using demo_owns by (simp_all add: demo_loader_def)
  ultimately show ?thesis
    using load_elf_truncated_panics [of demo_config demo_loader demo_frames demo_env demo_view demo_short] demo_setup
    by (simp add: demo_lengths demo_header demo_elf_header_def)
      (simp add: demo_config_def demo_view_def demo_env_def demo_loader_def)
qed

end
