(* ===== verification/X86.thy ===== *)
theory X86
  imports Prelude
begin

text \<open>
  The fragment of the processor that the two naked functions of the kernel use
  (\<^verbatim>\<open>timer_interrupt_entry\<close> and \<^verbatim>\<open>syscall_handler\<close>): general purpose registers, the stack as a
  memory of quadwords, interrupt delivery, \<open>syscall\<close>, \<open>iretq\<close> and \<open>sysretq\<close>. Instructions run in a
  straight line, so the instruction pointer only changes where control leaves the routine. A
  \<open>call\<close> is one step whose effect is the argument \<open>callee\<close>, and the flags an \<open>add\<close> leaves
  are the argument \<open>alu\<close>.
\<close>

datatype reg = RAX | RBX | RCX | RDX | RSI | RDI | RBP | RSP
  | R8 | R9 | R10 | R11 | R12 | R13 | R14 | R15

record cpu =
  gpr :: "reg \<Rightarrow> u64"
  rip :: u64
  cs :: u16
  ss :: u16
  ds :: u16
  es :: u16
  fs :: u16
  gs :: u16
  rflags :: u64
  star :: u64
  lstar :: u64
  sfmask :: u64
  mem :: "u64 \<Rightarrow> u64"

datatype instr =
    Push reg
  | Pop reg
  | Mov reg reg
  | Load reg reg u64
  | Store reg u64 reg
  | LoadSym reg u64
  | StoreSym u64 reg
  | LeaSym reg u64
  | AddImm reg u64
  | Sti
  | Cli
  | Call
  | Iretq
  | Sysretq

definition IF_FLAG :: u64 where "IF_FLAG = 0x200"

definition set_reg :: "reg \<Rightarrow> u64 \<Rightarrow> cpu \<Rightarrow> cpu" where
  "set_reg r v c = c\<lparr>gpr := (gpr c)(r := v)\<rparr>"

definition push_val :: "u64 \<Rightarrow> cpu \<Rightarrow> cpu" where
  "push_val v c = (let sp = gpr c RSP - 8 in c\<lparr>gpr := (gpr c)(RSP := sp), mem := (mem c)(sp := v)\<rparr>)"

text \<open>\<open>sysretq\<close> derives the selectors of user mode from bits 48 to 63 of \<open>STAR\<close>.\<close>

definition sysret_cs :: "u64 \<Rightarrow> u16" where
  "sysret_cs st = (ucast (drop_bit 48 st) + 16) OR 3"

definition sysret_ss :: "u64 \<Rightarrow> u16" where
  "sysret_ss st = (ucast (drop_bit 48 st) + 8) OR 3"

definition syscall_cs :: "u64 \<Rightarrow> u16" where
  "syscall_cs st = ucast (drop_bit 32 st) AND 0xFFFC"

definition syscall_ss :: "u64 \<Rightarrow> u16" where
  "syscall_ss st = ucast (drop_bit 32 st) + 8"

type_synonym 'k callee = "'k \<Rightarrow> cpu \<Rightarrow> (cpu \<times> 'k) outcome"

fun exec1 :: "(u64 \<Rightarrow> u64 \<Rightarrow> u64 \<Rightarrow> u64) \<Rightarrow> 'k callee \<Rightarrow> instr \<Rightarrow> 'k \<Rightarrow> cpu \<Rightarrow> (cpu \<times> 'k) outcome" where
  "exec1 alu callee (Push r) k c = Inr (push_val (gpr c r) c, k)"
| "exec1 alu callee (Pop r) k c =
     Inr (c\<lparr>gpr := (gpr c)(RSP := gpr c RSP + 8, r := mem c (gpr c RSP))\<rparr>, k)"
| "exec1 alu callee (Mov d s) k c = Inr (set_reg d (gpr c s) c, k)"
| "exec1 alu callee (Load d b disp) k c = Inr (set_reg d (mem c (gpr c b + disp)) c, k)"
| "exec1 alu callee (Store b disp s) k c = Inr (c\<lparr>mem := (mem c)(gpr c b + disp := gpr c s)\<rparr>, k)"
| "exec1 alu callee (LoadSym d a) k c = Inr (set_reg d (mem c a) c, k)"
| "exec1 alu callee (StoreSym a s) k c = Inr (c\<lparr>mem := (mem c)(a := gpr c s)\<rparr>, k)"
| "exec1 alu callee (LeaSym d a) k c = Inr (set_reg d a c, k)"
| "exec1 alu callee (AddImm d v) k c =
     Inr (set_reg d (gpr c d + v) c\<lparr>rflags := alu (gpr c d) v (rflags c)\<rparr>, k)"
| "exec1 alu callee Sti k c = Inr (c\<lparr>rflags := rflags c OR IF_FLAG\<rparr>, k)"
| "exec1 alu callee Cli k c = Inr (c\<lparr>rflags := rflags c AND NOT IF_FLAG\<rparr>, k)"
| "exec1 alu callee Call k c = callee k c"
| "exec1 alu callee Iretq k c =
     (let sp = gpr c RSP
      in Inr (c\<lparr>rip := mem c sp, cs := ucast (mem c (sp + 8)), rflags := mem c (sp + 16),
           gpr := (gpr c)(RSP := mem c (sp + 24)), ss := ucast (mem c (sp + 32))\<rparr>, k))"
| "exec1 alu callee Sysretq k c =
     Inr (c\<lparr>rip := gpr c RCX, rflags := gpr c R11, cs := sysret_cs (star c), ss := sysret_ss (star c)\<rparr>, k)"

fun exec :: "(u64 \<Rightarrow> u64 \<Rightarrow> u64 \<Rightarrow> u64) \<Rightarrow> 'k callee \<Rightarrow> instr list \<Rightarrow> 'k \<Rightarrow> cpu \<Rightarrow> (cpu \<times> 'k) outcome" where
  "exec alu callee [] k c = Inr (c, k)"
| "exec alu callee (i # is) k c = and_then (exec1 alu callee i k c) (\<lambda>(c, k). exec alu callee is k c)"

text \<open>
  Interrupt delivery through an interrupt gate: from user mode the processor switches to the stack
  \<open>rsp0\<close> of the task state segment, otherwise it stays on the current one; it aligns the stack
  pointer and pushes the five words of the frame.
\<close>

definition deliver_interrupt :: "u16 \<Rightarrow> u64 \<Rightarrow> u64 \<Rightarrow> cpu \<Rightarrow> cpu" where
  "deliver_interrupt kernel_cs rsp0 handler c =
     (let user = (cs c AND 3 = 3);
          base = (if user then rsp0 else gpr c RSP) AND NOT 15;
          c1 = push_val (rip c) (push_val (ucast (cs c)) (push_val (rflags c) (push_val (gpr c RSP)
                 (push_val (ucast (ss c)) (set_reg RSP base c)))))
      in c1\<lparr>rip := handler, cs := kernel_cs, ss := (if user then 0 else ss c),
            rflags := rflags c AND NOT 0x14300\<rparr>)"

text \<open>The \<open>syscall\<close> instruction; \<open>next\<close> is the address of the instruction after it.\<close>

definition syscall_instr :: "u64 \<Rightarrow> cpu \<Rightarrow> cpu" where
  "syscall_instr next c =
     c\<lparr>gpr := (gpr c)(RCX := next, R11 := rflags c), rip := lstar c, rflags := rflags c AND NOT (sfmask c),
       cs := syscall_cs (star c), ss := syscall_ss (star c)\<rparr>"

subsection \<open>Sequences of pushes and pops\<close>

text \<open>Addresses of quadwords on a stack are distinct over its whole length.\<close>

lemma qword_inj: "i < 2 ^ 61 \<Longrightarrow> j < 2 ^ 61 \<Longrightarrow> (a + 8 * of_nat i = a + 8 * of_nat j) = (i = (j :: nat))" for a :: u64
proof -
  assume *: "i < 2 ^ 61" "j < 2 ^ 61"
  have "unat (8 * of_nat n :: u64) = 8 * n" if "n < 2 ^ 61" for n
    using that by (simp add: unat_word_ariths unat_of_nat)
  then have "8 * i = 8 * j" if "(8 * of_nat i :: u64) = 8 * of_nat j"
    using * that by metis
  then show ?thesis by auto
qed

lemma exec_append:
  "exec alu callee (is @ js) k c = and_then (exec alu callee is k c) (\<lambda>(c, k). exec alu callee js k c)"
  by (induction "is" arbitrary: k c) (auto simp: and_then_assoc split_def)

lemma push_val_simps [simp]:
  "gpr (push_val v c) RSP = gpr c RSP - 8" "r \<noteq> RSP \<Longrightarrow> gpr (push_val v c) r = gpr c r"
  "mem (push_val v c) = (mem c)(gpr c RSP - 8 := v)"
  "rip (push_val v c) = rip c" "cs (push_val v c) = cs c" "ss (push_val v c) = ss c"
  "rflags (push_val v c) = rflags c" "star (push_val v c) = star c" "lstar (push_val v c) = lstar c"
  "sfmask (push_val v c) = sfmask c"
  by (simp_all add: push_val_def Let_def)

fun push_vals :: "u64 list \<Rightarrow> cpu \<Rightarrow> cpu" where
  "push_vals [] c = c"
| "push_vals (v # vs) c = push_vals vs (push_val v c)"

lemma push_vals_append [simp]: "push_vals (us @ vs) c = push_vals vs (push_vals us c)"
  by (induction us arbitrary: c) auto

lemma push_vals_gpr [simp]: "r \<noteq> RSP \<Longrightarrow> gpr (push_vals vs c) r = gpr c r"
  by (induction vs arbitrary: c) auto

lemma push_vals_rest [simp]:
  "rip (push_vals vs c) = rip c" "cs (push_vals vs c) = cs c" "ss (push_vals vs c) = ss c"
  "rflags (push_vals vs c) = rflags c" "star (push_vals vs c) = star c" "lstar (push_vals vs c) = lstar c"
  "sfmask (push_vals vs c) = sfmask c"
  by (induction vs arbitrary: c) auto

lemma push_vals_rsp: "gpr (push_vals vs c) RSP = gpr c RSP - 8 * of_nat (length vs)"
  by (induction vs arbitrary: c) (auto simp: algebra_simps)

lemma exec_pushes:
  "RSP \<notin> set rs \<Longrightarrow> exec alu callee (map Push rs) k c = Inr (push_vals (map (gpr c) rs) c, k)"
proof (induction rs arbitrary: c)
  case (Cons r rs)
  have "map (gpr (push_val (gpr c r) c)) rs = map (gpr c) rs" using Cons.prems by (intro map_cong push_val_simps(2)) auto
  then show ?case using Cons by (simp add: split_def del: map_eq_conv)
qed simp

text \<open>The stack after pushing a list: its elements, the last one on top, and nothing else changed.\<close>

lemma push_vals_mem:
  assumes "length vs < 2 ^ 61"
  shows "i < length vs \<Longrightarrow> mem (push_vals vs c) (gpr c RSP - 8 * of_nat (length vs) + 8 * of_nat i) = rev vs ! i"
    and "(\<And>i. i < length vs \<Longrightarrow> a \<noteq> gpr c RSP - 8 * of_nat (length vs) + 8 * of_nat i) \<Longrightarrow> mem (push_vals vs c) a = mem c a"
proof -
  have "(i < length vs \<longrightarrow> mem (push_vals vs c) (gpr c RSP - 8 * of_nat (length vs) + 8 * of_nat i) = rev vs ! i) \<and>
    ((\<forall>i < length vs. a \<noteq> gpr c RSP - 8 * of_nat (length vs) + 8 * of_nat i) \<longrightarrow> mem (push_vals vs c) a = mem c a)"
    for i a using assms
  proof (induction vs arbitrary: i a rule: rev_induct)
    case (snoc v vs)
    let ?c = "push_vals vs c" and ?n = "length vs"
    let ?sp = "gpr c RSP - 8 * of_nat (Suc ?n)"
    have m: "mem (push_vals (vs @ [v]) c) = (mem ?c)(?sp := v)"
      by (simp add: push_vals_rsp algebra_simps)
    have lim: "?n < 2 ^ 61" using snoc.prems by simp
    note IH = snoc.IH [OF lim]
    have up: "?sp + 8 * of_nat (Suc j) = gpr c RSP - 8 * of_nat ?n + 8 * of_nat j" for j
      by (simp add: algebra_simps)
    have neq: "?sp + 8 * of_nat (Suc j) \<noteq> ?sp" if "j < ?n" for j
      using qword_inj [of "Suc j" 0 ?sp] that snoc.prems by simp
    have "mem (push_vals (vs @ [v]) c) (?sp + 8 * of_nat i) = rev (vs @ [v]) ! i" if "i < Suc ?n"
    proof (cases i)
      case 0
      then show ?thesis unfolding m by (simp del: of_nat_Suc)
    next
      case (Suc j)
      then have "j < ?n" using that by simp
      with IH [of j a] neq [of j] Suc show ?thesis by (simp only: m up fun_upd_apply) simp
    qed
    moreover have "mem (push_vals (vs @ [v]) c) a = mem c a" if "\<forall>i < Suc ?n. a \<noteq> ?sp + 8 * of_nat i"
    proof -
      have "a \<noteq> ?sp" using spec [OF that, of 0] by (simp del: of_nat_Suc)
      moreover have "a \<noteq> gpr c RSP - 8 * of_nat ?n + 8 * of_nat j" if "j < ?n" for j
        using spec [OF \<open>\<forall>i < Suc ?n. _ i\<close>, of "Suc j"] that unfolding up by simp
      ultimately show ?thesis using IH [of 0 a] by (simp only: m fun_upd_apply) simp
    qed
    ultimately show ?case by simp
  qed simp
  then show "i < length vs \<Longrightarrow> mem (push_vals vs c) (gpr c RSP - 8 * of_nat (length vs) + 8 * of_nat i) = rev vs ! i"
    and "(\<And>i. i < length vs \<Longrightarrow> a \<noteq> gpr c RSP - 8 * of_nat (length vs) + 8 * of_nat i) \<Longrightarrow> mem (push_vals vs c) a = mem c a"
    by blast+
qed

text \<open>Popping distinct registers loads them from consecutive words of the stack.\<close>

fun pop_regs :: "reg list \<Rightarrow> cpu \<Rightarrow> cpu" where
  "pop_regs [] c = c"
| "pop_regs (r # rs) c = pop_regs rs (c\<lparr>gpr := (gpr c)(RSP := gpr c RSP + 8, r := mem c (gpr c RSP))\<rparr>)"

lemma exec_pops: "exec alu callee (map Pop rs) k c = Inr (pop_regs rs c, k)"
  by (induction rs arbitrary: c) (auto simp: split_def)

lemma pop_regs_rest [simp]:
  "rip (pop_regs rs c) = rip c" "cs (pop_regs rs c) = cs c" "ss (pop_regs rs c) = ss c"
  "rflags (pop_regs rs c) = rflags c" "star (pop_regs rs c) = star c" "lstar (pop_regs rs c) = lstar c"
  "sfmask (pop_regs rs c) = sfmask c" "mem (pop_regs rs c) = mem c"
  by (induction rs arbitrary: c) auto

lemma pop_regs_rsp: "RSP \<notin> set rs \<Longrightarrow> gpr (pop_regs rs c) RSP = gpr c RSP + 8 * of_nat (length rs)"
  by (induction rs arbitrary: c) (auto simp: algebra_simps)

lemma pop_regs_other: "r \<notin> set rs \<Longrightarrow> r \<noteq> RSP \<Longrightarrow> gpr (pop_regs rs c) r = gpr c r"
  by (induction rs arbitrary: c) auto

lemma pop_regs_nth:
  assumes "distinct rs" "RSP \<notin> set rs" "i < length rs"
  shows "gpr (pop_regs rs c) (rs ! i) = mem c (gpr c RSP + 8 * of_nat i)"
  using assms
proof (induction rs arbitrary: c i)
  case (Cons r rs)
  show ?case
  proof (cases i)
    case 0
    have "r \<noteq> RSP" using Cons.prems(2) by auto
    with 0 show ?thesis using Cons.prems pop_regs_other [of r rs] by simp
  next
    case (Suc j)
    then show ?thesis using Cons.IH [of j] Cons.prems by (simp add: algebra_simps)
  qed
qed simp

end
