(* ===== verification/Switch.thy ===== *)
theory Switch
  imports Scheduler X86 Apic
begin

text \<open>
  Context switching, \<^verbatim>\<open>kernel/src/tasks/switch.rs\<close>: the timer tick on a saved context, the assembly
  around it, and the first entry into user mode. The pointer to the stack field of the task state
  segment is \<open>tss_rsp0_ptr\<close> (null: 0), the word it points to \<open>tss_rsp0\<close>.
\<close>

record kstate =
  sched :: scheduler
  tss_rsp0_ptr :: u64
  tss_rsp0 :: u64
  kio :: io

definition timer_tick :: "kstate \<Rightarrow> task_context \<Rightarrow> (task_context \<times> kstate) outcome" where
  "timer_tick k ctx =
     (let from_usermode = (c_cs ctx AND 3 = 3)
      in if \<not> is_initialized (sched k) then
           and_then (serial_print (if from_usermode then ''u'' else ''.'') (kio k)) (\<lambda>io.
           Inr (ctx, k\<lparr>kio := end_interrupt io\<rparr>))
         else
           and_then (current_task_id (sched k)) (\<lambda>id.
           and_then (case id of Some task_id \<Rightarrow> serial_print (dec task_id) (kio k) | None \<Rightarrow> Inr (kio k)) (\<lambda>io.
           and_then (schedule (sched k)) (\<lambda>(r, s).
           case r of
             Some (old_ctx, new_ctx, new_kernel_stack) \<Rightarrow>
               let s = set_context s old_ctx ctx
               in Inr (tcontext (tasks s ! new_ctx),
                    k\<lparr>sched := s, kio := end_interrupt io,
                      tss_rsp0 := (if tss_rsp0_ptr k \<noteq> 0 then new_kernel_stack else tss_rsp0 k)\<rparr>)
           | None \<Rightarrow> Inr (ctx, k\<lparr>sched := s, kio := end_interrupt io\<rparr>)))))"

definition timer_interrupt_entry :: "instr list" where
  "timer_interrupt_entry =
     [Push RAX, Push RBX, Push RCX, Push RDX, Push RSI, Push RDI, Push RBP, Push R8, Push R9, Push R10,
      Push R11, Push R12, Push R13, Push R14, Push R15,
      Mov RDI RSP,
      Call,
      Pop R15, Pop R14, Pop R13, Pop R12, Pop R11, Pop R10, Pop R9, Pop R8, Pop RBP, Pop RDI, Pop RSI,
      Pop RDX, Pop RCX, Pop RBX, Pop RAX,
      Iretq]"

definition switch_to_first_task :: "kstate \<Rightarrow> cpu \<Rightarrow> (cpu \<times> kstate) outcome" where
  "switch_to_first_task k c =
     and_then (current_context (sched k)) (\<lambda>ctx.
     case ctx of
       None \<Rightarrow> Inl (PanicMsg ''No tasks to run'')
     | Some ctx \<Rightarrow>
         and_then (current_kernel_stack_top (sched k)) (\<lambda>st.
         case st of
           None \<Rightarrow> Inl (PanicMsg ''No kernel stack'')
         | Some kstack \<Rightarrow>
             let k = k\<lparr>tss_rsp0 := (if tss_rsp0_ptr k \<noteq> 0 then kstack else tss_rsp0 k)\<rparr>;
                 user_data = ucast (c_ss ctx);
                 c = c\<lparr>ds := user_data, es := user_data, fs := user_data, gs := user_data\<rparr>;
                 c = push_val (c_rip ctx) (push_val (c_cs ctx) (push_val (c_rflags ctx)
                       (push_val (c_rsp ctx) (push_val (c_ss ctx) c))))
             in exec1 (\<lambda>_ _ f. f) (\<lambda>k c. Inr (c, k)) Iretq k c))"

subsection \<open>Contexts in registers and in memory\<close>

definition context_of :: "cpu \<Rightarrow> task_context" where
  "context_of c =
     \<lparr>c_r15 = gpr c R15, c_r14 = gpr c R14, c_r13 = gpr c R13, c_r12 = gpr c R12, c_r11 = gpr c R11,
      c_r10 = gpr c R10, c_r9 = gpr c R9, c_r8 = gpr c R8, c_rbp = gpr c RBP, c_rdi = gpr c RDI,
      c_rsi = gpr c RSI, c_rdx = gpr c RDX, c_rcx = gpr c RCX, c_rbx = gpr c RBX, c_rax = gpr c RAX,
      c_rip = rip c, c_cs = ucast (cs c), c_rflags = rflags c, c_rsp = gpr c RSP, c_ss = ucast (ss c)\<rparr>"

text \<open>The C layout of a context in memory.\<close>

definition read_context :: "(u64 \<Rightarrow> u64) \<Rightarrow> u64 \<Rightarrow> task_context" where
  "read_context m a =
     (let w = (\<lambda>i. m (a + 8 * of_nat i))
      in \<lparr>c_r15 = w 0, c_r14 = w 1, c_r13 = w 2, c_r12 = w 3, c_r11 = w 4, c_r10 = w 5, c_r9 = w 6, c_r8 = w 7,
          c_rbp = w 8, c_rdi = w 9, c_rsi = w 10, c_rdx = w 11, c_rcx = w 12, c_rbx = w 13, c_rax = w 14,
          c_rip = w 15, c_cs = w 16, c_rflags = w 17, c_rsp = w 18, c_ss = w 19\<rparr>)"

fun ctx_reg :: "task_context \<Rightarrow> reg \<Rightarrow> u64" where
  "ctx_reg x RAX = c_rax x" | "ctx_reg x RBX = c_rbx x" | "ctx_reg x RCX = c_rcx x" | "ctx_reg x RDX = c_rdx x"
| "ctx_reg x RSI = c_rsi x" | "ctx_reg x RDI = c_rdi x" | "ctx_reg x RBP = c_rbp x" | "ctx_reg x RSP = c_rsp x"
| "ctx_reg x R8 = c_r8 x" | "ctx_reg x R9 = c_r9 x" | "ctx_reg x R10 = c_r10 x" | "ctx_reg x R11 = c_r11 x"
| "ctx_reg x R12 = c_r12 x" | "ctx_reg x R13 = c_r13 x" | "ctx_reg x R14 = c_r14 x" | "ctx_reg x R15 = c_r15 x"

text \<open>The processor runs with the registers of a context.\<close>

definition loaded :: "task_context \<Rightarrow> cpu \<Rightarrow> bool" where
  "loaded x c \<longleftrightarrow> gpr c = ctx_reg x \<and> rip c = c_rip x \<and> cs c = ucast (c_cs x) \<and> rflags c = c_rflags x \<and> ss c = ucast (c_ss x)"

text \<open>
  The compiled \<open>timer_tick\<close>, called by the System V convention: it applies \<open>timer_tick\<close> to the context
  its first argument points to and returns with the stack pointer restored. Other registers and
  the memory outside the context may hold anything.
\<close>

definition tick_callee :: "kstate callee \<Rightarrow> bool" where
  "tick_callee callee \<longleftrightarrow>
     (\<forall>k c. case timer_tick k (read_context (mem c) (gpr c RDI)) of
        Inl e \<Rightarrow> callee k c = Inl e
      | Inr (x, k') \<Rightarrow> \<exists>c'. callee k c = Inr (c', k') \<and> gpr c' RSP = gpr c RSP \<and>
          read_context (mem c') (gpr c RDI) = x)"

definition push_order :: "reg list" where
  "push_order = [RAX, RBX, RCX, RDX, RSI, RDI, RBP, R8, R9, R10, R11, R12, R13, R14, R15]"

lemma entry_split:
  "timer_interrupt_entry = map Push push_order @ [Mov RDI RSP, Call] @ map Pop (rev push_order) @ [Iretq]"
  by (simp add: timer_interrupt_entry_def push_order_def)

lemma push_val_upd:
  "push_val v (c\<lparr>rip := a, cs := b, ss := d, rflags := f\<rparr>) = (push_val v c)\<lparr>rip := a, cs := b, ss := d, rflags := f\<rparr>"
  by (cases c) (simp add: push_val_def Let_def)

lemma push_vals_upd:
  "push_vals vs (c\<lparr>rip := a, cs := b, ss := d, rflags := f\<rparr>) = (push_vals vs c)\<lparr>rip := a, cs := b, ss := d, rflags := f\<rparr>"
  by (induction vs arbitrary: c) (auto simp: push_val_upd)

definition frame_words :: "cpu \<Rightarrow> u64 list" where
  "frame_words c = [ucast (ss c), gpr c RSP, rflags c, ucast (cs c), rip c]"

definition interrupt_base :: "u64 \<Rightarrow> cpu \<Rightarrow> u64" where
  "interrupt_base rsp0 c = (if cs c AND 3 = 3 then rsp0 else gpr c RSP) AND NOT 15"

lemma deliver_eq:
  "deliver_interrupt kcs rsp0 h c =
     push_vals (frame_words c)
       ((set_reg RSP (interrupt_base rsp0 c) c)\<lparr>rip := h, cs := kcs, ss := (if cs c AND 3 = 3 then 0 else ss c),
          rflags := rflags c AND NOT 0x14300\<rparr>)"
  unfolding push_vals_upd by (simp add: deliver_interrupt_def frame_words_def interrupt_base_def Let_def)

text \<open>The prologue leaves exactly the interrupted context on the stack.\<close>

lemma prologue:
  fixes c :: cpu and rsp0 :: u64
  defines "sp \<equiv> interrupt_base rsp0 c - 160"
  obtains c1 where "exec alu callee (map Push push_order) k (deliver_interrupt kcs rsp0 h c) = Inr (c1, k)"
    "gpr c1 RSP = sp" "read_context (mem c1) sp = context_of c"
    "\<And>a. (\<And>i. i < 20 \<Longrightarrow> a \<noteq> sp + 8 * of_nat i) \<Longrightarrow> mem c1 a = mem c a"
proof -
  let ?c0 = "(set_reg RSP (interrupt_base rsp0 c) c)\<lparr>rip := h, cs := kcs, ss := (if cs c AND 3 = 3 then 0 else ss c),
          rflags := rflags c AND NOT 0x14300\<rparr>"
  let ?d = "deliver_interrupt kcs rsp0 h c"
  let ?vs = "frame_words c @ map (gpr c) push_order"
  let ?c1 = "push_vals ?vs ?c0"
  have nr: "RSP \<notin> set push_order" by (simp add: push_order_def)
  have "map (gpr ?d) push_order = map (gpr c) push_order"
    by (auto simp: deliver_eq push_order_def set_reg_def)
  with exec_pushes [OF nr, of alu callee k ?d]
  have e: "exec alu callee (map Push push_order) k ?d = Inr (?c1, k)"
    by (simp add: deliver_eq del: map_eq_conv)
  have len: "length ?vs = 20" by (simp add: frame_words_def push_order_def)
  have base: "gpr ?c0 RSP - 8 * of_nat (length ?vs) = sp" unfolding len sp_def by (simp add: set_reg_def)
  have w: "mem ?c1 (sp + 8 * of_nat i) = rev ?vs ! i" if "i < 20" for i
  proof -
    have "mem ?c1 (gpr ?c0 RSP - 8 * of_nat (length ?vs) + 8 * of_nat i) = rev ?vs ! i"
      using that len by (intro push_vals_mem(1)) simp_all
    then show ?thesis unfolding base .
  qed
  have "read_context (mem ?c1) sp = context_of c"
    unfolding read_context_def Let_def
    by (simp only: w) (simp add: context_of_def frame_words_def push_order_def eval_nat_numeral)
  moreover have "mem ?c1 a = mem c a" if out: "\<And>i. i < 20 \<Longrightarrow> a \<noteq> sp + 8 * of_nat i" for a
  proof -
    have "a \<noteq> gpr ?c0 RSP - 8 * of_nat (length ?vs) + 8 * of_nat i" if "i < length ?vs" for i
      unfolding base using out that len by simp
    note far = this
    have "mem ?c1 a = mem ?c0 a"
    proof (rule push_vals_mem(2))
      show "length ?vs < 2 ^ 61" unfolding len by simp
    qed (rule far)
    then show ?thesis by (simp add: set_reg_def)
  qed
  moreover have "gpr ?c1 RSP = sp" using push_vals_rsp [of ?vs ?c0] unfolding base .
  ultimately show thesis using that e by blast
qed

text \<open>The words of a context, in the order of its fields.\<close>

definition ctx_words :: "task_context \<Rightarrow> u64 list" where
  "ctx_words x = [c_r15 x, c_r14 x, c_r13 x, c_r12 x, c_r11 x, c_r10 x, c_r9 x, c_r8 x, c_rbp x, c_rdi x, c_rsi x,
     c_rdx x, c_rcx x, c_rbx x, c_rax x, c_rip x, c_cs x, c_rflags x, c_rsp x, c_ss x]"

lemma read_context_words:
  assumes "read_context m a = x"
  shows "map (\<lambda>i. m (a + 8 * of_nat i)) [0..<20] = ctx_words x"
  unfolding assms [symmetric] by (simp add: read_context_def Let_def ctx_words_def upt_rec)

lemma ctx_words_regs: "map (ctx_reg x) (rev push_order) = take 15 (ctx_words x)"
  by (simp add: push_order_def ctx_words_def)

lemma push_order_all: "r \<noteq> RSP \<Longrightarrow> r \<in> set push_order"
  by (cases r) (simp_all add: push_order_def)

text \<open>The epilogue loads exactly the context on the stack.\<close>

lemma epilogue:
  assumes "read_context (mem c) (gpr c RSP) = x"
  obtains c1 where "exec alu callee (map Pop (rev push_order) @ [Iretq]) k c = Inr (c1, k)" "loaded x c1" "mem c1 = mem c"
proof -
  let ?c1 = "pop_regs (rev push_order) c" and ?sp = "gpr c RSP"
  have d: "distinct (rev push_order)" "RSP \<notin> set (rev push_order)" "length (rev push_order) = 15"
    by (simp_all add: push_order_def)
  have w: "mem c (?sp + 8 * of_nat i) = ctx_words x ! i" if "i < 20" for i
    using arg_cong [OF read_context_words [OF assms], of "\<lambda>l. l ! i"] that by simp
  have "map (gpr ?c1) (rev push_order) = map (ctx_reg x) (rev push_order)"
    unfolding ctx_words_regs
  proof (rule nth_equalityI)
    show "length (map (gpr ?c1) (rev push_order)) = length (take 15 (ctx_words x))"
      by (simp add: push_order_def ctx_words_def)
  next
    fix i assume "i < length (map (gpr ?c1) (rev push_order))"
    then show "map (gpr ?c1) (rev push_order) ! i = take 15 (ctx_words x) ! i"
      using pop_regs_nth [OF d(1,2), of i c] w [of i] d(3) by simp
  qed
  then have regs: "gpr ?c1 r = ctx_reg x r" if "r \<noteq> RSP" for r
    using push_order_all [OF that] unfolding map_eq_conv by simp
  have sp: "gpr ?c1 RSP = ?sp + 120" using pop_regs_rsp [OF d(2), of c] d(3) by simp
  define c2 where "c2 = ?c1\<lparr>rip := mem c (?sp + 120), cs := ucast (mem c (?sp + 128)), rflags := mem c (?sp + 136),
    gpr := (gpr ?c1)(RSP := mem c (?sp + 144)), ss := ucast (mem c (?sp + 152))\<rparr>"
  have e: "exec1 alu callee Iretq k ?c1 = Inr (c2, k)" by (simp add: Let_def sp c2_def add.assoc)
  have "gpr c2 r = ctx_reg x r" for r
    using regs [of r] w [of 18] by (cases "r = RSP") (simp_all add: c2_def ctx_words_def)
  then have "loaded x c2"
    using w [of 15] w [of 16] w [of 17] w [of 19] unfolding loaded_def by (auto simp: c2_def ctx_words_def)
  moreover have "mem c2 = mem c" by (simp add: c2_def)
  ultimately show thesis using that e by (simp add: exec_append exec_pops del: exec1.simps)
qed

end
