(* ===== verification/Switch_Correct.thy ===== *)
theory Switch_Correct
  imports Switch
begin

text \<open>
  Correctness of scheduling and context switching: the scheduler's invariant over all its histories,
  the assembly of the timer interrupt as a refinement of \<open>timer_tick\<close>, what one tick does, and
  the round robin: every task runs again, with the registers it was interrupted with.
\<close>

text \<open>
  C25: In every state the scheduler can get into, the current index is valid when there is a task, and
  once it has been started exactly one task is running: the current one.
\<close>

theorem scheduler_one_running:
  assumes "reachable s"
  shows "(tasks s \<noteq> [] \<longrightarrow> current s < length (tasks s)) \<and>
    {i. i < length (tasks s) \<and> tstate (tasks s ! i) = Running} = (if initialized s then {current s} else {})"
proof -
  have inv: "sched_inv s" using reachable_inv [OF assms] by simp
  then have "initialized s \<Longrightarrow> current s < length (tasks s)" by (auto simp: sched_inv_def)
  with inv show ?thesis by (auto simp: sched_inv_def)
qed

subsection \<open>One tick\<close>

text \<open>A started scheduler with at least two tasks and a working console.\<close>

definition multitasking :: "kstate \<Rightarrow> bool" where
  "multitasking k \<longleftrightarrow> sched_inv (sched k) \<and> stacks_ok (sched k) \<and> initialized (sched k) \<and>
     2 \<le> length (tasks (sched k)) \<and> serial1 (kio k)"

abbreviation next_task :: "kstate \<Rightarrow> nat" where
  "next_task k \<equiv> (current (sched k) + 1) mod length (tasks (sched k))"

lemma multitasking_current: "multitasking k \<Longrightarrow> current (sched k) < length (tasks (sched k))"
  by (auto simp: multitasking_def sched_inv_def)

lemma serial1_end_interrupt [simp]: "serial1 (end_interrupt io) = serial1 io"
  by (simp add: end_interrupt_def write_volatile_def)

lemma tick_switch:
  assumes m: "multitasking k"
  defines "c \<equiv> current (sched k)" and "n \<equiv> next_task k" and "ts \<equiv> tasks (sched k)"
  obtains k' where "timer_tick k x = Inr (tcontext (ts ! n), k')" "multitasking k'" "current (sched k') = n"
    "length (tasks (sched k')) = length ts"
    "\<And>i. i < length ts \<Longrightarrow> tcontext (tasks (sched k') ! i) = (if i = c then x else tcontext (ts ! i))"
    "kio k' = end_interrupt ((kio k)\<lparr>serial_out := serial_out (kio k) @ dec (tid (ts ! c))\<rparr>)"
    "tss_rsp0_ptr k' = tss_rsp0_ptr k"
    "kernel_stack_top (ts ! n) = Inr (if tss_rsp0_ptr k \<noteq> 0 then tss_rsp0 k' else kernel_stack (ts ! n) + 4096)"
proof -
  have two: "2 \<le> length ts" and c: "c < length ts" and st: "stacks_ok (sched k)" "sched_inv (sched k)" "initialized (sched k)"
    and ser: "serial1 (kio k)"
    using m multitasking_current [OF m] by (simp_all add: multitasking_def c_def ts_def)
  obtain top s' where s': "schedule (sched k) = Inr (Some (c, n, top), s')" "n \<noteq> c" "n < length ts"
      "kernel_stack_top (ts ! n) = Inr top" "current s' = n" "initialized s' = initialized (sched k)"
      "tasks s' = ts[c := (ts ! c)\<lparr>tstate := Ready\<rparr>, n := (ts ! n)\<lparr>tstate := Running\<rparr>]"
    using schedule_run [of "sched k"] two c st(1) unfolding c_def n_def ts_def by auto
  let ?s = "set_context s' c x"
  let ?io = "(kio k)\<lparr>serial_out := serial_out (kio k) @ dec (tid (ts ! c))\<rparr>"
  let ?k = "k\<lparr>sched := ?s, kio := end_interrupt ?io, tss_rsp0 := (if tss_rsp0_ptr k \<noteq> 0 then top else tss_rsp0 k)\<rparr>"
  have ne: "ts \<noteq> []" using two by auto
  have new: "tcontext (tasks ?s ! n) = tcontext (ts ! n)"
    using s'(2,3) by (simp add: set_context_def s'(7) nth_list_update)
  have id: "current_task_id (sched k) = Inr (Some (tid (ts ! c)))"
    using ne c by (simp add: current_task_id_def task_at_def ts_def c_def)
  have tick: "timer_tick k x = Inr (tcontext (ts ! n), ?k)"
    using st(3) ser s'(1) new by (simp add: timer_tick_def is_initialized_def id serial_print_def Let_def)
  have "stacks_ok ?s"
    using stacks_ok_schedule [OF st(1) s'(1)] c
    by (simp add: stacks_ok_def set_context_def all_set_conv_all_nth nth_list_update s'(7))
  then have mt: "multitasking ?k"
    using sched_inv_context [OF sched_inv_schedule [OF st(2,1,3) s'(1)], of c x] st(3) two ser s'(6)
    by (simp add: multitasking_def set_context_def s'(7))
  have "kernel_stack (ts ! n) + 4096 = top"
    using s'(4) by (simp add: kernel_stack_top_def u64_add_def KERNEL_STACK_SIZE_def split: if_splits)
  then show thesis
    using c s'(2,3,4) by (intro that [OF tick mt]) (auto simp: set_context_def s'(5,7) nth_list_update)
qed

text \<open>
  One timer tick with several tasks: it does not panic, the interrupted registers are stored in the
  task that was running and in no other, the registers that are loaded are those of the next task
  in turn, the new task's kernel stack goes to the task state segment if its address is known, and
  the interrupt is acknowledged exactly once.
\<close>

lemma timer_tick_switches:
  assumes "multitasking k"
  shows "\<exists>k'. timer_tick k x = Inr (tcontext (tasks (sched k) ! next_task k), k') \<and> multitasking k' \<and>
    current (sched k') = next_task k \<and>
    map tcontext (tasks (sched k')) = (map tcontext (tasks (sched k)))[current (sched k) := x] \<and>
    mmio_log (kio k') = mmio_log (kio k) @ [(lapic_address (kio k) + 0xB0, 0)] \<and>
    (tss_rsp0_ptr k \<noteq> 0 \<longrightarrow> kernel_stack_top (tasks (sched k) ! next_task k) = Inr (tss_rsp0 k'))"
proof -
  obtain k' where k': "timer_tick k x = Inr (tcontext (tasks (sched k) ! next_task k), k')" "multitasking k'"
      "current (sched k') = next_task k" "length (tasks (sched k')) = length (tasks (sched k))"
      "\<And>i. i < length (tasks (sched k)) \<Longrightarrow> tcontext (tasks (sched k') ! i) =
         (if i = current (sched k) then x else tcontext (tasks (sched k) ! i))"
      "kio k' = end_interrupt ((kio k)\<lparr>serial_out := serial_out (kio k) @ dec (tid (tasks (sched k) ! current (sched k)))\<rparr>)"
      "kernel_stack_top (tasks (sched k) ! next_task k) =
         Inr (if tss_rsp0_ptr k \<noteq> 0 then tss_rsp0 k' else kernel_stack (tasks (sched k) ! next_task k) + 4096)"
    by (rule tick_switch [OF assms, of x], rule that)
  have "map tcontext (tasks (sched k')) = (map tcontext (tasks (sched k)))[current (sched k) := x]"
    using k'(4,5) by (intro nth_equalityI) (auto simp: nth_list_update)
  moreover have "mmio_log (kio k') = mmio_log (kio k) @ [(lapic_address (kio k) + 0xB0, 0)]"
    by (simp add: k'(6) end_interrupt_def write_volatile_def lapic_reg_def ptr_offset_def)
  ultimately show ?thesis using k'(1-3,7) by auto
qed

text \<open>
  A tick before the scheduler is started, or with a single task, changes no register: the
  interrupted context is resumed, the task list is untouched, and the interrupt is acknowledged once.
\<close>

lemma timer_tick_transparent:
  assumes "serial1 (kio k)" "sched_inv (sched k)" "\<not> initialized (sched k) \<or> length (tasks (sched k)) < 2"
  shows "\<exists>k'. timer_tick k x = Inr (x, k') \<and> sched k' = sched k \<and>
    mmio_log (kio k') = mmio_log (kio k) @ [(lapic_address (kio k) + 0xB0, 0)]"
proof (cases "initialized (sched k)")
  case False
  then show ?thesis using assms(1)
    by (simp add: timer_tick_def Let_def is_initialized_def serial_print_def end_interrupt_def write_volatile_def
        lapic_reg_def ptr_offset_def)
next
  case True
  then have one: "tasks (sched k) \<noteq> []" "current (sched k) < length (tasks (sched k))" "length (tasks (sched k)) < 2"
    using assms(2,3) by (auto simp: sched_inv_def)
  then show ?thesis using assms(1) True
    by (simp add: timer_tick_def Let_def is_initialized_def current_task_id_def task_at_def serial_print_def schedule_def
        end_interrupt_def write_volatile_def lapic_reg_def ptr_offset_def)
qed

subsection \<open>The interrupt routine refines the tick\<close>

lemma interrupt_routine:
  assumes "tick_callee callee"
  shows "case timer_tick k (context_of c) of
      Inl e \<Rightarrow> exec alu callee timer_interrupt_entry k (deliver_interrupt kcs rsp0 h c) = Inl e
    | Inr (x, k') \<Rightarrow> \<exists>c1. exec alu callee timer_interrupt_entry k (deliver_interrupt kcs rsp0 h c) = Inr (c1, k') \<and> loaded x c1"
proof -
  let ?d = "deliver_interrupt kcs rsp0 h c" and ?sp = "interrupt_base rsp0 c - 160"
  obtain c1 where c1: "exec alu callee (map Push push_order) k ?d = Inr (c1, k)" "gpr c1 RSP = ?sp"
      "read_context (mem c1) ?sp = context_of c"
    by (rule prologue [of alu callee k kcs rsp0 h c], rule that)
  let ?c2 = "set_reg RDI ?sp c1"
  have c2: "gpr ?c2 RDI = ?sp" "gpr ?c2 RSP = ?sp" "mem ?c2 = mem c1" by (simp_all add: set_reg_def c1(2))
  have e: "exec alu callee timer_interrupt_entry k ?d =
      and_then (callee k ?c2) (\<lambda>(c, k). exec alu callee (map Pop (rev push_order) @ [Iretq]) k c)"
    unfolding entry_split by (simp add: exec_append c1(1,2) split_def)
  show ?thesis
  proof (cases "timer_tick k (context_of c)")
    case (Inl err)
    then have "callee k ?c2 = Inl err"
      using spec [OF spec [OF assms [unfolded tick_callee_def], of k], of ?c2] c1(3) unfolding c2 by simp
    with Inl e show ?thesis by simp
  next
    case (Inr r)
    obtain x k' where r: "r = (x, k')" by (cases r)
    obtain c3 where c3: "callee k ?c2 = Inr (c3, k')" "gpr c3 RSP = ?sp" "read_context (mem c3) ?sp = x"
      using spec [OF spec [OF assms [unfolded tick_callee_def], of k], of ?c2] c1(3) Inr r unfolding c2 by auto
    obtain c4 where "exec alu callee (map Pop (rev push_order) @ [Iretq]) k' c3 = Inr (c4, k')" "loaded x c4"
      using epilogue [of c3 x alu callee k'] c3(2,3) by metis
    with e c3(1) Inr r show ?thesis by simp
  qed
qed

text \<open>
  C15: The timer interrupt routine, from the delivery of the interrupt to \<open>iretq\<close>, is \<open>timer_tick\<close> on
  the registers of the interrupted code: whatever stack it runs on, it panics exactly if
  \<open>timer_tick\<close> does, and otherwise continues with all registers, the instruction pointer, the stack
  pointer, the flags and the selectors of the context \<open>timer_tick\<close> leaves.
\<close>

theorem timer_interrupt_refines:
  assumes "tick_callee callee"
  shows "case timer_tick k (context_of c) of
      Inl e \<Rightarrow> exec alu callee timer_interrupt_entry k (deliver_interrupt kcs rsp0 h c) = Inl e
    | Inr (x, k') \<Rightarrow> \<exists>c1. exec alu callee timer_interrupt_entry k (deliver_interrupt kcs rsp0 h c) = Inr (c1, k') \<and> loaded x c1"
  using assms by (rule interrupt_routine)

subsection \<open>Round robin\<close>

text \<open>
  A sequence of timer interrupts: between two of them the running task may do anything, so the
  processor state at each of them is given; the result lists the states the routine continues with.
\<close>

fun interrupts :: "kstate callee \<Rightarrow> (u64 \<Rightarrow> u64 \<Rightarrow> u64 \<Rightarrow> u64) \<Rightarrow> u16 \<Rightarrow> u64 \<Rightarrow> u64 \<Rightarrow> kstate \<Rightarrow> cpu list \<Rightarrow>
    (cpu list \<times> kstate) outcome" where
  "interrupts callee alu kcs rsp0 h k [] = Inr ([], k)"
| "interrupts callee alu kcs rsp0 h k (c # qs) =
     and_then (exec alu callee timer_interrupt_entry k (deliver_interrupt kcs rsp0 h c)) (\<lambda>(c', k).
     and_then (interrupts callee alu kcs rsp0 h k qs) (\<lambda>(qs', k). Inr (c' # qs', k)))"

lemma interrupt_step:
  assumes "tick_callee callee" "multitasking k"
  obtains c1 k' where "exec alu callee timer_interrupt_entry k (deliver_interrupt kcs rsp0 h c) = Inr (c1, k')"
    "loaded (tcontext (tasks (sched k) ! next_task k)) c1" "multitasking k'" "current (sched k') = next_task k"
    "length (tasks (sched k')) = length (tasks (sched k))"
    "\<And>i. i < length (tasks (sched k)) \<Longrightarrow> tcontext (tasks (sched k') ! i) =
       (if i = current (sched k) then context_of c else tcontext (tasks (sched k) ! i))"
proof -
  obtain k' where k': "timer_tick k (context_of c) = Inr (tcontext (tasks (sched k) ! next_task k), k')" "multitasking k'"
      "current (sched k') = next_task k" "length (tasks (sched k')) = length (tasks (sched k))"
      "\<And>i. i < length (tasks (sched k)) \<Longrightarrow> tcontext (tasks (sched k') ! i) =
         (if i = current (sched k) then context_of c else tcontext (tasks (sched k) ! i))"
    by (rule tick_switch [OF assms(2), of "context_of c"], rule that)
  with interrupt_routine [OF assms(1), where k = k and c = c and alu = alu and kcs = kcs and ?rsp0.0 = rsp0 and h = h] that show thesis by auto
qed

text \<open>After \<open>d\<close> interrupts the task \<open>d\<close> places further runs, with the context it had.\<close>

lemma interrupts_reach:
  assumes "tick_callee callee" "multitasking k" "length qs = Suc d" "Suc d < length (tasks (sched k))"
    "i = (current (sched k) + Suc d) mod length (tasks (sched k))"
  shows "\<exists>qs' k'. interrupts callee alu kcs rsp0 h k qs = Inr (qs', k') \<and> multitasking k' \<and> qs' \<noteq> [] \<and>
    loaded (tcontext (tasks (sched k) ! i)) (last qs') \<and> current (sched k') = i"
  using assms(2-)
proof (induction d arbitrary: k qs)
  case 0
  then obtain c where "qs = [c]" by (cases qs) auto
  obtain c1 k' where "exec alu callee timer_interrupt_entry k (deliver_interrupt kcs rsp0 h c) = Inr (c1, k')"
    "loaded (tcontext (tasks (sched k) ! next_task k)) c1" "multitasking k'" "current (sched k') = next_task k"
    by (rule interrupt_step [OF assms(1) 0(1), of alu kcs rsp0 h c], rule that)
  then show ?case using \<open>qs = [c]\<close> 0(4) by simp
next
  case (Suc d)
  then obtain c ps where qs: "qs = c # ps" "length ps = Suc d" by (cases qs) auto
  let ?n = "length (tasks (sched k))" and ?c = "current (sched k)"
  obtain c1 k' where k': "exec alu callee timer_interrupt_entry k (deliver_interrupt kcs rsp0 h c) = Inr (c1, k')"
    "multitasking k'" "current (sched k') = next_task k" "length (tasks (sched k')) = ?n"
    "\<And>i. i < ?n \<Longrightarrow> tcontext (tasks (sched k') ! i) = (if i = ?c then context_of c else tcontext (tasks (sched k) ! i))"
    by (rule interrupt_step [OF assms(1) Suc.prems(1), of alu kcs rsp0 h c], rule that)
  have i: "i = (current (sched k') + Suc d) mod ?n"
    using mod_add_left_eq [of "?c + 1" ?n "Suc d"] unfolding k'(3) Suc.prems(4) by simp
  have c: "?c < ?n" using multitasking_current [OF Suc.prems(1)] .
  have "i < ?n" using c unfolding i by (intro mod_less_divisor) linarith
  moreover have "i \<noteq> ?c"
    using c Suc.prems(3) unfolding Suc.prems(4) by (cases "?c + Suc (Suc d) < ?n") (auto simp: mod_if)
  ultimately have same: "tcontext (tasks (sched k') ! i) = tcontext (tasks (sched k) ! i)" using k'(5) by simp
  have "\<exists>qs' k''. interrupts callee alu kcs rsp0 h k' ps = Inr (qs', k'') \<and> multitasking k'' \<and> qs' \<noteq> [] \<and>
      loaded (tcontext (tasks (sched k') ! i)) (last qs') \<and> current (sched k'') = i"
    using Suc.IH [OF k'(2) qs(2)] Suc.prems(3) k'(4) i by simp
  then show ?case using k'(1) same by (auto simp: qs(1))
qed

text \<open>
  C16: No starvation: with \<open>n\<close> tasks, the task \<open>d\<close> places after the current one (\<open>0 < d < n\<close>) is running
  after exactly \<open>d\<close> timer interrupts, whatever the tasks in between do, and the processor then holds
  the registers saved for it.
\<close>

theorem round_robin_fair:
  assumes "tick_callee callee" "multitasking k" "0 < length cpus" "length cpus < length (tasks (sched k))"
    "i = (current (sched k) + length cpus) mod length (tasks (sched k))"
  shows "\<exists>outs k'. interrupts callee alu kcs rsp0 h k cpus = Inr (outs, k') \<and> multitasking k' \<and>
    current (sched k') = i \<and> tstate (tasks (sched k') ! i) = Running \<and> loaded (tcontext (tasks (sched k) ! i)) (last outs)"
proof -
  obtain d where d: "length cpus = Suc d" using assms(3) by (cases "length cpus") auto
  obtain outs k' where r: "interrupts callee alu kcs rsp0 h k cpus = Inr (outs, k')" "multitasking k'"
      "loaded (tcontext (tasks (sched k) ! i)) (last outs)" "current (sched k') = i"
    using interrupts_reach [OF assms(1,2) d] assms(4,5) d by (metis (no_types, lifting))
  have "tstate (tasks (sched k') ! i) = Running"
    using r(2,4) multitasking_current [OF r(2)] by (auto simp: multitasking_def sched_inv_def)
  with r show ?thesis by blast
qed

text \<open>
  C5: Preemption is invisible to a task: \<open>n\<close> timer interrupts after it was interrupted, with \<open>n\<close> tasks,
  the task runs again and the processor holds exactly the registers, instruction pointer, stack
  pointer, flags and selectors it was interrupted with.
\<close>

theorem preempted_task_resumes:
  assumes "tick_callee callee" "multitasking k" "length cpus = length (tasks (sched k)) - 1"
  shows "\<exists>outs k'. interrupts callee alu kcs rsp0 h k (c # cpus) = Inr (outs, k') \<and>
    current (sched k') = current (sched k) \<and> loaded (context_of c) (last outs)"
proof -
  let ?n = "length (tasks (sched k))" and ?c = "current (sched k)"
  obtain c1 k' where k': "exec alu callee timer_interrupt_entry k (deliver_interrupt kcs rsp0 h c) = Inr (c1, k')"
    "multitasking k'" "current (sched k') = next_task k" "length (tasks (sched k')) = ?n"
    "\<And>i. i < ?n \<Longrightarrow> tcontext (tasks (sched k') ! i) = (if i = ?c then context_of c else tcontext (tasks (sched k) ! i))"
    by (rule interrupt_step [OF assms(1,2), of alu kcs rsp0 h c], rule that)
  have two: "2 \<le> ?n" and c: "?c < ?n" using assms(2) multitasking_current by (auto simp: multitasking_def)
  then obtain d where d: "length cpus = Suc d" "?n = Suc (Suc d)"
    using assms(3) by (intro that [of "?n - 2"]) auto
  have "?c = (current (sched k') + Suc d) mod ?n"
  proof -
    have "?c + 1 + Suc d = ?c + ?n" using d(2) by simp
    then have "((?c + 1) mod ?n + Suc d) mod ?n = (?c + ?n) mod ?n" by (simp only: mod_add_left_eq)
    then show ?thesis unfolding k'(3) by (simp only: mod_add_self2 mod_less [OF c])
  qed
  then obtain outs k'' where "interrupts callee alu kcs rsp0 h k' cpus = Inr (outs, k'')" "outs \<noteq> []"
      "loaded (tcontext (tasks (sched k') ! ?c)) (last outs)" "current (sched k'') = ?c"
    using interrupts_reach [OF assms(1) k'(2) d(1), of ?c alu kcs rsp0 h] d(2) k'(4) by auto
  then show ?thesis using k'(1) k'(5) [OF c] by auto
qed

subsection \<open>The first task\<close>

lemma first_task_run:
  assumes "current (sched k) < length (tasks (sched k))" "stacks_ok (sched k)" "x = tcontext (tasks (sched k) ! current (sched k))"
  shows "\<exists>c1 k'. switch_to_first_task k c = Inr (c1, k') \<and> sched k' = sched k \<and> kio k' = kio k \<and>
    rip c1 = c_rip x \<and> cs c1 = ucast (c_cs x) \<and> rflags c1 = c_rflags x \<and> ss c1 = ucast (c_ss x) \<and>
    ds c1 = ucast (c_ss x) \<and> es c1 = ucast (c_ss x) \<and> fs c1 = ucast (c_ss x) \<and> gs c1 = ucast (c_ss x) \<and>
    gpr c1 = (gpr c)(RSP := c_rsp x)"
proof -
  let ?t = "tasks (sched k) ! current (sched k)"
  have "unat (kernel_stack ?t) + 4096 < 2 ^ 64" using assms(1,2) by (simp add: stacks_ok_def)
  then have "kernel_stack_top ?t = Inr (kernel_stack ?t + 4096)"
    by (simp add: kernel_stack_top_def u64_add_def KERNEL_STACK_SIZE_def)
  moreover have "tasks (sched k) \<noteq> []" using assms(1) by auto
  ultimately show ?thesis
    using assms(1,3)
    by (auto simp: switch_to_first_task_def current_context_def current_kernel_stack_top_def task_at_def Let_def push_val_def
        fun_eq_iff)
qed

text \<open>
  C26: Entering the first task: \<open>switch_to_first_task\<close> continues at the task's entry point, with its stack
  pointer, flags and selectors, and with its data selector in all data segments. The other general
  purpose registers are not taken from the context: they keep the kernel's values.
\<close>

theorem switch_to_first_task_enters:
  assumes "current (sched k) < length (tasks (sched k))" "stacks_ok (sched k)" "x = tcontext (tasks (sched k) ! current (sched k))"
  shows "\<exists>c1 k'. switch_to_first_task k c = Inr (c1, k') \<and> sched k' = sched k \<and> kio k' = kio k \<and>
    rip c1 = c_rip x \<and> cs c1 = ucast (c_cs x) \<and> rflags c1 = c_rflags x \<and> ss c1 = ucast (c_ss x) \<and>
    ds c1 = ucast (c_ss x) \<and> es c1 = ucast (c_ss x) \<and> fs c1 = ucast (c_ss x) \<and> gs c1 = ucast (c_ss x) \<and>
    gpr c1 = (gpr c)(RSP := c_rsp x)"
  using assms by (rule first_task_run)

subsection \<open>A concrete kernel with two tasks\<close>

definition write_context :: "(u64 \<Rightarrow> u64) \<Rightarrow> u64 \<Rightarrow> task_context \<Rightarrow> u64 \<Rightarrow> u64" where
  "write_context m a x b =
     (let i = unat (b - a) div 8 in if b - a = 8 * of_nat i \<and> i < 20 then ctx_words x ! i else m b)"

lemma read_write_context: "read_context (write_context m a x) a = x"
  by (cases x) (simp add: read_context_def write_context_def Let_def ctx_words_def)

definition demo_callee :: "kstate callee" where
  "demo_callee k c =
     and_then (timer_tick k (read_context (mem c) (gpr c RDI))) (\<lambda>(x, k').
     Inr (c\<lparr>mem := write_context (mem c) (gpr c RDI) x\<rparr>, k'))"

lemma demo_tick_callee: "tick_callee demo_callee"
  unfolding tick_callee_def demo_callee_def
  by (auto simp: read_write_context split: sum.splits)

definition demo_task :: "u64 \<Rightarrow> u64 \<Rightarrow> task" where
  "demo_task i entry = \<lparr>tid = i, tstate = Ready, tcontext = new_user 0x20 0x18 entry 0x7FFFFF000, kernel_stack = i * 0x1000\<rparr>"

definition demo_sched :: scheduler where
  "demo_sched = start (add_task (add_task scheduler_new (demo_task 1 0x401000)) (demo_task 2 0x402000))"

definition demo_kstate :: kstate where
  "demo_kstate = \<lparr>sched = demo_sched, tss_rsp0_ptr = 0, tss_rsp0 = 0,
     kio = \<lparr>serial1 = True, serial_out = [], lapic_address = 0xFEE00000, mmio_log = [], port_log = []\<rparr>\<rparr>"

definition demo_cpu :: cpu where
  "demo_cpu = \<lparr>gpr = (\<lambda>r. 7), rip = 0x401234, cs = 0x23, ss = 0x1B, ds = 0x1B, es = 0x1B, fs = 0x1B, gs = 0x1B,
     rflags = 0x202, star = 0, lstar = 0, sfmask = 0x200, mem = (\<lambda>_. 0)\<rparr>"

lemma demo_reachable: "reachable demo_sched"
proof -
  have add: "reachable (add_task s (demo_task i e))" if "reachable s" "i = 1 \<or> i = 2" for s i e
    using that(1) by (rule reachable.Step) (rule sched_step.Add, use that(2) in \<open>auto simp: demo_task_def\<close>)
  have "reachable (add_task (add_task scheduler_new (demo_task 1 0x401000)) (demo_task 2 0x402000))"
    by (rule add, rule add, rule reachable.New) simp_all
  then show ?thesis
    unfolding demo_sched_def by (rule reachable.Step) (rule sched_step.Start, simp add: add_task_def scheduler_new_def)
qed

lemma demo_sched_simps:
  "length (tasks demo_sched) = 2" "current demo_sched = 0" "initialized demo_sched"
  "tasks demo_sched = [(demo_task 1 0x401000)\<lparr>tstate := Running\<rparr>, demo_task 2 0x402000]"
  by (simp_all add: demo_sched_def start_def add_task_def scheduler_new_def)

lemma demo_multitasking: "multitasking demo_kstate"
  using reachable_inv [OF demo_reachable]
  by (simp add: multitasking_def demo_kstate_def demo_sched_simps)

theorem scheduler_one_running_witness:
  "{i. i < length (tasks demo_sched) \<and> tstate (tasks demo_sched ! i) = Running} = {0}"
  using scheduler_one_running [OF demo_reachable] by (simp add: demo_sched_simps)

theorem timer_interrupt_refines_witness:
  "case timer_tick demo_kstate (context_of demo_cpu) of
      Inl e \<Rightarrow> False
    | Inr (x, k') \<Rightarrow> \<exists>c1. exec (\<lambda>_ _ f. f) demo_callee timer_interrupt_entry demo_kstate
        (deliver_interrupt 8 0x9000 0x100 demo_cpu) = Inr (c1, k') \<and> loaded x c1"
  using timer_interrupt_refines [OF demo_tick_callee, where k = demo_kstate and c = demo_cpu]
    tick_switch [OF demo_multitasking, of "context_of demo_cpu"]
  by (auto split: sum.splits)

theorem round_robin_fair_witness:
  "\<exists>outs k'. interrupts demo_callee (\<lambda>_ _ f. f) 8 0x9000 0x100 demo_kstate [demo_cpu] = Inr (outs, k') \<and>
     current (sched k') = 1 \<and> loaded (new_user 0x20 0x18 0x402000 0x7FFFFF000) (last outs)"
  using round_robin_fair [OF demo_tick_callee demo_multitasking, of "[demo_cpu]" 1 "\<lambda>_ _ f. f" 8 "0x9000" "0x100"]
  by (auto simp: demo_kstate_def demo_sched_simps demo_task_def)

theorem preempted_task_resumes_witness:
  "\<exists>outs k'. interrupts demo_callee (\<lambda>_ _ f. f) 8 0x9000 0x100 demo_kstate [demo_cpu, demo_cpu\<lparr>rip := 0x402040\<rparr>] = Inr (outs, k') \<and>
     rip (last outs) = 0x401234 \<and> gpr (last outs) R12 = 7"
  using preempted_task_resumes [OF demo_tick_callee demo_multitasking, of "[demo_cpu\<lparr>rip := 0x402040\<rparr>]" "\<lambda>_ _ f. f" 8 "0x9000" "0x100" demo_cpu]
  by (auto simp: demo_kstate_def demo_sched_simps loaded_def context_of_def demo_cpu_def)

theorem switch_to_first_task_enters_witness:
  "\<exists>c1 k'. switch_to_first_task demo_kstate (demo_cpu\<lparr>cs := 8, ss := 16\<rparr>) = Inr (c1, k') \<and> rip c1 = 0x401000 \<and> cs c1 = 0x23 \<and>
     ss c1 = 0x1B \<and> gpr c1 RSP = 0x7FFFFF000 \<and> gpr c1 RAX = 7"
  using switch_to_first_task_enters [of demo_kstate "tcontext (demo_task 1 0x401000)" "demo_cpu\<lparr>cs := 8, ss := 16\<rparr>"]
    reachable_inv [OF demo_reachable]
  by (auto simp: demo_kstate_def demo_sched_simps demo_task_def new_user_def demo_cpu_def)

end
