(* ===== verification/Utf8.thy ===== *)
theory Utf8
  imports Prelude
begin

text \<open>
  Lossy UTF-8 decoding, the standard library routine behind \<^verbatim>\<open>String::from_utf8_lossy\<close>: the input is cut
  into chunks of valid text followed by a maximal invalid sequence, and every invalid sequence is
  replaced by U+FFFD. The reference is the encoding of scalar values.
\<close>

definition in_range :: "u8 \<Rightarrow> u8 \<Rightarrow> u8 \<Rightarrow> bool" where
  "in_range lo hi b \<longleftrightarrow> lo \<le> b \<and> b \<le> hi"

text \<open>Bytes past the end read as 0.\<close>

definition safe_get :: "u8 list \<Rightarrow> nat \<Rightarrow> u8" where
  "safe_get bs i = (if i < length bs then bs ! i else 0)"

definition utf8_char_width :: "u8 \<Rightarrow> nat" where
  "utf8_char_width b =
     (if b < 0x80 then 1 else if in_range 0xC2 0xDF b then 2 else if in_range 0xE0 0xEF b then 3
      else if in_range 0xF0 0xF4 b then 4 else 0)"

definition second_ok3 :: "u8 \<Rightarrow> u8 \<Rightarrow> bool" where
  "second_ok3 b b1 =
     (if b = 0xE0 then in_range 0xA0 0xBF b1 else if b = 0xED then in_range 0x80 0x9F b1 else in_range 0x80 0xBF b1)"

definition second_ok4 :: "u8 \<Rightarrow> u8 \<Rightarrow> bool" where
  "second_ok4 b b1 =
     (if b = 0xF0 then in_range 0x90 0xBF b1 else if b = 0xF4 then in_range 0x80 0x8F b1 else in_range 0x80 0xBF b1)"

definition cont :: "u8 \<Rightarrow> bool" where
  "cont b = in_range 0x80 0xBF b"

text \<open>Whether a character starts here, and how many bytes it, or the invalid sequence, takes.\<close>

definition utf8_char :: "u8 list \<Rightarrow> bool \<times> nat" where
  "utf8_char bs =
     (let b = safe_get bs 0; b1 = safe_get bs 1; b2 = safe_get bs 2; b3 = safe_get bs 3; w = utf8_char_width b
      in if w = 1 then (True, 1)
         else if w = 2 then (if cont b1 then (True, 2) else (False, 1))
         else if w = 3 then
           (if \<not> second_ok3 b b1 then (False, 1) else if \<not> cont b2 then (False, 2) else (True, 3))
         else if w = 4 then
           (if \<not> second_ok4 b b1 then (False, 1) else if \<not> cont b2 then (False, 2)
            else if \<not> cont b3 then (False, 3) else (True, 4))
         else (False, 1))"

lemma utf8_char_pos: "0 < snd (utf8_char bs)"
  by (simp add: utf8_char_def Let_def)

function split_valid :: "u8 list \<Rightarrow> u8 list \<times> u8 list" where
  "split_valid bs =
     (if bs \<noteq> [] \<and> fst (utf8_char bs)
      then let n = snd (utf8_char bs); (v, r) = split_valid (drop n bs) in (take n bs @ v, r)
      else ([], bs))"
  by pat_completeness auto
termination
  by (relation "measure length") (auto simp: utf8_char_pos)

declare split_valid.simps [simp del]

lemma split_valid_append: "fst (split_valid bs) @ snd (split_valid bs) = bs"
proof (induction bs rule: split_valid.induct)
  case (1 bs)
  then show ?case
    by (subst (1 2) split_valid.simps) (auto simp: Let_def split_def)
qed

lemma split_valid_rest: "snd (split_valid bs) = [] \<or> \<not> fst (utf8_char (snd (split_valid bs)))"
proof (induction bs rule: split_valid.induct)
  case (1 bs)
  then show ?case
    by (subst (1 2) split_valid.simps) (auto simp: Let_def split_def)
qed

lemma split_valid_length: "length (snd (split_valid bs)) \<le> length bs"
  using arg_cong [OF split_valid_append [of bs], of length] by simp

function utf8_chunks :: "u8 list \<Rightarrow> (u8 list \<times> u8 list) list" where
  "utf8_chunks bs =
     (if bs = [] then []
      else let v = fst (split_valid bs); rest = snd (split_valid bs);
               n = (if rest = [] then 0 else snd (utf8_char rest))
           in (v, take n rest) # utf8_chunks (drop n rest))"
  by pat_completeness auto
termination
proof (relation "measure length", simp, goal_cases)
  case (1 bs)
  have "length (drop (snd (utf8_char (snd (split_valid bs)))) (snd (split_valid bs))) < length bs" if "snd (split_valid bs) \<noteq> []"
    using length_greater_0_conv [THEN iffD2, OF that] utf8_char_pos [of "snd (split_valid bs)"] split_valid_length [of bs]
    by (simp only: length_drop)
  with 1 show ?case by auto
qed

declare utf8_chunks.simps [simp del]

definition REPLACEMENT :: "u8 list" where "REPLACEMENT = [0xEF, 0xBF, 0xBD]"

definition lossy_text :: "u8 list \<Rightarrow> u8 list" where
  "lossy_text bs = concat (map (\<lambda>(v, i). v @ (if i = [] then [] else REPLACEMENT)) (utf8_chunks bs))"

definition valid_utf8 :: "u8 list \<Rightarrow> bool" where
  "valid_utf8 bs \<longleftrightarrow> snd (split_valid bs) = []"

lemma chunks_valid: "valid_utf8 bs \<Longrightarrow> bs \<noteq> [] \<Longrightarrow> utf8_chunks bs = [(bs, [])]"
  using split_valid_append [of bs]
  by (subst utf8_chunks.simps) (simp add: valid_utf8_def utf8_chunks.simps [of "[]"])

lemma chunks_invalid:
  assumes "\<not> valid_utf8 bs"
  obtains v i cs where "utf8_chunks bs = (v, i) # cs" "i \<noteq> []"
proof -
  let ?r = "snd (split_valid bs)"
  have r: "?r \<noteq> []" using assms by (simp add: valid_utf8_def)
  then have "bs \<noteq> []" by (auto simp: split_valid.simps)
  with r that utf8_char_pos [of ?r] show thesis
    by (subst (asm) utf8_chunks.simps) (auto simp: Let_def)
qed

lemma lossy_valid: "valid_utf8 bs \<Longrightarrow> lossy_text bs = bs"
  by (cases "bs = []") (auto simp: lossy_text_def chunks_valid utf8_chunks.simps [of "[]"])

subsection \<open>Encodings of scalar values are valid\<close>

definition scalar :: "nat \<Rightarrow> bool" where
  "scalar c \<longleftrightarrow> c < 0xD800 \<or> (0xDFFF < c \<and> c < 0x110000)"

definition utf8_encode :: "nat \<Rightarrow> u8 list" where
  "utf8_encode c =
     (if c < 0x80 then [of_nat c]
      else if c < 0x800 then [of_nat (0xC0 + c div 64), of_nat (0x80 + c mod 64)]
      else if c < 0x10000 then [of_nat (0xE0 + c div 4096), of_nat (0x80 + c div 64 mod 64), of_nat (0x80 + c mod 64)]
      else [of_nat (0xF0 + c div 262144), of_nat (0x80 + c div 4096 mod 64), of_nat (0x80 + c div 64 mod 64),
            of_nat (0x80 + c mod 64)])"

lemma byte_le: "n < 256 \<Longrightarrow> (of_nat n :: u8) \<le> numeral k \<longleftrightarrow> n \<le> unat (numeral k :: u8)"
  by (simp add: word_le_nat_alt unat_of_nat)

lemma byte_ge: "n < 256 \<Longrightarrow> numeral k \<le> (of_nat n :: u8) \<longleftrightarrow> unat (numeral k :: u8) \<le> n"
  by (simp add: word_le_nat_alt unat_of_nat)

lemma byte_less: "n < 256 \<Longrightarrow> (of_nat n :: u8) < numeral k \<longleftrightarrow> n < unat (numeral k :: u8)"
  by (simp add: word_less_nat_alt unat_of_nat)

lemma byte_eq: "n < 256 \<Longrightarrow> (of_nat n :: u8) = numeral k \<longleftrightarrow> n = unat (numeral k :: u8)"
  by (simp add: word_unat_eq_iff unat_of_nat)

lemmas byte_cmp = byte_le byte_ge byte_less byte_eq

lemma safe_get_simps:
  "safe_get (a # r) 0 = a" "safe_get (a # b # r) 1 = b" "safe_get (a # b # d # r) 2 = d" "safe_get (a # b # d # e # r) 3 = e"
  by (simp_all add: safe_get_def numeral_2_eq_2 numeral_3_eq_3)

lemma char_width_simps:
  "in_range 0xC2 0xDF a \<Longrightarrow> utf8_char_width a = 2" "in_range 0xE0 0xEF a \<Longrightarrow> utf8_char_width a = 3"
  "in_range 0xF0 0xF4 a \<Longrightarrow> utf8_char_width a = 4"
  by (auto simp: utf8_char_width_def in_range_def word_le_nat_alt word_less_nat_alt)

lemma utf8_char2: "in_range 0xC2 0xDF a \<Longrightarrow> cont b \<Longrightarrow> utf8_char (a # b # rest) = (True, 2)"
  unfolding utf8_char_def Let_def safe_get_simps by (simp add: char_width_simps)

lemma utf8_char3: "in_range 0xE0 0xEF a \<Longrightarrow> second_ok3 a b \<Longrightarrow> cont d \<Longrightarrow> utf8_char (a # b # d # rest) = (True, 3)"
  unfolding utf8_char_def Let_def safe_get_simps by (simp add: char_width_simps)

lemma utf8_char4:
  "in_range 0xF0 0xF4 a \<Longrightarrow> second_ok4 a b \<Longrightarrow> cont d \<Longrightarrow> cont e \<Longrightarrow> utf8_char (a # b # d # e # rest) = (True, 4)"
  unfolding utf8_char_def Let_def safe_get_simps by (simp add: char_width_simps)

lemma cont_byte: "cont (of_nat (0x80 + n mod 64))"
proof -
  have "n mod 64 < 64" by simp
  then have "0x80 + n mod 64 < 256" "0x80 \<le> 0x80 + n mod 64" "0x80 + n mod 64 \<le> 0xBF" by linarith+
  then show ?thesis unfolding cont_def in_range_def by (simp only: byte_cmp) simp
qed

lemma char_encode2:
  assumes "0x80 \<le> c" "c < 0x800"
  shows "utf8_char (utf8_encode c @ rest) = (True, 2)"
proof -
  have "0xC2 \<le> 0xC0 + c div 64" "0xC0 + c div 64 \<le> 0xDF" using assms by linarith+
  then have "in_range 0xC2 0xDF (of_nat (0xC0 + c div 64))"
    unfolding in_range_def by (subst byte_ge, simp, subst byte_le) simp_all
  then show ?thesis using assms utf8_char2 cont_byte by (simp add: utf8_encode_def del: of_nat_add)
qed

lemma char_encode3:
  assumes "0x800 \<le> c" "c < 0x10000" "scalar c"
  shows "utf8_char (utf8_encode c @ rest) = (True, 3)"
proof -
  let ?a = "0xE0 + c div 4096" and ?b = "0x80 + c div 64 mod 64"
  have a: "0xE0 \<le> ?a" "?a \<le> 0xEF" "?a < 256" using assms by linarith+
  have b: "0x80 \<le> ?b" "?b \<le> 0xBF" "?b < 256" using mod_less_divisor [of 64 "c div 64"] by linarith+
  have q: "c div 4096 = c div 64 div 64" by (simp add: div_mult2_eq [symmetric])
  have e0: "0xA0 \<le> ?b" if "?a = 0xE0"
    using that assms(1) div_le_mono [of 2048 c 64] mult_div_mod_eq [of 64 "c div 64"] unfolding q by simp
  have ed: "?b \<le> 0x9F" if "?a = 0xED"
  proof -
    have "c div 4096 = 13" using that by simp
    then have "c \<le> 55295" using assms(3) unfolding scalar_def by linarith
    then have "c div 64 \<le> 863" using div_le_mono [of c 55295 64] by simp
    moreover have "c div 64 div 64 = 13" using that q by simp
    ultimately show ?thesis using mult_div_mod_eq [of 64 "c div 64"] by linarith
  qed
  have "second_ok3 (of_nat ?a) (of_nat ?b)"
    unfolding second_ok3_def in_range_def by (simp only: byte_cmp a(3) b(3)) (use e0 ed b in auto)
  moreover have "in_range 0xE0 0xEF (of_nat ?a)"
    unfolding in_range_def by (simp only: byte_cmp a(3)) (use a in auto)
  ultimately show ?thesis using assms(1,2) utf8_char3 cont_byte by (simp add: utf8_encode_def del: of_nat_add)
qed

lemma char_encode4:
  assumes "0x10000 \<le> c" "scalar c"
  shows "utf8_char (utf8_encode c @ rest) = (True, 4)"
proof -
  let ?a = "0xF0 + c div 262144" and ?b = "0x80 + c div 4096 mod 64"
  have c: "c < 0x110000" using assms by (auto simp: scalar_def)
  have a: "0xF0 \<le> ?a" "?a \<le> 0xF4" "?a < 256" using c by linarith+
  have b: "0x80 \<le> ?b" "?b \<le> 0xBF" "?b < 256" using mod_less_divisor [of 64 "c div 4096"] by linarith+
  have q: "c div 262144 = c div 4096 div 64" by (simp add: div_mult2_eq [symmetric])
  have f0: "0x90 \<le> ?b" if "?a = 0xF0"
    using that assms(1) div_le_mono [of 65536 c 4096] mult_div_mod_eq [of 64 "c div 4096"] unfolding q by simp
  have f4: "?b \<le> 0x8F" if "?a = 0xF4"
  proof -
    have "c div 4096 \<le> 271" using c div_le_mono [of c 1114111 4096] by simp
    moreover have "c div 4096 div 64 = 4" using that q by simp
    ultimately show ?thesis using mult_div_mod_eq [of 64 "c div 4096"] by linarith
  qed
  have "second_ok4 (of_nat ?a) (of_nat ?b)"
    unfolding second_ok4_def in_range_def by (simp only: byte_cmp a(3) b(3)) (use f0 f4 b in auto)
  moreover have "in_range 0xF0 0xF4 (of_nat ?a)"
    unfolding in_range_def by (simp only: byte_cmp a(3)) (use a in auto)
  ultimately show ?thesis using assms(1) utf8_char4 cont_byte by (simp add: utf8_encode_def del: of_nat_add)
qed

lemma char_encode: "scalar c \<Longrightarrow> utf8_char (utf8_encode c @ rest) = (True, length (utf8_encode c))"
proof (cases "c < 0x80")
  case True
  then show ?thesis
    by (simp add: utf8_encode_def utf8_char_def utf8_char_width_def safe_get_def Let_def byte_cmp)
next
  case False
  assume "scalar c"
  with False char_encode2 [of c rest] char_encode3 [of c rest] char_encode4 [of c rest]
  show ?thesis by (cases "c < 0x800"; cases "c < 0x10000") (simp_all add: utf8_encode_def not_less)
qed

lemma valid_utf8_encode: "\<forall>c\<in>set cps. scalar c \<Longrightarrow> valid_utf8 (concat (map utf8_encode cps))"
proof (induction cps)
  case Nil
  then show ?case by (simp add: valid_utf8_def split_valid.simps)
next
  case (Cons c cps)
  let ?e = "utf8_encode c" and ?r = "concat (map utf8_encode cps)"
  have "utf8_char (?e @ ?r) = (True, length ?e)" using Cons.prems char_encode by simp
  moreover have "?e \<noteq> []" by (simp add: utf8_encode_def)
  moreover have "snd (split_valid ?r) = []" using Cons by (simp add: valid_utf8_def)
  ultimately show ?case
    unfolding valid_utf8_def by (subst split_valid.simps) (simp add: split_def)
qed

text \<open>ASCII text is valid.\<close>

lemma valid_ascii: "\<forall>b\<in>set bs. b < 0x80 \<Longrightarrow> valid_utf8 bs"
proof (induction bs)
  case Nil
  then show ?case by (simp add: valid_utf8_def split_valid.simps)
next
  case (Cons b bs)
  then have "utf8_char (b # bs) = (True, 1)"
    by (simp add: utf8_char_def utf8_char_width_def safe_get_def Let_def)
  with Cons show ?case
    unfolding valid_utf8_def by (subst split_valid.simps) (simp add: split_def)
qed

end
