(* ===== verification/Syscall.thy ===== *)
theory Syscall
  imports Heap_Correct Utf8 X86 Io
begin

text \<open>
  System calls, \<^verbatim>\<open>kernel/src/tasks/syscall.rs\<close>: reading user memory, the dispatcher \<open>syscall_entry\<close>, the
  assembly \<open>syscall_handler\<close> around it, and the set-up of the control registers. Byte vectors
  and strings allocate through the kernel heap, as \<^verbatim>\<open>alloc::vec::Vec\<close> does. User memory is the argument
  \<open>umem\<close>; an access to an unmapped address is a page fault, whose handler stops the kernel.
\<close>

definition SYSCALL_STACK_SIZE :: u64 where "SYSCALL_STACK_SIZE = 4096 * 4"

definition USER_SPACE_LIMIT :: u64 where "USER_SPACE_LIMIT = 0x0000800000000000"

record sys =
  sheap :: heap
  sio :: io

subsection \<open>Byte vectors on the kernel heap\<close>

record rvec =
  vbuf :: u64
  vcap :: u64
  vbytes :: "u8 list"

definition byte_layout :: "u64 \<Rightarrow> layout" where
  "byte_layout n = \<lparr>lsize = n, lalign = 1\<rparr>"

definition alloc_bytes :: "heap \<Rightarrow> u64 \<Rightarrow> (u64 \<times> heap) outcome" where
  "alloc_bytes h n =
     and_then (global_alloc h (byte_layout n)) (\<lambda>(p, h).
     if p = 0 then Inl (PanicMsg ''memory allocation failed'') else Inr (p, h))"

definition vec_with_capacity :: "heap \<Rightarrow> u64 \<Rightarrow> (rvec \<times> heap) outcome" where
  "vec_with_capacity h n =
     (if n = 0 then Inr (\<lparr>vbuf = 1, vcap = 0, vbytes = []\<rparr>, h)
      else if n > 0x7FFFFFFFFFFFFFFF then Inl (PanicMsg ''capacity overflow'')
      else and_then (alloc_bytes h n) (\<lambda>(p, h). Inr (\<lparr>vbuf = p, vcap = n, vbytes = []\<rparr>, h)))"

definition vec_drop :: "heap \<Rightarrow> rvec \<Rightarrow> heap outcome" where
  "vec_drop h v = (if vcap v = 0 then Inr h else global_dealloc h (vbuf v) (byte_layout (vcap v)))"

text \<open>
  Growth doubles the capacity; \<^verbatim>\<open>realloc\<close> is the default of \<^verbatim>\<open>GlobalAlloc\<close>: allocate, copy, release.
\<close>

definition vec_reserve :: "heap \<Rightarrow> rvec \<Rightarrow> nat \<Rightarrow> (rvec \<times> heap) outcome" where
  "vec_reserve h v additional =
     (let n = length (vbytes v)
      in if unat (vcap v) - n \<ge> additional then Inr (v, h)
         else let newcap = max 8 (max (2 * unat (vcap v)) (n + additional))
              in if newcap > 0x7FFFFFFFFFFFFFFF then Inl (PanicMsg ''capacity overflow'')
                 else and_then (alloc_bytes h (of_nat newcap)) (\<lambda>(p, h).
                      and_then (vec_drop h v) (\<lambda>h.
                      Inr (v\<lparr>vbuf := p, vcap := of_nat newcap\<rparr>, h))))"

definition vec_extend :: "heap \<Rightarrow> rvec \<Rightarrow> u8 list \<Rightarrow> (rvec \<times> heap) outcome" where
  "vec_extend h v bs =
     and_then (vec_reserve h v (length bs)) (\<lambda>(v, h). Inr (v\<lparr>vbytes := vbytes v @ bs\<rparr>, h))"

text \<open>\<open>String::from_utf8_lossy\<close>: borrowed if the bytes are valid, otherwise a new string.\<close>

fun push_chunks :: "heap \<Rightarrow> rvec \<Rightarrow> (u8 list \<times> u8 list) list \<Rightarrow> (rvec \<times> heap) outcome" where
  "push_chunks h v [] = Inr (v, h)"
| "push_chunks h v ((t, i) # chs) =
     and_then (vec_extend h v t) (\<lambda>(v, h).
     and_then (if i = [] then Inr (v, h) else vec_extend h v REPLACEMENT) (\<lambda>(v, h).
     push_chunks h v chs))"

definition from_utf8_lossy :: "heap \<Rightarrow> u8 list \<Rightarrow> (u8 list \<times> rvec option \<times> heap) outcome" where
  "from_utf8_lossy h bs =
     (case utf8_chunks bs of
        [] \<Rightarrow> Inr ([], None, h)
      | (valid, invalid) # chs \<Rightarrow>
          if invalid = [] then Inr (valid, None, h)
          else and_then (vec_with_capacity h (of_nat (length bs))) (\<lambda>(v, h).
               and_then (push_chunks h v ((valid, invalid) # chs)) (\<lambda>(v, h).
               Inr (vbytes v, Some v, h))))"

subsection \<open>Reading user memory\<close>

definition read_byte :: "(u64 \<Rightarrow> u8 option) \<Rightarrow> u64 \<Rightarrow> u8 outcome" where
  "read_byte umem a = (case umem a of Some b \<Rightarrow> Inr b | None \<Rightarrow> Inl (PanicMsg ''EXCEPTION: PAGE FAULT''))"

fun read_loop :: "(u64 \<Rightarrow> u8 option) \<Rightarrow> heap \<Rightarrow> rvec \<Rightarrow> u64 \<Rightarrow> nat \<Rightarrow> nat \<Rightarrow> (rvec \<times> heap) outcome" where
  "read_loop umem h v ptr i 0 = Inr (v, h)"
| "read_loop umem h v ptr i (Suc n) =
     and_then (u64_add ptr (of_nat i)) (\<lambda>addr.
     and_then (read_byte umem addr) (\<lambda>byte.
     and_then (vec_extend h v [byte]) (\<lambda>(v, h).
     read_loop umem h v ptr (Suc i) n)))"

definition read_user_bytes :: "(u64 \<Rightarrow> u8 option) \<Rightarrow> heap \<Rightarrow> u64 \<Rightarrow> u64 \<Rightarrow> (rvec option \<times> heap) outcome" where
  "read_user_bytes umem h ptr len =
     (if ptr \<ge> USER_SPACE_LIMIT \<or> ptr = 0 then Inr (None, h)
      else case u64_add ptr len of
             Inl _ \<Rightarrow> Inr (None, h)
           | Inr end_addr \<Rightarrow>
               if end_addr > USER_SPACE_LIMIT then Inr (None, h)
               else and_then (vec_with_capacity h len) (\<lambda>(v, h).
                    and_then (read_loop umem h v ptr 0 (unat len)) (\<lambda>(v, h). Inr (Some v, h))))"

subsection \<open>The dispatcher\<close>

definition text_of :: "u8 list \<Rightarrow> string" where
  "text_of bs = map (\<lambda>b. char_of (unat b)) bs"

text \<open>Printing a message that was read, after which the vector and the string are dropped.\<close>

definition print_user :: "rvec \<Rightarrow> heap \<Rightarrow> io \<Rightarrow> sys outcome" where
  "print_user v h io =
     and_then (from_utf8_lossy h (vbytes v)) (\<lambda>(msg, owned, h).
     and_then (serial_println (''[user] '' @ text_of msg) io) (\<lambda>io.
     and_then (case owned of None \<Rightarrow> Inr h | Some s \<Rightarrow> vec_drop h s) (\<lambda>h.
     and_then (vec_drop h v) (\<lambda>h.
     Inr \<lparr>sheap = h, sio = io\<rparr>))))"

definition U64_MAX :: u64 where "U64_MAX = - 1"

definition syscall_entry :: "(u64 \<Rightarrow> u8 option) \<Rightarrow> sys \<Rightarrow> u64 \<Rightarrow> u64 \<Rightarrow> u64 \<Rightarrow> u64 \<Rightarrow> u64 \<Rightarrow> u64 \<Rightarrow> (u64 \<times> sys) outcome" where
  "syscall_entry umem s num arg1 arg2 arg3 arg4 arg5 =
     (if num = 1 then
        if arg1 \<noteq> 1 then Inr (1, s)
        else and_then (read_user_bytes umem (sheap s) arg2 arg3) (\<lambda>(r, h).
          case r of
            Some v \<Rightarrow> and_then (print_user v h (sio s)) (\<lambda>s. Inr (0, s))
          | None \<Rightarrow>
              and_then (serial_println (''[kernel] write: invalid user pointer 0x'' @ hex arg2 @ '' or length '' @ dec arg3)
                (sio s)) (\<lambda>io. Inr (14, \<lparr>sheap = h, sio = io\<rparr>)))
      else if num = 2 then
        if arg1 \<noteq> 1 then Inr (U64_MAX, s)
        else and_then (read_user_bytes umem (sheap s) arg2 arg3) (\<lambda>(r, h).
          case r of
            Some v \<Rightarrow> and_then (print_user v h (sio s)) (\<lambda>s. Inr (arg3, s))
          | None \<Rightarrow>
              and_then (serial_println (''[kernel] write_bytes: invalid user pointer 0x'' @ hex arg2 @ '' or length '' @ dec arg3)
                (sio s)) (\<lambda>io. Inr (U64_MAX, \<lparr>sheap = h, sio = io\<rparr>)))
      else and_then (serial_println (''[kernel] Unknown syscall: num='' @ dec num) (sio s)) (\<lambda>io.
           Inr (U64_MAX, s\<lparr>sio := io\<rparr>)))"

subsection \<open>The entry point in assembly\<close>

definition syscall_handler :: "u64 \<Rightarrow> u64 \<Rightarrow> u64 \<Rightarrow> instr list" where
  "syscall_handler user_rsp_temp kernel_stack entry =
     [StoreSym user_rsp_temp RSP,
      LeaSym RSP (kernel_stack + SYSCALL_STACK_SIZE),
      Push RCX, Push R11,
      LoadSym R11 user_rsp_temp, Push R11,
      Push RAX, Push RDI, Push RSI, Push RDX, Push R10, Push R8, Push R9,
      Sti,
      Load RDI RSP 48, Load RSI RSP 40, Load RDX RSP 32, Load RCX RSP 24, Load R8 RSP 16, Load R9 RSP 8,
      LeaSym RAX entry, Call,
      Store RSP 48 RAX,
      Cli,
      Load R9 RSP 0, Load R8 RSP 8, Load R10 RSP 16, Load RDX RSP 24, Load RSI RSP 32, Load RDI RSP 40,
      AddImm RSP 48,
      Pop RAX,
      Load R11 RSP 8, Load RCX RSP 16, Load RSP RSP 0,
      Sysretq]"

subsection \<open>Processor set-up\<close>

record ctl =
  cr0 :: u64
  cr4 :: u64
  efer :: u64
  ctl_lstar :: u64
  ctl_sfmask :: u64
  ctl_star :: u64

text \<open>
  What \<open>cpuid\<close> reports: the feature information, if present, with its PGE and MCE bits, and the extended
  feature information, if present, with FSGSBASE.
\<close>

record cpu_features =
  feature_info :: "(bool \<times> bool) option"
  extended_feature_info :: "bool option"

definition update_cr0 :: "u64 \<Rightarrow> u64" where
  "update_cr0 v = (v OR push_bit 18 1 OR push_bit 5 1 OR push_bit 1 1) AND NOT (push_bit 30 1 OR push_bit 29 1)"

definition update_cr4 :: "cpu_features \<Rightarrow> u64 \<Rightarrow> u64" where
  "update_cr4 f v =
     (let v = v AND NOT (push_bit 8 1 OR push_bit 2 1);
          has_pge = (case feature_info f of Some (pge, _) \<Rightarrow> pge | None \<Rightarrow> False);
          v = (if has_pge then v OR push_bit 7 1 else v);
          has_fsgsbase = (case extended_feature_info f of Some b \<Rightarrow> b | None \<Rightarrow> False);
          v = (if has_fsgsbase then v OR push_bit 16 1 else v);
          has_mce = (case feature_info f of Some (_, mce) \<Rightarrow> mce | None \<Rightarrow> False)
      in if has_mce then v OR push_bit 6 1 else v)"

definition init_syscalls :: "(u64 \<Rightarrow> u64 outcome) \<Rightarrow> u16 \<Rightarrow> u16 \<Rightarrow> u64 \<Rightarrow> cpu_features \<Rightarrow> ctl \<Rightarrow> io \<Rightarrow> (ctl \<times> io) outcome" where
  "init_syscalls virt_new code user_data handler f k io =
     (let k = k\<lparr>cr0 := update_cr0 (cr0 k), cr4 := update_cr4 f (cr4 k), efer := efer k OR 1\<rparr>
      in and_then (virt_new handler) (\<lambda>entry.
         let k = k\<lparr>ctl_lstar := entry, ctl_sfmask := IF_FLAG\<rparr>;
             syscall_cs = ucast code
         in and_then (u64_sub (ucast (user_data AND NOT 3)) 8) (\<lambda>sysret_base.
            and_then (serial_println ''Setting up STAR register:'' io) (\<lambda>io.
            and_then (serial_println (''  Kernel CS (SYSCALL): 0x'' @ hex syscall_cs) io) (\<lambda>io.
            and_then (serial_println (''  SYSRET base: 0x'' @ hex sysret_base) io) (\<lambda>io.
            and_then (u64_add sysret_base 16) (\<lambda>a.
            and_then (serial_println (''  SYSRET CS will be: 0x'' @ hex a) io) (\<lambda>io.
            and_then (u64_add sysret_base 8) (\<lambda>b.
            and_then (serial_println (''  SYSRET SS will be: 0x'' @ hex b) io) (\<lambda>io.
            let star_value = push_bit 48 sysret_base OR push_bit 32 syscall_cs
            in and_then (serial_println (''  STAR value: 0x'' @ hex star_value) io) (\<lambda>io.
               let k = k\<lparr>ctl_star := star_value\<rparr>
               in and_then (serial_println (''Syscall initialized, handler at 0x'' @ hex handler) io) (\<lambda>io.
                  Inr (k, io)))))))))))))"

end
