(* ===== verification/Heap_Use.thy ===== *)
theory Heap_Use
  imports Heap_Correct
begin

text \<open>
  The heap of \<^verbatim>\<open>kernel/src/mm/allocator.rs\<close> as its users see it: \<open>heap_is h P L\<close> says that the heap has the pages \<open>P\<close> and the blocks in use
  \<open>L\<close>, from which its free pages follow. The steps of a user, and the property that no page is ever lost.
\<close>

subsection \<open>No page is lost\<close>

text \<open>Every slab has an object in use, so the pages in use are those of the blocks in use.\<close>

lemma slab_page_live:
  assumes "cache_rel c m v" "pg \<in> pages v"
  obtains a where "a \<in> live (obj_size c) v" "page_of a = pg"
proof -
  have sz: "size_ok (obj_size c)" and ok: "page_ok pg" "slab_ok (obj_size c) m (frees v pg) pg"
    using assms by (simp_all add: cache_rel_def)
  then have f: "distinct (frees v pg)" "set (frees v pg) \<subseteq> slots (obj_size c) pg" "length (frees v pg) < slab_capacity (obj_size c)"
    by (auto simp: slab_ok_def)
  have "card (slots (obj_size c) pg) = slab_capacity (obj_size c)"
    unfolding slots_def card_image [OF slot_inj [OF sz ok(1)]] by simp
  then have "set (frees v pg) \<noteq> slots (obj_size c) pg" using distinct_card [OF f(1)] f(3) by auto
  then obtain a where a: "a \<in> slots (obj_size c) pg" "a \<notin> set (frees v pg)" using f(2) by blast
  show thesis by (rule that [of a]) (use a assms(2) page_of_slots [OF sz ok(1) a(1)] in \<open>auto simp: live_def\<close>)
qed

lemma live_page:
  assumes "cache_rel c m v" "a \<in> live (obj_size c) v"
  shows "page_of a \<in> pages v"
  using assms page_of_slots by (fastforce simp: live_def cache_rel_def)

lemma used_pages:
  assumes rel: "heap_rel h A vs G"
  shows "page_of ` fst ` live_blocks vs G = G \<union> (\<Union>i<8. pages (vs i))"
proof -
  have c: "cache_rel (caches h ! i) (slab_memory h) (vs i)" "obj_size (caches h ! i) = class_size i" if "i < 8" for i
    using rel that by (simp_all add: heap_rel_def)
  have "page_of ` live (class_size i) (vs i) = pages (vs i)" if "i < 8" for i
  proof
    show "page_of ` live (class_size i) (vs i) \<subseteq> pages (vs i)"
      using live_page [OF c(1) [OF that]] c(2) [OF that] by auto
    show "pages (vs i) \<subseteq> page_of ` live (class_size i) (vs i)"
      using slab_page_live [OF c(1) [OF that]] c(2) [OF that] by (metis image_eqI subsetI)
  qed
  moreover have "page_of g = g" if "g \<in> G" for g
  proof -
    obtain p where p: "provides p A" "G \<subseteq> managed p" using rel by (auto simp: heap_rel_def)
    show ?thesis using gpa.managed_ok [OF p(1)] p(2) that page_of_page by blast
  qed
  then have "page_of ` G = G" by force
  moreover have "live_blocks vs G = (\<Union>i<8. (\<lambda>a. (a, class_size i)) ` live (class_size i) (vs i)) \<union> (\<lambda>g. (g, 4096)) ` G"
    unfolding live_blocks_def by blast
  then have "fst ` live_blocks vs G = (\<Union>i<8. live (class_size i) (vs i)) \<union> G"
    by (simp add: image_Un image_UN image_comp)
  ultimately show ?thesis by (simp add: image_Un image_UN Un_commute)
qed

lemma free_pages_eq:
  assumes "heap_rel h A vs G"
  shows "A = heap_pages A vs G - page_of ` fst ` live_blocks vs G"
  unfolding used_pages [OF assms] heap_pages_def using assms by (auto simp: heap_rel_def)

text \<open>
  The abstract state of a heap for the code that uses it: its pages \<open>P\<close> and its blocks in use \<open>L\<close>. The free pages follow
  from them.
\<close>

definition heap_is :: "heap \<Rightarrow> u64 set \<Rightarrow> (u64 \<times> u64) set \<Rightarrow> bool" where
  "heap_is h P L \<longleftrightarrow> (\<exists>A vs G. heap_rel h A vs G \<and> heap_pages A vs G = P \<and> live_blocks vs G = L)"

definition room :: "u64 set \<Rightarrow> (u64 \<times> u64) set \<Rightarrow> u64 set" where
  "room P L = P - page_of ` fst ` L"

lemma heap_isE:
  assumes "heap_is h P L"
  obtains vs G where "heap_rel h (room P L) vs G" "heap_pages (room P L) vs G = P" "live_blocks vs G = L"
proof -
  obtain A vs G where r: "heap_rel h A vs G" "heap_pages A vs G = P" "live_blocks vs G = L" using assms by (auto simp: heap_is_def)
  have A: "A = room P L" using free_pages_eq [OF r(1)] unfolding r(2,3) room_def .
  show thesis by (rule that [OF r [unfolded A]])
qed

lemma heap_is_rel: "heap_rel h A vs G \<Longrightarrow> heap_is h (heap_pages A vs G) (live_blocks vs G)"
  by (auto simp: heap_is_def)

lemma heap_is_new:
  assumes "heap_rel h A (\<lambda>_. empty_view) {}"
  shows "heap_is h A {}"
proof -
  have "heap_pages A (\<lambda>_. empty_view) {} = A" by (simp add: heap_pages_def empty_view_def)
  then show ?thesis using heap_is_rel [OF assms] unfolding live_blocks_empty by simp
qed

lemma heap_is_alloc:
  assumes "heap_is h P L" "room P L \<noteq> {}" "lsize l \<le> 4096"
  obtains a h' where "global_alloc h l = Inr (a, h')" "a \<noteq> 0" "(a, block_size l) \<notin> L" "heap_is h' P (insert (a, block_size l) L)"
proof -
  obtain vs G where r: "heap_rel h (room P L) vs G" "heap_pages (room P L) vs G = P" "live_blocks vs G = L"
    by (rule heap_isE [OF assms(1)])
  show thesis by (rule heap_alloc_some [OF r(1) assms(2,3)], rule that) (auto simp: r heap_is_def)
qed

lemma heap_is_alloc_cases:
  assumes "heap_is h P L"
  obtains (none) h' where "global_alloc h l = Inr (0, h')" "heap_is h' P L" "lsize l > 4096 \<or> room P L = {}"
  | (some) a h' where "global_alloc h l = Inr (a, h')" "a \<noteq> 0" "(a, block_size l) \<notin> L" "heap_is h' P (insert (a, block_size l) L)"
proof -
  obtain vs G where r: "heap_rel h (room P L) vs G" "heap_pages (room P L) vs G = P" "live_blocks vs G = L"
    by (rule heap_isE [OF assms(1)])
  obtain a h' A' vs' G' where a: "global_alloc h l = Inr (a, h')" "heap_rel h' A' vs' G'" "heap_pages A' vs' G' = P"
      "if a = 0 then (lsize l > 4096 \<or> room P L = {}) \<and> live_blocks vs' G' = L
       else lsize l \<le> block_size l \<and> unat (block_size l) dvd unat a \<and> (a, block_size l) \<notin> L \<and>
         live_blocks vs' G' = insert (a, block_size l) L"
    using heap_alloc_rel [OF r(1), of l] unfolding r(2,3) by (elim exE conjE) (rule that)
  show thesis
  proof (cases "a = 0")
    case True
    then show thesis using a by (intro none [of h']) (auto simp: heap_is_def)
  next
    case False
    then show thesis using a by (intro some [of a h']) (auto simp: heap_is_def)
  qed
qed

lemma heap_is_dealloc:
  assumes "heap_is h P L" "(a, block_size l) \<in> L"
  obtains h' where "global_dealloc h a l = Inr h'" "heap_is h' P (L - {(a, block_size l)})"
proof -
  obtain vs G where r: "heap_rel h (room P L) vs G" "heap_pages (room P L) vs G = P" "live_blocks vs G = L"
    by (rule heap_isE [OF assms(1)])
  show thesis using heap_dealloc_rel [OF r(1), of a l] assms(2) that unfolding r(2,3) by (auto simp: heap_is_def)
qed

lemma heap_is_apart:
  assumes "heap_is h P L" "b \<in> L" "b' \<in> L" "b' \<noteq> b"
  shows "block_bytes b \<inter> block_bytes b' = {}"
proof -
  obtain vs G where r: "heap_rel h (room P L) vs G" "live_blocks vs G = L" by (rule heap_isE [OF assms(1)])
  show ?thesis using live_blocks_apart [OF r(1)] assms(2-4) unfolding r(2) by blast
qed

subsection \<open>The window of the heap\<close>

text \<open>The heap manages the memory behind the address \<open>off\<close>.\<close>

definition heap_at :: "u64 \<Rightarrow> heap \<Rightarrow> bool" where
  "heap_at off h \<longleftrightarrow> (\<exists>p. page_allocator h = Some p \<and> offset (frame_allocator p) = off)"

definition heap_window :: "heap \<Rightarrow> u64 set option" where
  "heap_window h = map_option managed (page_allocator h)"

lemma managed_offset:
  assumes "provides p A" "provides q B" "managed p = managed q"
  shows "unat (offset (frame_allocator q)) \<le> unat (offset (frame_allocator p))"
proof -
  have w: "window_ok (offset (frame_allocator p))" "window_ok (offset (frame_allocator q))"
    using assms(1,2) by (auto simp: provides_def buddy_rel_def)
  have "page_addr (offset (frame_allocator p)) 0 \<in> managed p"
    unfolding managed_def by (rule imageI) (simp add: MAX_PAGES_def)
  then have "offset (frame_allocator p) \<in> managed q" by (simp add: page_addr_def assms(3))
  then obtain k where k: "k < MAX_PAGES" "offset (frame_allocator p) = page_addr (offset (frame_allocator q)) k"
    unfolding managed_def by blast
  show ?thesis unfolding k(2) unat_page_addr [OF w(2) less_imp_le [OF k(1)]] by simp
qed

lemma heap_at_window:
  assumes "heap_rel h A vs G" "heap_rel h' A' vs' G'" "heap_window h' = heap_window h" "heap_at off h"
  shows "heap_at off h'"
proof -
  obtain p where p: "page_allocator h = Some p" "provides p A" "offset (frame_allocator p) = off"
    using assms(1,4) by (auto simp: heap_rel_def heap_at_def)
  obtain q where q: "page_allocator h' = Some q" "provides q A'" using assms(2) by (auto simp: heap_rel_def)
  have m: "managed q = managed p" using assms(3) p(1) q(1) by (simp add: heap_window_def)
  have "offset (frame_allocator q) = offset (frame_allocator p)"
    using managed_offset [OF p(2) q(2) m [symmetric]] managed_offset [OF q(2) p(2) m] by (simp add: word_unat_eq_iff)
  then show ?thesis using p(3) q(1) by (simp add: heap_at_def)
qed

lemma alloc_window:
  assumes rel: "heap_rel h A vs G" and run: "global_alloc h l = Inr (a, h')"
  shows "heap_window h' = heap_window h"
proof -
  obtain p where p: "page_allocator h = Some p" "provides p A" using rel by (auto simp: heap_rel_def)
  show ?thesis
  proof (cases "lsize l > 2048")
    case True
    show ?thesis
    proof (cases "A = {}")
      case True
      then have "alloc_page p = Inr (None, p)" using gpa.alloc_page_none p(2) by simp
      then show ?thesis using run p(1) \<open>lsize l > 2048\<close> by (auto simp: global_alloc_def heap_window_def split: if_splits)
    next
      case False
      obtain b p' where "alloc_page p = Inr (Some b, p')" "managed p' = managed p" using gpa.alloc_page_some [OF p(2) False] by blast
      then show ?thesis using run p(1) True by (auto simp: global_alloc_def heap_window_def split: if_splits)
    qed
  next
    case False
    have fuel: "0 < HEAP_FUEL" by (simp add: HEAP_FUEL_def)
    note own = heap_owns(1) [OF rel cache_index_less [of "lsize l"] p(1)]
    from own fuel show ?thesis
    proof (cases rule: gpa.alloc_ok)
      case none
      then show ?thesis using run p(1) False by (auto simp: global_alloc_def heap_window_def Let_def)
    next
      case (some b c' m' p' A' v')
      then show ?thesis using run p(1) False by (auto simp: global_alloc_def heap_window_def Let_def)
    qed
  qed
qed

lemma dealloc_window:
  assumes rel: "heap_rel h A vs G" and b: "(a, block_size l) \<in> live_blocks vs G" and run: "global_dealloc h a l = Inr h'"
  shows "heap_window h' = heap_window h"
proof -
  obtain p where p: "page_allocator h = Some p" "provides p A" "G \<subseteq> managed p" using rel by (auto simp: heap_rel_def)
  show ?thesis
  proof (cases "lsize l > 2048")
    case True
    then have a: "a \<in> G" using b by (simp add: block_size_def large_mem)
    then have "a \<notin> A" "a \<in> managed p" using rel p(3) by (auto simp: heap_rel_def)
    then obtain p' where "free_page p a = Inr p'" "managed p' = managed p" using gpa.free_page_ok [OF p(2)] by blast
    then show ?thesis using run p(1) True by (auto simp: global_dealloc_def heap_window_def)
  next
    case False
    let ?i = "cache_index (lsize l)"
    have i: "?i < 8" by (rule cache_index_less)
    note own = heap_owns [OF rel i p(1)]
    have "a \<in> live (class_size ?i) (vs ?i)" using b False slab_new_mem [OF i] by (simp add: block_size_def)
    then have la: "a \<in> live (obj_size (caches h ! ?i)) (vs ?i)" using own(2) by simp
    show ?thesis
      using own(1) la plist_fuel [OF own(1)]
    proof (rule gpa.dealloc_ok)
      fix c' m' p' A' v'
      assume "scache_dealloc HEAP_FUEL free_page (caches h ! ?i) (slab_memory h) p a = Inr (c', m', p')" "managed p' = managed p"
      then show ?thesis using run p(1) False by (auto simp: global_dealloc_def heap_window_def Let_def)
    qed
  qed
qed

text \<open>The abstract state of a heap that manages the memory behind \<open>off\<close>.\<close>

definition heap_in :: "u64 \<Rightarrow> heap \<Rightarrow> u64 set \<Rightarrow> (u64 \<times> u64) set \<Rightarrow> bool" where
  "heap_in off h P L \<longleftrightarrow> heap_is h P L \<and> heap_at off h"

lemma heap_is_in: "heap_is h P L \<Longrightarrow> \<exists>off. heap_in off h P L"
  by (auto simp: heap_in_def heap_is_def heap_rel_def heap_at_def)

lemma heap_in_alloc:
  assumes "heap_in off h P L" "room P L \<noteq> {}" "lsize l \<le> 4096"
  obtains a h' where "global_alloc h l = Inr (a, h')" "a \<noteq> 0" "(a, block_size l) \<notin> L" "heap_in off h' P (insert (a, block_size l) L)"
proof -
  have h: "heap_is h P L" "heap_at off h" using assms(1) by (simp_all add: heap_in_def)
  obtain a h' where r: "global_alloc h l = Inr (a, h')" "a \<noteq> 0" "(a, block_size l) \<notin> L" "heap_is h' P (insert (a, block_size l) L)"
    by (rule heap_is_alloc [OF h(1) assms(2,3)])
  obtain A vs G A' vs' G' where "heap_rel h A vs G" "heap_rel h' A' vs' G'" using h(1) r(4) by (auto simp: heap_is_def)
  then have "heap_at off h'" using alloc_window [OF _ r(1)] heap_at_window h(2) by blast
  then show thesis using r by (intro that) (simp_all add: heap_in_def)
qed

lemma heap_in_dealloc:
  assumes "heap_in off h P L" "(a, block_size l) \<in> L"
  obtains h' where "global_dealloc h a l = Inr h'" "heap_in off h' P (L - {(a, block_size l)})"
proof -
  have h: "heap_is h P L" "heap_at off h" using assms(1) by (simp_all add: heap_in_def)
  obtain h' where r: "global_dealloc h a l = Inr h'" "heap_is h' P (L - {(a, block_size l)})" by (rule heap_is_dealloc [OF h(1) assms(2)])
  obtain vs G where g: "heap_rel h (room P L) vs G" "live_blocks vs G = L" by (rule heap_isE [OF h(1)])
  obtain A' vs' G' where "heap_rel h' A' vs' G'" using r(2) by (auto simp: heap_is_def)
  moreover have "heap_window h' = heap_window h" by (rule dealloc_window [OF g(1) _ r(1)]) (use assms(2) g(2) in simp)
  ultimately have "heap_at off h'" using heap_at_window [OF g(1)] h(2) by blast
  then show thesis using r by (intro that) (simp_all add: heap_in_def)
qed

subsection \<open>No memory is lost\<close>

text \<open>
  The use of a heap by the kernel: the allocations it holds, each with the layout it was made with, and the steps that change them.
\<close>

inductive heap_step :: "heap \<times> (u64 \<times> layout) set \<Rightarrow> heap \<times> (u64 \<times> layout) set \<Rightarrow> bool" where
  Alloc: "global_alloc h l = Inr (a, h') \<Longrightarrow> a \<noteq> 0 \<Longrightarrow> heap_step (h, X) (h', insert (a, l) X)"
| Fail: "global_alloc h l = Inr (0, h') \<Longrightarrow> heap_step (h, X) (h', X)"
| Dealloc: "(a, l) \<in> X \<Longrightarrow> global_dealloc h a l = Inr h' \<Longrightarrow> heap_step (h, X) (h', X - {(a, l)})"

definition block_of :: "u64 \<times> layout \<Rightarrow> u64 \<times> u64" where
  "block_of x = (fst x, block_size (snd x))"

definition heap_holds :: "u64 set \<Rightarrow> heap \<times> (u64 \<times> layout) set \<Rightarrow> bool" where
  "heap_holds P s \<longleftrightarrow> finite (snd s) \<and> inj_on block_of (snd s) \<and> heap_is (fst s) P (block_of ` snd s)"

lemma heap_step_holds:
  assumes "heap_step s s'" "heap_holds P s"
  shows "heap_holds P s'"
  using assms
proof (induction rule: heap_step.induct)
  case (Alloc h l a h' X)
  then have X: "finite X" "inj_on block_of X" "heap_is h P (block_of ` X)" by (auto simp: heap_holds_def)
  from X(3) have "block_of (a, l) \<notin> block_of ` X \<and> heap_is h' P (insert (block_of (a, l)) (block_of ` X))"
    by (cases rule: heap_is_alloc_cases [of _ _ _ l]) (use Alloc(1,2) in \<open>simp_all add: block_of_def\<close>)
  then show ?case using X(1,2) by (auto simp: heap_holds_def)
next
  case (Fail h l h' X)
  then have X: "finite X" "inj_on block_of X" "heap_is h P (block_of ` X)" by (auto simp: heap_holds_def)
  from X(3) have "heap_is h' P (block_of ` X)"
    by (cases rule: heap_is_alloc_cases [of _ _ _ l]) (use Fail(1) in simp_all)
  then show ?case using X(1,2) by (simp add: heap_holds_def)
next
  case (Dealloc a l X h h')
  then have X: "finite X" "inj_on block_of X" "heap_is h P (block_of ` X)" by (auto simp: heap_holds_def)
  have al: "(a, block_size l) \<in> block_of ` X" using Dealloc(1) by (force simp: block_of_def)
  have "block_of ` (X - {(a, l)}) = block_of ` X - {(a, block_size l)}"
    using inj_on_image_set_diff [OF X(2), of X "{(a, l)}"] Dealloc(1) by (simp add: block_of_def)
  moreover have "inj_on block_of (X - {(a, l)})" using X(2) by (rule inj_on_subset) auto
  moreover obtain h2 where "global_dealloc h a l = Inr h2" "heap_is h2 P (block_of ` X - {(a, block_size l)})"
    by (rule heap_is_dealloc [OF X(3) al])
  ultimately show ?case using Dealloc(2) X(1) by (simp add: heap_holds_def)
qed

lemma heap_steps_hold: "heap_step\<^sup>*\<^sup>* s s' \<Longrightarrow> heap_holds P s \<Longrightarrow> heap_holds P s'"
  by (induction rule: rtranclp_induct) (blast intro: heap_step_holds)+

text \<open>
  C10: The heap never loses memory: after any sequence of allocations and releases on a fresh heap, the blocks held are exactly the blocks
  in use, their bytes do not overlap, no more pages are in use than blocks are held, and when all blocks have been
  released, all pages are free again.
\<close>

theorem heap_no_leak:
  assumes "heap_rel h P (\<lambda>_. empty_view) {}" "heap_step\<^sup>*\<^sup>* (h, {}) (h', X)"
  shows "\<exists>A vs G. heap_rel h' A vs G \<and> live_blocks vs G = block_of ` X \<and>
    pairwise (\<lambda>x y. block_bytes (block_of x) \<inter> block_bytes (block_of y) = {}) X \<and>
    A \<subseteq> P \<and> card (P - A) \<le> card X \<and> (X = {} \<longrightarrow> A = P)"
proof -
  have "heap_holds P (h, {})" using heap_is_new [OF assms(1)] by (simp add: heap_holds_def)
  then have "heap_holds P (h', X)" by (rule heap_steps_hold [OF assms(2)])
  then have X: "finite X" "inj_on block_of X" "heap_is h' P (block_of ` X)" by (auto simp: heap_holds_def)
  obtain vs G where r: "heap_rel h' (room P (block_of ` X)) vs G" "live_blocks vs G = block_of ` X" by (rule heap_isE [OF X(3)])
  have "P - room P (block_of ` X) \<subseteq> (\<lambda>x. page_of (fst (block_of x))) ` X" by (auto simp: room_def)
  then have "card (P - room P (block_of ` X)) \<le> card ((\<lambda>x. page_of (fst (block_of x))) ` X)" using X(1) by (intro card_mono) auto
  also have "\<dots> \<le> card X" using X(1) by (rule card_image_le)
  finally have c: "card (P - room P (block_of ` X)) \<le> card X" .
  have "pairwise (\<lambda>x y. block_bytes (block_of x) \<inter> block_bytes (block_of y) = {}) X"
    using heap_is_apart [OF X(3)] X(2) by (auto simp: pairwise_def inj_on_eq_iff)
  moreover have "room P (block_of ` X) \<subseteq> P" "X = {} \<longrightarrow> room P (block_of ` X) = P" by (auto simp: room_def)
  ultimately show ?thesis using r c by blast
qed

subsection \<open>A concrete use\<close>

theorem heap_no_leak_witness:
  "\<exists>a h h' vs G. global_alloc demo_heap \<lparr>lsize = 100, lalign = 8\<rparr> = Inr (a, h) \<and> global_dealloc h a \<lparr>lsize = 100, lalign = 8\<rparr> = Inr h' \<and>
     heap_rel h' demo_pages vs G \<and> live_blocks vs G = {}"
proof -
  let ?l = "\<lparr>lsize = 100, lalign = 8\<rparr>"
  have "lsize ?l \<le> 4096" by simp
  from heap_alloc_some [OF demo_heap_rel demo_pages_nonempty this] obtain a h A vs G where
      r: "global_alloc demo_heap ?l = Inr (a, h)" "a \<noteq> 0" "heap_rel h A vs G" "(a, block_size ?l) \<in> live_blocks vs G"
    by (metis insertI1)
  obtain h' where d: "global_dealloc h a ?l = Inr h'" using heap_dealloc_rel [OF r(3,4)] by blast
  have "heap_step (demo_heap, {}) (h, {(a, ?l)})" using Alloc [OF r(1,2), of "{}"] by simp
  moreover have "heap_step (h, {(a, ?l)}) (h', {})" using Dealloc [OF _ d, of "{(a, ?l)}"] by simp
  ultimately have "heap_step\<^sup>*\<^sup>* (demo_heap, {}) (h', {})" by (rule converse_rtranclp_into_rtranclp [OF _ r_into_rtranclp])
  from heap_no_leak [OF demo_heap_rel this] r(1) d show ?thesis by auto
qed

end
