(* ===== verification/Syscall_Heap.thy ===== *)
theory Syscall_Heap
  imports Syscall Heap_Use
begin

text \<open>
  The memory of a system call: the vectors and strings of \<^verbatim>\<open>kernel/src/tasks/syscall.rs\<close> on the heap. \<open>vec_in h P L v\<close> says that
  the vector \<open>v\<close> owns its buffer in the heap \<open>h\<close>, beside the blocks \<open>L\<close>. Whatever a program passes, a call
  either stops the kernel in one of three ways or gives all memory back.
\<close>

subsection \<open>Outcomes\<close>

text \<open>The computation panics with one of \<open>E\<close> or returns a value with \<open>Q\<close>.\<close>

definition yields :: "panic set \<Rightarrow> ('a \<Rightarrow> bool) \<Rightarrow> 'a outcome \<Rightarrow> bool" where
  "yields E Q m \<longleftrightarrow> (case m of Inl e \<Rightarrow> e \<in> E | Inr x \<Rightarrow> Q x)"

lemma yields_simps [simp]: "yields E Q (Inl e) \<longleftrightarrow> e \<in> E" "yields E Q (Inr x) \<longleftrightarrow> Q x"
  by (simp_all add: yields_def)

lemma yields_mono: "yields E Q m \<Longrightarrow> (\<And>x. Q x \<Longrightarrow> R x) \<Longrightarrow> yields E R m"
  by (cases m) simp_all

lemma yields_and_then:
  assumes "yields E Q m" "\<And>x. Q x \<Longrightarrow> yields E R (f x)"
  shows "yields E R (and_then m f)"
  using assms by (cases m) simp_all

definition call_panics :: "panic set" where
  "call_panics = {PanicMsg ''memory allocation failed'', PanicMsg ''capacity overflow'', PanicMsg ''EXCEPTION: PAGE FAULT''}"

subsection \<open>Vectors\<close>

definition vec_blocks :: "rvec \<Rightarrow> (u64 \<times> u64) set" where
  "vec_blocks v = (if vcap v = 0 then {} else {(vbuf v, block_size (byte_layout (vcap v)))})"

definition vec_in :: "heap \<Rightarrow> u64 set \<Rightarrow> (u64 \<times> u64) set \<Rightarrow> rvec \<Rightarrow> bool" where
  "vec_in h P L v \<longleftrightarrow> heap_is h P (L \<union> vec_blocks v) \<and> vec_blocks v \<inter> L = {}"

lemma vec_blocks_upd [simp]: "vec_blocks (v\<lparr>vbytes := bs\<rparr>) = vec_blocks v"
  by (simp add: vec_blocks_def)

lemma vec_in_upd [simp]: "vec_in h P L (v\<lparr>vbytes := bs\<rparr>) = vec_in h P L v"
  by (simp add: vec_in_def)

lemma alloc_bytes_yields:
  assumes "heap_is h P L"
  shows "yields call_panics (\<lambda>(p, h'). (p, block_size (byte_layout n)) \<notin> L \<and> heap_is h' P (insert (p, block_size (byte_layout n)) L))
    (alloc_bytes h n)"
  using assms
  by (cases rule: heap_is_alloc_cases [where l = "byte_layout n"]) (simp_all add: alloc_bytes_def call_panics_def)

lemma alloc_bytes_some:
  assumes "heap_is h P L" "room P L \<noteq> {}" "n \<le> 4096"
  obtains p h' where "alloc_bytes h n = Inr (p, h')" "(p, block_size (byte_layout n)) \<notin> L"
    "heap_is h' P (insert (p, block_size (byte_layout n)) L)"
proof -
  have "lsize (byte_layout n) \<le> 4096" using assms(3) by (simp add: byte_layout_def)
  from heap_is_alloc [OF assms(1,2) this] obtain p h' where r: "global_alloc h (byte_layout n) = Inr (p, h')" "p \<noteq> 0"
      "(p, block_size (byte_layout n)) \<notin> L" "heap_is h' P (insert (p, block_size (byte_layout n)) L)" .
  then show thesis by (intro that [of p h']) (simp_all add: alloc_bytes_def)
qed

lemma vec_drop_run:
  assumes "vec_in h P L v"
  obtains h' where "vec_drop h v = Inr h'" "heap_is h' P L"
proof (cases "vcap v = 0")
  case True
  then show thesis using assms by (intro that [of h]) (simp_all add: vec_drop_def vec_in_def vec_blocks_def)
next
  case False
  let ?b = "(vbuf v, block_size (byte_layout (vcap v)))"
  have r: "heap_is h P (insert ?b L)" "?b \<notin> L" using assms False by (simp_all add: vec_in_def vec_blocks_def)
  obtain h' where h': "global_dealloc h (vbuf v) (byte_layout (vcap v)) = Inr h'" "heap_is h' P (insert ?b L - {?b})"
    by (rule heap_is_dealloc [OF r(1) insertI1])
  show thesis by (rule that [of h']) (use False h' r(2) in \<open>simp_all add: vec_drop_def\<close>)
qed

lemma with_capacity_yields:
  assumes "heap_is h P L"
  shows "yields call_panics (\<lambda>(v, h'). vec_in h' P L v \<and> vcap v = n \<and> vbytes v = []) (vec_with_capacity h n)"
proof -
  consider (zero) "n = 0" | (over) "n \<noteq> 0" "n > 0x7FFFFFFFFFFFFFFF" | (fits) "n \<noteq> 0" "\<not> n > 0x7FFFFFFFFFFFFFFF" by blast
  then show ?thesis
  proof cases
    case zero
    then show ?thesis using assms by (simp add: vec_with_capacity_def vec_in_def vec_blocks_def)
  next
    case over
    then show ?thesis by (simp add: vec_with_capacity_def call_panics_def)
  next
    case fits
    have "vec_with_capacity h n = and_then (alloc_bytes h n) (\<lambda>(p, h). Inr (\<lparr>vbuf = p, vcap = n, vbytes = []\<rparr>, h))"
      using fits by (simp add: vec_with_capacity_def)
    moreover have "yields call_panics (\<lambda>(v, h'). vec_in h' P L v \<and> vcap v = n \<and> vbytes v = []) \<dots>"
      by (rule yields_and_then [OF alloc_bytes_yields [OF assms]]) (use fits in \<open>auto simp: vec_in_def vec_blocks_def\<close>)
    ultimately show ?thesis by simp
  qed
qed

lemma with_capacity_some:
  assumes "heap_is h P L" "room P L \<noteq> {}" "n \<le> 4096"
  obtains v h' where "vec_with_capacity h n = Inr (v, h')" "vec_in h' P L v" "vcap v = n" "vbytes v = []"
proof -
  have "\<exists>v h'. vec_with_capacity h n = Inr (v, h')"
  proof (cases "n = 0")
    case False
    obtain p h' where "alloc_bytes h n = Inr (p, h')" by (rule alloc_bytes_some [OF assms])
    moreover have "\<not> n > 0x7FFFFFFFFFFFFFFF" using assms(3) by (simp add: word_less_nat_alt word_le_nat_alt)
    ultimately show ?thesis using False by (simp add: vec_with_capacity_def)
  qed (simp add: vec_with_capacity_def)
  then show thesis using with_capacity_yields [OF assms(1), of n] that by auto
qed

lemma reserve_yields:
  assumes "vec_in h P L v"
  shows "yields call_panics (\<lambda>(v', h'). vec_in h' P L v' \<and> vbytes v' = vbytes v) (vec_reserve h v additional)"
proof -
  let ?n = "length (vbytes v)"
  define c where "c = max 8 (max (2 * unat (vcap v)) (?n + additional))"
  consider (fits) "unat (vcap v) - ?n \<ge> additional" | (over) "\<not> unat (vcap v) - ?n \<ge> additional" "c > 0x7FFFFFFFFFFFFFFF"
    | (grow) "\<not> unat (vcap v) - ?n \<ge> additional" "\<not> c > 0x7FFFFFFFFFFFFFFF" by blast
  then show ?thesis
  proof cases
    case fits
    then show ?thesis using assms by (simp add: vec_reserve_def Let_def)
  next
    case over
    then show ?thesis by (simp add: vec_reserve_def Let_def c_def [symmetric] call_panics_def)
  next
    case grow
    let ?b = "\<lambda>p. (p, block_size (byte_layout (of_nat c)))"
    have nz: "(of_nat c :: u64) \<noteq> 0"
    proof -
      have "unat (of_nat c :: u64) = c" using grow(2) by (intro unat_of_nat_u64) simp
      then show ?thesis by (metis c_def unat_0 max.cobounded1 not_numeral_le_zero)
    qed
    have run: "vec_reserve h v additional = and_then (alloc_bytes h (of_nat c)) (\<lambda>(p, h).
        and_then (vec_drop h v) (\<lambda>h. Inr (v\<lparr>vbuf := p, vcap := of_nat c\<rparr>, h)))"
      using grow by (simp add: vec_reserve_def Let_def c_def [symmetric])
    have h: "heap_is h P (L \<union> vec_blocks v)" "vec_blocks v \<inter> L = {}" using assms by (simp_all add: vec_in_def)
    show ?thesis
      unfolding run
    proof (rule yields_and_then [OF alloc_bytes_yields [OF h(1)]])
      fix x assume x: "case x of (p, h') \<Rightarrow> ?b p \<notin> L \<union> vec_blocks v \<and> heap_is h' P (insert (?b p) (L \<union> vec_blocks v))"
      obtain p h' where ph: "x = (p, h')" by (cases x)
      have p: "?b p \<notin> L \<union> vec_blocks v" "heap_is h' P (insert (?b p) (L \<union> vec_blocks v))" using x unfolding ph by simp_all
      have "vec_in h' P (insert (?b p) L) v" using p h(2) by (auto simp: vec_in_def insert_commute)
      then obtain h'' where h'': "vec_drop h' v = Inr h''" "heap_is h'' P (insert (?b p) L)" by (rule vec_drop_run)
      have "vec_in h'' P L (v\<lparr>vbuf := p, vcap := of_nat c\<rparr>)"
        using h''(2) p(1) nz by (simp add: vec_in_def vec_blocks_def)
      then show "yields call_panics (\<lambda>(v', h'). vec_in h' P L v' \<and> vbytes v' = vbytes v)
          (case x of (p, h) \<Rightarrow> and_then (vec_drop h v) (\<lambda>h. Inr (v\<lparr>vbuf := p, vcap := of_nat c\<rparr>, h)))"
        by (simp add: ph h''(1))
    qed
  qed
qed

lemma extend_yields:
  assumes "vec_in h P L v"
  shows "yields call_panics (\<lambda>(v', h'). vec_in h' P L v' \<and> vbytes v' = vbytes v @ bs) (vec_extend h v bs)"
  unfolding vec_extend_def by (rule yields_and_then [OF reserve_yields [OF assms]]) auto

lemma push_chunks_yields:
  assumes "vec_in h P L v"
  shows "yields call_panics (\<lambda>(v', h'). vec_in h' P L v') (push_chunks h v chs)"
  using assms
proof (induction chs arbitrary: h v)
  case (Cons c chs)
  obtain t i where c: "c = (t, i)" by (cases c)
  show ?case
    unfolding c push_chunks.simps
  proof (rule yields_and_then [OF extend_yields [OF Cons.prems]], clarify)
    fix v1 h1 assume v1: "vec_in h1 P L v1"
    have "yields call_panics (\<lambda>(v', h'). vec_in h' P L v') (if i = [] then Inr (v1, h1) else vec_extend h1 v1 REPLACEMENT)"
      using v1 yields_mono [OF extend_yields [OF v1, of REPLACEMENT], of "\<lambda>(v', h'). vec_in h' P L v'"] by auto
    then show "yields call_panics (\<lambda>(v', h'). vec_in h' P L v')
        (and_then (if i = [] then Inr (v1, h1) else vec_extend h1 v1 REPLACEMENT) (\<lambda>(v, h). push_chunks h v chs))"
      by (rule yields_and_then) (auto intro: Cons.IH)
  qed
qed simp

lemma vec_extend_fits:
  assumes "length (vbytes v) + length bs \<le> unat (vcap v)"
  shows "vec_extend h v bs = Inr (v\<lparr>vbytes := vbytes v @ bs\<rparr>, h)"
proof -
  have "length bs \<le> unat (vcap v) - length (vbytes v)" using assms by linarith
  then show ?thesis by (simp add: vec_extend_def vec_reserve_def Let_def)
qed

subsection \<open>Reading user memory\<close>

lemma read_loop_ok:
  assumes "length (vbytes v) + length bs \<le> unat (vcap v)" "unat ptr + i + length bs \<le> 2 ^ 47"
    "\<And>j. j < length bs \<Longrightarrow> umem (ptr + of_nat (i + j)) = Some (bs ! j)"
  shows "read_loop umem h v ptr i (length bs) = Inr (v\<lparr>vbytes := vbytes v @ bs\<rparr>, h)"
  using assms
proof (induction bs arbitrary: v i)
  case (Cons b bs)
  have "unat (of_nat i :: u64) = i" using Cons.prems(2) by (simp add: unat_of_nat)
  then have add: "u64_add ptr (of_nat i) = Inr (ptr + of_nat i)"
    using Cons.prems(2) by (simp add: u64_add_def)
  have b: "read_byte umem (ptr + of_nat i) = Inr b"
    using Cons.prems(3) [of 0] by (simp add: read_byte_def)
  have "umem (ptr + of_nat (Suc i + j)) = Some (bs ! j)" if "j < length bs" for j
    using Cons.prems(3) [of "Suc j"] that by simp
  then have "read_loop umem h (v\<lparr>vbytes := vbytes v @ [b]\<rparr>) ptr (Suc i) (length bs) =
      Inr (v\<lparr>vbytes := vbytes v @ b # bs\<rparr>, h)"
    using Cons.IH [of "v\<lparr>vbytes := vbytes v @ [b]\<rparr>" "Suc i"] Cons.prems(1,2) by simp
  then show ?case using add b vec_extend_fits [of v "[b]" h] Cons.prems(1) by simp
qed simp

lemma read_loop_cong:
  assumes "unat ptr + i + n \<le> 2 ^ 47" "\<And>j. j < n \<Longrightarrow> umem (ptr + of_nat (i + j)) = umem' (ptr + of_nat (i + j))"
  shows "read_loop umem h v ptr i n = read_loop umem' h v ptr i n"
  using assms
proof (induction n arbitrary: h v i)
  case (Suc n)
  have "umem (ptr + of_nat i) = umem' (ptr + of_nat i)" using Suc.prems(2) [of 0] by simp
  then have "read_byte umem (ptr + of_nat i) = read_byte umem' (ptr + of_nat i)" by (simp add: read_byte_def)
  moreover have "u64_add ptr (of_nat i) = Inr (ptr + of_nat i)"
    using Suc.prems(1) by (simp add: u64_add_def unat_of_nat)
  moreover have "read_loop umem h v ptr (Suc i) n = read_loop umem' h v ptr (Suc i) n" for h v
  proof (rule Suc.IH)
    show "umem (ptr + of_nat (Suc i + j)) = umem' (ptr + of_nat (Suc i + j))" if "j < n" for j
      using Suc.prems(2) [of "Suc j"] that by simp
  qed (use Suc.prems(1) in simp)
  ultimately show ?case by simp
qed simp

text \<open>The buffer \<open>[ptr, ptr + len)\<close> lies in user space.\<close>

definition user_range :: "u64 \<Rightarrow> u64 \<Rightarrow> bool" where
  "user_range ptr len \<longleftrightarrow> ptr \<noteq> 0 \<and> unat ptr < 2 ^ 47 \<and> unat ptr + unat len \<le> 2 ^ 47"

lemma limit_unat: "unat USER_SPACE_LIMIT = 2 ^ 47"
  by (simp add: USER_SPACE_LIMIT_def)

lemma read_user_bytes_eq:
  "read_user_bytes umem h ptr len =
     (if user_range ptr len
      then and_then (vec_with_capacity h len) (\<lambda>(v, h).
           and_then (read_loop umem h v ptr 0 (unat len)) (\<lambda>(v, h). Inr (Some v, h)))
      else Inr (None, h))"
proof (cases "unat ptr + unat len < 2 ^ 64")
  case True
  then have "unat (ptr + len) = unat ptr + unat len" by (simp add: unat_word_ariths)
  with True limit_unat show ?thesis
    by (auto simp: read_user_bytes_def u64_add_def user_range_def word_le_nat_alt word_less_nat_alt)
next
  case False
  then show ?thesis by (auto simp: read_user_bytes_def u64_add_def user_range_def)
qed

lemma read_loop_yields:
  assumes "vec_in h P L v" "unat ptr + i + n \<le> 2 ^ 47"
  shows "yields call_panics (\<lambda>(v', h'). vec_in h' P L v') (read_loop umem h v ptr i n)"
  using assms
proof (induction n arbitrary: h v i)
  case (Suc n)
  have add: "u64_add ptr (of_nat i) = Inr (ptr + of_nat i)"
    using Suc.prems(2) by (simp add: u64_add_def unat_of_nat)
  have "yields call_panics (\<lambda>_. True) (read_byte umem (ptr + of_nat i))"
    by (simp add: read_byte_def call_panics_def split: option.split)
  moreover have "yields call_panics (\<lambda>(v', h'). vec_in h' P L v') (and_then (vec_extend h v [b]) (\<lambda>(v, h). read_loop umem h v ptr (Suc i) n))"
    for b
    by (rule yields_and_then [OF extend_yields [OF Suc.prems(1)]]) (use Suc.IH [of _ _ "Suc i"] Suc.prems(2) in auto)
  ultimately show ?case unfolding read_loop.simps add and_then.simps by (rule yields_and_then)
qed simp

lemma read_user_bytes_yields:
  assumes "heap_is h P L"
  shows "yields call_panics (\<lambda>(r, h'). case r of None \<Rightarrow> h' = h | Some v \<Rightarrow> vec_in h' P L v) (read_user_bytes umem h ptr len)"
proof (cases "user_range ptr len")
  case True
  have loop: "yields call_panics (\<lambda>(r, h'). case r of None \<Rightarrow> h' = h | Some v \<Rightarrow> vec_in h' P L v)
      (and_then (read_loop umem h1 v ptr 0 (unat len)) (\<lambda>(v, h). Inr (Some v, h)))" if "vec_in h1 P L v" for v h1
    by (rule yields_and_then [OF read_loop_yields [OF that]]) (use True in \<open>auto simp: user_range_def\<close>)
  show ?thesis
    unfolding read_user_bytes_eq if_P [OF True]
    by (rule yields_and_then [OF with_capacity_yields [OF assms]]) (use loop in auto)
next
  case False
  then show ?thesis by (simp add: read_user_bytes_eq)
qed

subsection \<open>Printing and the dispatcher\<close>

lemma from_utf8_lossy_yields:
  assumes "heap_is h P L"
  shows "yields call_panics (\<lambda>(msg, owned, h'). case owned of None \<Rightarrow> h' = h | Some v \<Rightarrow> vec_in h' P L v) (from_utf8_lossy h bs)"
proof -
  have build: "yields call_panics (\<lambda>(msg, owned, h'). case owned of None \<Rightarrow> h' = h | Some v \<Rightarrow> vec_in h' P L v)
      (and_then (push_chunks h1 v chs) (\<lambda>(v, h). Inr (vbytes v, Some v, h)))" if "vec_in h1 P L v" for v h1 chs
    by (rule yields_and_then [OF push_chunks_yields [OF that]]) auto
  have "yields call_panics (\<lambda>(msg, owned, h'). case owned of None \<Rightarrow> h' = h | Some v \<Rightarrow> vec_in h' P L v)
      (and_then (vec_with_capacity h (of_nat (length bs))) (\<lambda>(v, h). and_then (push_chunks h v chs) (\<lambda>(v, h). Inr (vbytes v, Some v, h))))" for chs
    by (rule yields_and_then [OF with_capacity_yields [OF assms]]) (use build in auto)
  then show ?thesis unfolding from_utf8_lossy_def by (auto split: list.split simp del: push_chunks.simps)
qed

text \<open>A call has given back all its memory and only printed.\<close>

definition call_done :: "u64 set \<Rightarrow> (u64 \<times> u64) set \<Rightarrow> sys \<Rightarrow> sys \<Rightarrow> bool" where
  "call_done P L s s' \<longleftrightarrow> heap_is (sheap s') P L \<and> (\<exists>t. sio s' = (sio s)\<lparr>serial_out := serial_out (sio s) @ t\<rparr>)"

lemma serial_println_done:
  "serial1 io \<Longrightarrow> serial_println t io = Inr (io\<lparr>serial_out := serial_out io @ t @ newline\<rparr>)"
  by (simp add: serial_println_def serial_print_def)

lemma print_user_yields:
  assumes "vec_in h P L v" "serial1 (sio s)"
  shows "yields call_panics (call_done P L s) (print_user v h (sio s))"
proof -
  have h: "heap_is h P (L \<union> vec_blocks v)" using assms(1) by (simp add: vec_in_def)
  show ?thesis
    unfolding print_user_def
  proof (rule yields_and_then [OF from_utf8_lossy_yields [OF h]])
    fix x :: "u8 list \<times> rvec option \<times> heap"
    assume x: "case x of (msg, owned, h') \<Rightarrow> case owned of None \<Rightarrow> h' = h | Some w \<Rightarrow> vec_in h' P (L \<union> vec_blocks v) w"
    obtain msg owned h1 where m: "x = (msg, owned, h1)" by (cases x)
    obtain h2 where h2: "(case owned of None \<Rightarrow> Inr h1 | Some w \<Rightarrow> vec_drop h1 w) = Inr h2" "heap_is h2 P (L \<union> vec_blocks v)"
    proof (cases owned)
      case None
      then show ?thesis using that [of h1] x h by (simp add: m)
    next
      case (Some w)
      then have "vec_in h1 P (L \<union> vec_blocks v) w" using x by (simp add: m)
      then show ?thesis using that Some by (auto elim: vec_drop_run)
    qed
    have "vec_in h2 P L v" using h2(2) assms(1) by (simp add: vec_in_def)
    then obtain h3 where "vec_drop h2 v = Inr h3" "heap_is h3 P L" by (rule vec_drop_run)
    then show "yields call_panics (call_done P L s) (case x of (msg, owned, h) \<Rightarrow>
        and_then (serial_println (''[user] '' @ text_of msg) (sio s)) (\<lambda>io.
        and_then (case owned of None \<Rightarrow> Inr h | Some s \<Rightarrow> vec_drop h s) (\<lambda>h.
        and_then (vec_drop h v) (\<lambda>h. Inr \<lparr>sheap = h, sio = io\<rparr>))))"
      using h2(1) assms(2) by (auto simp: m serial_println_done call_done_def)
  qed
qed

lemma entry_yields:
  assumes "heap_is (sheap s) P L" "serial1 (sio s)"
  shows "yields call_panics (\<lambda>(r, s'). call_done P L s s') (syscall_entry umem s num a1 a2 a3 a4 a5)"
proof -
  have refl: "call_done P L s s"
    using assms(1) by (auto simp: call_done_def intro: exI [of _ "[]"])
  have err: "yields call_panics (\<lambda>(r, s'). call_done P L s s')
      (and_then (serial_println t (sio s)) (\<lambda>io. Inr (code, \<lparr>sheap = sheap s, sio = io\<rparr>)))" for t code
    using assms by (auto simp: serial_println_done call_done_def)
  have print: "yields call_panics (\<lambda>(r, s'). call_done P L s s')
      (case x of (r, h) \<Rightarrow> (case r of
         Some v \<Rightarrow> and_then (print_user v h (sio s)) (\<lambda>s. Inr (code, s))
       | None \<Rightarrow> and_then (serial_println t (sio s)) (\<lambda>io. Inr (code', \<lparr>sheap = h, sio = io\<rparr>))))"
    if x: "case x of (r, h') \<Rightarrow> case r of None \<Rightarrow> h' = sheap s | Some v \<Rightarrow> vec_in h' P L v" for x code t code'
  proof (cases x)
    case (Pair r h)
    show ?thesis
    proof (cases r)
      case None
      then show ?thesis using x err by (simp add: Pair)
    next
      case (Some v)
      then have "vec_in h P L v" using x by (simp add: Pair)
      from print_user_yields [OF this assms(2)] show ?thesis
        unfolding Pair Some prod.case option.case by (rule yields_and_then) simp
    qed
  qed
  have wr: "yields call_panics (\<lambda>(r, s'). call_done P L s s')
      (and_then (read_user_bytes umem (sheap s) a2 a3) (\<lambda>(r, h). case r of
         Some v \<Rightarrow> and_then (print_user v h (sio s)) (\<lambda>s. Inr (code, s))
       | None \<Rightarrow> and_then (serial_println t (sio s)) (\<lambda>io. Inr (code', \<lparr>sheap = h, sio = io\<rparr>))))" for code t code'
    by (rule yields_and_then [OF read_user_bytes_yields [OF assms(1)] print])
  have unknown: "yields call_panics (\<lambda>(r, s'). call_done P L s s')
      (and_then (serial_println t (sio s)) (\<lambda>io. Inr (code, s\<lparr>sio := io\<rparr>)))" for t code
    using assms by (auto simp: serial_println_done call_done_def)
  show ?thesis unfolding syscall_entry_def by (simp add: refl wr unknown)
qed

end
