(* ===== verification/Syscall_Correct.thy ===== *)
theory Syscall_Correct
  imports Syscall_Heap Gdt Scheduler
begin

text \<open>
  Correctness of the system calls: what \<open>write\<close> and \<open>write_bytes\<close> print and return, that they only
  read user memory, their error codes, the registers the assembly around them preserves, and
  the two ways in which the kernel does not hold up: large buffers, and the single kernel stack.
\<close>

subsection \<open>The calls\<close>

lemma alloc_bytes_large:
  assumes "heap_is h P L" "n > 4096"
  shows "alloc_bytes h n = Inl (PanicMsg ''memory allocation failed'')"
proof -
  have "n > 2048" using assms(2) by (simp add: word_less_nat_alt)
  with assms(2) show ?thesis
    by (auto simp: alloc_bytes_def global_alloc_def byte_layout_def not_le [symmetric])
qed

lemma from_utf8_lossy_valid: "valid_utf8 bs \<Longrightarrow> from_utf8_lossy h bs = Inr (bs, None, h)"
  by (cases "bs = []") (auto simp: from_utf8_lossy_def chunks_valid utf8_chunks.simps [of "[]"])

text \<open>A user buffer with the bytes \<open>bs\<close>.\<close>

definition user_buffer :: "(u64 \<Rightarrow> u8 option) \<Rightarrow> u64 \<Rightarrow> u8 list \<Rightarrow> bool" where
  "user_buffer umem ptr bs \<longleftrightarrow> ptr \<noteq> 0 \<and> unat ptr < 2 ^ 47 \<and> unat ptr + length bs \<le> 2 ^ 47 \<and>
     (\<forall>i<length bs. umem (ptr + of_nat i) = Some (bs ! i))"

definition user_line :: "u8 list \<Rightarrow> string" where
  "user_line bs = ''[user] '' @ text_of bs @ newline"

lemma read_and_print:
  assumes "heap_is h P L" "room P L \<noteq> {}" "serial1 io" "user_buffer umem ptr bs" "length bs \<le> 4096" "valid_utf8 bs"
  obtains v h1 s' where "read_user_bytes umem h ptr (of_nat (length bs)) = Inr (Some v, h1)"
    "print_user v h1 io = Inr s'" "sio s' = io\<lparr>serial_out := serial_out io @ user_line bs\<rparr>" "heap_is (sheap s') P L"
proof -
  let ?n = "of_nat (length bs) :: u64"
  have n: "unat ?n = length bs" "?n \<le> 4096" using assms(5) by (simp_all add: unat_of_nat word_le_nat_alt)
  have u: "user_range ptr ?n" using assms(4) n(1) by (simp add: user_buffer_def user_range_def)
  obtain v h1 where v: "vec_with_capacity h ?n = Inr (v, h1)" "vec_in h1 P L v" "vcap v = ?n" "vbytes v = []"
    by (rule with_capacity_some [OF assms(1,2) n(2)])
  let ?v = "v\<lparr>vbytes := bs\<rparr>"
  have "read_loop umem h1 v ptr 0 (length bs) = Inr (?v, h1)"
    using read_loop_ok [of v bs ptr 0 umem h1] assms(4) v(3,4) n(1) by (simp add: user_buffer_def)
  then have r: "read_user_bytes umem h ptr ?n = Inr (Some ?v, h1)"
    using u v(1) n(1) by (simp add: read_user_bytes_eq)
  have "vec_in h1 P L ?v" using v(2) by simp
  then obtain h2 where h2: "vec_drop h1 ?v = Inr h2" "heap_is h2 P L" by (rule vec_drop_run)
  have "print_user ?v h1 io = Inr \<lparr>sheap = h2, sio = io\<lparr>serial_out := serial_out io @ user_line bs\<rparr>\<rparr>"
    using assms(3,6) h2(1) by (simp add: print_user_def from_utf8_lossy_valid serial_println_def serial_print_def user_line_def)
  with r h2(2) that show thesis by fastforce
qed

lemma write_run:
  assumes "heap_is (sheap s) P L" "room P L \<noteq> {}" "serial1 (sio s)" "user_buffer umem ptr bs" "length bs \<le> 4096" "valid_utf8 bs"
    "num = 1 \<or> num = 2"
  shows "\<exists>s'. syscall_entry umem s num 1 ptr (of_nat (length bs)) a4 a5 = Inr (if num = 1 then 0 else of_nat (length bs), s') \<and>
    sio s' = (sio s)\<lparr>serial_out := serial_out (sio s) @ user_line bs\<rparr> \<and> heap_is (sheap s') P L"
proof -
  obtain v h1 s' where r: "read_user_bytes umem (sheap s) ptr (of_nat (length bs)) = Inr (Some v, h1)"
    "print_user v h1 (sio s) = Inr s'" "sio s' = (sio s)\<lparr>serial_out := serial_out (sio s) @ user_line bs\<rparr>"
    "heap_is (sheap s') P L"
    by (rule read_and_print [OF assms(1-6)])
  then show ?thesis using assms(7) by (auto simp: syscall_entry_def)
qed

text \<open>
  C27: Writing a valid UTF-8 buffer of at most a page from user memory, with a page free in the heap:
  \<open>write\<close> returns 0, \<open>write_bytes\<close> returns the length, the console shows exactly the buffer after the
  prefix and before a newline, and the heap has the pages and the blocks in use it had before.
\<close>

theorem syscall_write_correct:
  assumes "heap_is (sheap s) P L" "room P L \<noteq> {}" "serial1 (sio s)" "user_buffer umem ptr bs" "length bs \<le> 4096" "valid_utf8 bs"
    "num = 1 \<or> num = 2"
  shows "\<exists>s'. syscall_entry umem s num 1 ptr (of_nat (length bs)) a4 a5 = Inr (if num = 1 then 0 else of_nat (length bs), s') \<and>
    sio s' = (sio s)\<lparr>serial_out := serial_out (sio s) @ user_line bs\<rparr> \<and> heap_is (sheap s') P L"
  using assms by (rule write_run)

text \<open>
  C11: No program can make the kernel leak memory: a system call with any number and any arguments, on any user memory, either stops the
  kernel because the heap is exhausted or the buffer is not mapped, or it returns with the same pages and the same
  blocks in use in the heap, having done nothing but append to the console.
\<close>

theorem syscall_no_leak:
  assumes "heap_is (sheap s) P L" "serial1 (sio s)"
  shows "case syscall_entry umem s num a1 a2 a3 a4 a5 of
      Inl e \<Rightarrow> e \<in> {PanicMsg ''memory allocation failed'', PanicMsg ''capacity overflow'', PanicMsg ''EXCEPTION: PAGE FAULT''}
    | Inr (r, s') \<Rightarrow> heap_is (sheap s') P L \<and> (\<exists>t. sio s' = (sio s)\<lparr>serial_out := serial_out (sio s) @ t\<rparr>)"
proof -
  have "yields call_panics (\<lambda>(r, s'). call_done P L s s') (syscall_entry umem s num a1 a2 a3 a4 a5)"
    by (rule entry_yields [OF assms])
  then show ?thesis by (auto simp: yields_def call_panics_def call_done_def split: sum.splits)
qed

text \<open>
  C28: The calls never read outside user space: their result and their effect depend on the memory
  only through addresses from 1 up to the user space limit, whatever pointer and length they are given.
\<close>

theorem syscall_reads_user_memory_only:
  assumes "\<And>a. a \<noteq> 0 \<Longrightarrow> a < USER_SPACE_LIMIT \<Longrightarrow> umem a = umem' a"
  shows "syscall_entry umem s num a1 a2 a3 a4 a5 = syscall_entry umem' s num a1 a2 a3 a4 a5"
proof -
  have "read_user_bytes umem h ptr len = read_user_bytes umem' h ptr len" for h ptr len
  proof (cases "user_range ptr len")
    case True
    have "umem (ptr + of_nat (0 + j)) = umem' (ptr + of_nat (0 + j))" if "j < unat len" for j
    proof -
      have "unat (ptr + of_nat j) = unat ptr + j"
        using True that by (simp add: user_range_def unat_word_ariths unat_of_nat)
      moreover from this have "ptr + of_nat j \<noteq> 0"
        using True by (auto simp: user_range_def unat_eq_zero)
      ultimately show ?thesis using assms True that limit_unat by (simp add: user_range_def word_less_nat_alt)
    qed
    then have "read_loop umem h v ptr 0 (unat len) = read_loop umem' h v ptr 0 (unat len)" for h v
      using True by (intro read_loop_cong) (auto simp: user_range_def)
    with True show ?thesis by (simp add: read_user_bytes_eq)
  qed (simp add: read_user_bytes_eq)
  then show ?thesis by (simp add: syscall_entry_def)
qed

text \<open>
  C29: Rejected calls: an unknown number, a descriptor other than 1, a null pointer, and a buffer that
  starts or ends above user space each get their error code; the heap is unchanged and the memory
  is not looked at.
\<close>

theorem syscall_errors:
  assumes "serial1 (sio s)"
  shows "(num \<noteq> 1 \<and> num \<noteq> 2 \<longrightarrow> (\<exists>io. syscall_entry umem s num a1 a2 a3 a4 a5 = Inr (U64_MAX, s\<lparr>sio := io\<rparr>))) \<and>
    (a1 \<noteq> 1 \<longrightarrow> syscall_entry umem s 1 a1 a2 a3 a4 a5 = Inr (1, s) \<and> syscall_entry umem s 2 a1 a2 a3 a4 a5 = Inr (U64_MAX, s)) \<and>
    (a2 = 0 \<or> unat a2 \<ge> 2 ^ 47 \<or> unat a2 + unat a3 > 2 ^ 47 \<longrightarrow>
       (\<exists>io. syscall_entry umem s 1 1 a2 a3 a4 a5 = Inr (14, s\<lparr>sio := io\<rparr>)) \<and>
       (\<exists>io. syscall_entry umem s 2 1 a2 a3 a4 a5 = Inr (U64_MAX, s\<lparr>sio := io\<rparr>)))"
proof (intro conjI impI)
  assume "a2 = 0 \<or> unat a2 \<ge> 2 ^ 47 \<or> unat a2 + unat a3 > 2 ^ 47"
  then have "read_user_bytes umem (sheap s) a2 a3 = Inr (None, sheap s)"
    by (auto simp: read_user_bytes_eq user_range_def)
  with assms show "\<exists>io. syscall_entry umem s 1 1 a2 a3 a4 a5 = Inr (14, s\<lparr>sio := io\<rparr>)"
    and "\<exists>io. syscall_entry umem s 2 1 a2 a3 a4 a5 = Inr (U64_MAX, s\<lparr>sio := io\<rparr>)"
    by (cases s; simp add: syscall_entry_def serial_println_def serial_print_def)+
qed (use assms in \<open>auto simp: syscall_entry_def serial_println_def serial_print_def\<close>)

text \<open>
  C30: A write of more than a page stops the kernel: the vector for the bytes cannot be allocated,
  since the heap serves at most 4096 bytes, and the allocation failure is a panic. Any user
  program can do this.
\<close>

theorem syscall_large_write_panics:
  assumes "heap_is (sheap s) P L" "user_range ptr len" "len > 4096" "num = 1 \<or> num = 2"
  shows "syscall_entry umem s num 1 ptr len a4 a5 = Inl (PanicMsg ''memory allocation failed'')"
proof -
  have "len \<noteq> 0" using assms(3) by auto
  moreover have "\<not> len > 0x7FFFFFFFFFFFFFFF"
    using assms(2) by (simp add: user_range_def word_less_nat_alt)
  ultimately have "read_user_bytes umem (sheap s) ptr len = Inl (PanicMsg ''memory allocation failed'')"
    using assms(2) alloc_bytes_large [OF assms(1,3)] by (simp add: read_user_bytes_eq vec_with_capacity_def)
  with assms(4) show ?thesis by (auto simp: syscall_entry_def)
qed

subsection \<open>The entry point preserves the caller's registers\<close>

definition callee_saved :: "reg set" where
  "callee_saved = {RBX, RBP, RSP, R12, R13, R14, R15}"

text \<open>
  The compiled \<open>syscall_entry\<close>, called by the System V convention: arguments in registers, the result
  in \<open>RAX\<close>, callee-saved registers and the caller's stack frame kept, everything else arbitrary.
\<close>

definition entry_callee :: "(u64 \<Rightarrow> u8 option) \<Rightarrow> sys callee \<Rightarrow> bool" where
  "entry_callee umem callee \<longleftrightarrow>
     (\<forall>k c. case syscall_entry umem k (gpr c RDI) (gpr c RSI) (gpr c RDX) (gpr c RCX) (gpr c R8) (gpr c R9) of
        Inl e \<Rightarrow> callee k c = Inl e
      | Inr (r, k') \<Rightarrow> \<exists>c'. callee k c = Inr (c', k') \<and> gpr c' RAX = r \<and> (\<forall>x\<in>callee_saved. gpr c' x = gpr c x) \<and>
          (\<forall>i<10. mem c' (gpr c RSP + 8 * of_nat i) = mem c (gpr c RSP + 8 * of_nat i)) \<and> star c' = star c)"

text \<open>The ten words the entry point saves, the last one pushed first in the list.\<close>

definition saved_words :: "cpu \<Rightarrow> u64 list" where
  "saved_words c = [gpr c R9, gpr c R8, gpr c R10, gpr c RDX, gpr c RSI, gpr c RDI, gpr c RAX, gpr c RSP, gpr c R11, gpr c RCX]"

definition handler_prologue :: "u64 \<Rightarrow> u64 \<Rightarrow> instr list" where
  "handler_prologue t ks =
     [StoreSym t RSP, LeaSym RSP (ks + SYSCALL_STACK_SIZE), Push RCX, Push R11, LoadSym R11 t, Push R11,
      Push RAX, Push RDI, Push RSI, Push RDX, Push R10, Push R8, Push R9]"

definition handler_epilogue :: "instr list" where
  "handler_epilogue =
     [Store RSP 48 RAX, Cli,
      Load R9 RSP 0, Load R8 RSP 8, Load R10 RSP 16, Load RDX RSP 24, Load RSI RSP 32, Load RDI RSP 40,
      AddImm RSP 48, Pop RAX, Load R11 RSP 8, Load RCX RSP 16, Load RSP RSP 0, Sysretq]"

lemma handler_split:
  "syscall_handler t ks e = handler_prologue t ks @
     [Sti, Load RDI RSP 48, Load RSI RSP 40, Load RDX RSP 32, Load RCX RSP 24, Load R8 RSP 16, Load R9 RSP 8, LeaSym RAX e, Call] @
     handler_epilogue"
  by (simp add: syscall_handler_def handler_prologue_def handler_epilogue_def)

text \<open>The temporary for the user stack pointer lies outside the syscall stack.\<close>

definition temp_apart :: "u64 \<Rightarrow> u64 \<Rightarrow> bool" where
  "temp_apart t ks \<longleftrightarrow> (\<forall>i<10. t \<noteq> ks + SYSCALL_STACK_SIZE - 80 + 8 * of_nat i)"

lemma prologue_saves:
  fixes c :: cpu and ks :: u64
  assumes "temp_apart t ks"
  defines "sp \<equiv> ks + SYSCALL_STACK_SIZE - 80"
  obtains c1 where "exec alu callee (handler_prologue t ks) k c = Inr (c1, k)"
    "gpr c1 = (gpr c)(RSP := sp, R11 := gpr c RSP)" "star c1 = star c"
    "\<And>i. i < 10 \<Longrightarrow> mem c1 (sp + 8 * of_nat i) = saved_words c ! i"
proof -
  let ?top = "ks + SYSCALL_STACK_SIZE"
  let ?c0 = "(set_reg RSP ?top c)\<lparr>mem := (mem c)(t := gpr c RSP)\<rparr>"
  let ?vs = "rev (saved_words c)"
  have far: "?top - 8 \<noteq> t" "?top - 16 \<noteq> t"
    using assms(1) spec [of _ 9] spec [of _ 8] unfolding temp_apart_def
    by (auto dest: spec [of _ 9] spec [of _ 8])
  let ?a = "push_vals [gpr c RCX, gpr c R11] ?c0"
  let ?b = "set_reg R11 (gpr c RSP) ?a"
  let ?c1 = "push_vals [gpr c RSP, gpr c RAX, gpr c RDI, gpr c RSI, gpr c RDX, gpr c R10, gpr c R8, gpr c R9] ?b"
  have e: "exec alu callee (handler_prologue t ks) k c = Inr (?c1, k)"
    using far by (simp add: handler_prologue_def set_reg_def push_val_def Let_def)
  have "push_val v (set_reg R11 x d) = set_reg R11 x (push_val v d)" for v x d
    by (cases d) (simp add: set_reg_def push_val_def Let_def fun_upd_twist)
  then have upd: "push_vals vs (set_reg R11 x d) = set_reg R11 x (push_vals vs d)" for vs x d
    by (induction vs arbitrary: d) auto
  have c1: "?c1 = set_reg R11 (gpr c RSP) (push_vals ?vs ?c0)"
    unfolding upd by (simp add: saved_words_def)
  have len: "length ?vs = 10" by (simp add: saved_words_def)
  have base: "gpr ?c0 RSP - 8 * of_nat (length ?vs) = sp" unfolding len sp_def by (simp add: set_reg_def)
  have "gpr (push_vals ?vs ?c0) x = (if x = RSP then sp else gpr c x)" for x
    using push_vals_rsp [of ?vs ?c0] unfolding base by (simp add: set_reg_def)
  then have "gpr ?c1 = (gpr c)(RSP := sp, R11 := gpr c RSP)"
    unfolding c1 by (auto simp: set_reg_def fun_eq_iff)
  moreover have "star ?c1 = star c" unfolding c1 by (simp add: set_reg_def)
  moreover have "mem ?c1 (sp + 8 * of_nat i) = saved_words c ! i" if "i < 10" for i
  proof -
    have "mem (push_vals ?vs ?c0) (gpr ?c0 RSP - 8 * of_nat (length ?vs) + 8 * of_nat i) = rev ?vs ! i"
      using that len by (intro push_vals_mem(1)) simp_all
    then show ?thesis unfolding base c1 by (simp add: set_reg_def)
  qed
  ultimately show thesis using that e by blast
qed

lemma epilogue_restores:
  fixes c :: cpu
  assumes "\<And>i. i < 10 \<Longrightarrow> mem c (gpr c RSP + 8 * of_nat i) = saved_words d ! i"
  obtains c1 where "exec alu callee handler_epilogue k c = Inr (c1, k)"
    "gpr c1 = (gpr c)(RAX := gpr c RAX, RDI := gpr d RDI, RSI := gpr d RSI, RDX := gpr d RDX, R10 := gpr d R10, R8 := gpr d R8,
       R9 := gpr d R9, RCX := gpr d RCX, R11 := gpr d R11, RSP := gpr d RSP)"
    "rip c1 = gpr d RCX" "rflags c1 = gpr d R11" "cs c1 = sysret_cs (star c)" "ss c1 = sysret_ss (star c)"
proof -
  let ?sp = "gpr c RSP"
  have w: "mem c ?sp = gpr d R9" "mem c (?sp + 8) = gpr d R8" "mem c (?sp + 16) = gpr d R10" "mem c (?sp + 24) = gpr d RDX"
      "mem c (?sp + 32) = gpr d RSI" "mem c (?sp + 40) = gpr d RDI" "mem c (?sp + 56) = gpr d RSP"
      "mem c (?sp + 64) = gpr d R11" "mem c (?sp + 72) = gpr d RCX"
    using assms [of 0] assms [of 1] assms [of 2] assms [of 3] assms [of 4] assms [of 5] assms [of 7] assms [of 8] assms [of 9]
    by (simp_all add: saved_words_def eval_nat_numeral)
  let ?g = "(gpr c)(R9 := gpr d R9, R8 := gpr d R8, R10 := gpr d R10, RDX := gpr d RDX, RSI := gpr d RSI, RDI := gpr d RDI)"
  let ?m = "(mem c)(?sp + 48 := gpr c RAX)"
  have a: "exec alu callee
      [Store RSP 48 RAX, Cli, Load R9 RSP 0, Load R8 RSP 8, Load R10 RSP 16, Load RDX RSP 24, Load RSI RSP 32, Load RDI RSP 40] k c =
      Inr (c\<lparr>gpr := ?g, rflags := rflags c AND NOT IF_FLAG, mem := ?m\<rparr>, k)"
    by (cases c) (use w in \<open>simp add: set_reg_def\<close>)
  let ?c = "c\<lparr>gpr := ?g, rflags := rflags c AND NOT IF_FLAG, mem := ?m\<rparr>"
  let ?h = "?g(RSP := gpr d RSP, RAX := gpr c RAX, R11 := gpr d R11, RCX := gpr d RCX)"
  have b: "exec alu callee [AddImm RSP 48, Pop RAX, Load R11 RSP 8, Load RCX RSP 16, Load RSP RSP 0, Sysretq] k ?c =
      Inr (c\<lparr>gpr := ?h, rflags := gpr d R11, mem := ?m, rip := gpr d RCX, cs := sysret_cs (star c), ss := sysret_ss (star c)\<rparr>, k)"
    by (cases c) (use w in \<open>simp add: set_reg_def add.assoc fun_upd_twist\<close>)
  have e: "handler_epilogue =
      [Store RSP 48 RAX, Cli, Load R9 RSP 0, Load R8 RSP 8, Load R10 RSP 16, Load RDX RSP 24, Load RSI RSP 32, Load RDI RSP 40] @
      [AddImm RSP 48, Pop RAX, Load R11 RSP 8, Load RCX RSP 16, Load RSP RSP 0, Sysretq]"
    by (simp add: handler_epilogue_def)
  have h: "?h = (gpr c)(RAX := gpr c RAX, RDI := gpr d RDI, RSI := gpr d RSI, RDX := gpr d RDX, R10 := gpr d R10, R8 := gpr d R8,
       R9 := gpr d R9, RCX := gpr d RCX, R11 := gpr d R11, RSP := gpr d RSP)"
    by (rule ext, rename_tac x, case_tac x) simp_all
  show thesis
    by (rule that) (simp_all only: e exec_append a and_then.simps split b h, simp_all)
qed

text \<open>Up to the call: the words are saved and the arguments are in the registers of the convention.\<close>

lemma handler_calls_entry:
  assumes "temp_apart t ks"
  defines "sp \<equiv> ks + SYSCALL_STACK_SIZE - 80"
  obtains c2 where "exec alu callee (syscall_handler t ks e) k (syscall_instr nxt c) =
      and_then (callee k c2) (\<lambda>(c, k). exec alu callee handler_epilogue k c)"
    "gpr c2 = (gpr c)(RSP := sp, RDI := gpr c RAX, RSI := gpr c RDI, RDX := gpr c RSI, RCX := gpr c RDX, R8 := gpr c R10,
       R9 := gpr c R8, RAX := e, R11 := gpr c RSP)" "star c2 = star c"
    "\<And>i. i < 10 \<Longrightarrow> mem c2 (sp + 8 * of_nat i) = saved_words (syscall_instr nxt c) ! i"
proof -
  let ?c0 = "syscall_instr nxt c"
  let ?mid = "[Sti, Load RDI RSP 48, Load RSI RSP 40, Load RDX RSP 32, Load RCX RSP 24, Load R8 RSP 16, Load R9 RSP 8, LeaSym RAX e]"
  have g0: "gpr ?c0 = (gpr c)(RCX := nxt, R11 := rflags c)" "star ?c0 = star c" by (simp_all add: syscall_instr_def)
  obtain c1 where c1: "exec alu callee (handler_prologue t ks) k ?c0 = Inr (c1, k)"
      "gpr c1 = (gpr ?c0)(RSP := sp, R11 := gpr ?c0 RSP)" "star c1 = star ?c0"
      "\<And>i. i < 10 \<Longrightarrow> mem c1 (sp + 8 * of_nat i) = saved_words ?c0 ! i"
    by (rule prologue_saves [OF assms(1), of alu callee k ?c0, folded sp_def], rule that)
  have w: "mem c1 (sp + 8) = gpr c R8" "mem c1 (sp + 16) = gpr c R10" "mem c1 (sp + 24) = gpr c RDX"
      "mem c1 (sp + 32) = gpr c RSI" "mem c1 (sp + 40) = gpr c RDI" "mem c1 (sp + 48) = gpr c RAX"
    using c1(4) [of 1] c1(4) [of 2] c1(4) [of 3] c1(4) [of 4] c1(4) [of 5] c1(4) [of 6]
    by (simp_all add: saved_words_def g0 eval_nat_numeral)
  let ?g = "(gpr c1)(RDI := gpr c RAX, RSI := gpr c RDI, RDX := gpr c RSI, RCX := gpr c RDX, R8 := gpr c R10, R9 := gpr c R8, RAX := e)"
  let ?c2 = "c1\<lparr>gpr := ?g, rflags := rflags c1 OR IF_FLAG\<rparr>"
  have sp1: "gpr c1 RSP = sp" by (simp add: c1(2))
  have mid: "exec alu callee ?mid k c1 = Inr (?c2, k)"
    using w sp1 by (cases c1) (simp add: set_reg_def)
  have "syscall_handler t ks e = handler_prologue t ks @ ?mid @ [Call] @ handler_epilogue" by (simp add: handler_split)
  then have "exec alu callee (syscall_handler t ks e) k ?c0 =
      and_then (exec alu callee [Call] k ?c2) (\<lambda>(c, k). exec alu callee handler_epilogue k c)"
    by (simp only: exec_append c1(1) mid and_then.simps split)
  then have "exec alu callee (syscall_handler t ks e) k ?c0 =
      and_then (callee k ?c2) (\<lambda>(c, k). exec alu callee handler_epilogue k c)"
    by (simp add: and_then_assoc split_def)
  moreover have "gpr ?c2 x = ((gpr c)(RSP := sp, RDI := gpr c RAX, RSI := gpr c RDI, RDX := gpr c RSI, RCX := gpr c RDX,
      R8 := gpr c R10, R9 := gpr c R8, RAX := e, R11 := gpr c RSP)) x" for x
    by (cases x) (simp_all add: c1(2) g0)
  ultimately show thesis using c1(3,4) g0(2) by (intro that [of ?c2]) (auto simp: fun_eq_iff)
qed

lemma handler_run:
  assumes "entry_callee umem callee" "temp_apart t ks"
  shows "case syscall_entry umem k (gpr c RAX) (gpr c RDI) (gpr c RSI) (gpr c RDX) (gpr c R10) (gpr c R8) of
      Inl err \<Rightarrow> exec alu callee (syscall_handler t ks e) k (syscall_instr nxt c) = Inl err
    | Inr (r, k') \<Rightarrow> \<exists>c'. exec alu callee (syscall_handler t ks e) k (syscall_instr nxt c) = Inr (c', k') \<and>
        gpr c' = (gpr c)(RAX := r, RCX := nxt, R11 := rflags c) \<and> rip c' = nxt \<and> rflags c' = rflags c \<and>
        cs c' = sysret_cs (star c) \<and> ss c' = sysret_ss (star c)"
proof -
  let ?c0 = "syscall_instr nxt c" and ?sp = "ks + SYSCALL_STACK_SIZE - 80"
  have g0: "gpr ?c0 = (gpr c)(RCX := nxt, R11 := rflags c)" by (simp add: syscall_instr_def)
  obtain c2 where c2: "exec alu callee (syscall_handler t ks e) k ?c0 =
      and_then (callee k c2) (\<lambda>(c, k). exec alu callee handler_epilogue k c)"
    "gpr c2 = (gpr c)(RSP := ?sp, RDI := gpr c RAX, RSI := gpr c RDI, RDX := gpr c RSI, RCX := gpr c RDX, R8 := gpr c R10,
       R9 := gpr c R8, RAX := e, R11 := gpr c RSP)" "star c2 = star c"
    "\<And>i. i < 10 \<Longrightarrow> mem c2 (?sp + 8 * of_nat i) = saved_words ?c0 ! i"
    by (rule handler_calls_entry [OF assms(2), of alu callee e k nxt c], rule that)
  note contract = spec [OF spec [OF assms(1) [unfolded entry_callee_def], of k], of c2]
  show ?thesis
  proof (cases "syscall_entry umem k (gpr c RAX) (gpr c RDI) (gpr c RSI) (gpr c RDX) (gpr c R10) (gpr c R8)")
    case (Inl err)
    then have "callee k c2 = Inl err" using contract by (simp add: c2(2))
    with Inl c2(1) show ?thesis by simp
  next
    case (Inr rk)
    obtain r k' where rk: "rk = (r, k')" by (cases rk)
    obtain c3 where c3: "callee k c2 = Inr (c3, k')" "gpr c3 RAX = r" "\<And>x. x \<in> callee_saved \<Longrightarrow> gpr c3 x = gpr c2 x"
        "\<And>i. i < 10 \<Longrightarrow> mem c3 (?sp + 8 * of_nat i) = mem c2 (?sp + 8 * of_nat i)" "star c3 = star c"
      using contract Inr rk c2(3) by (auto simp: c2(2))
    have sp3: "gpr c3 RSP = ?sp" using c3(3) [of RSP] by (simp add: callee_saved_def c2(2))
    have fr: "mem c3 (gpr c3 RSP + 8 * of_nat i) = saved_words ?c0 ! i" if "i < 10" for i
      using c3(4) c2(4) that unfolding sp3 by simp
    obtain c4 where c4: "exec alu callee handler_epilogue k' c3 = Inr (c4, k')"
      "gpr c4 = (gpr c3)(RAX := gpr c3 RAX, RDI := gpr ?c0 RDI, RSI := gpr ?c0 RSI, RDX := gpr ?c0 RDX, R10 := gpr ?c0 R10,
         R8 := gpr ?c0 R8, R9 := gpr ?c0 R9, RCX := gpr ?c0 RCX, R11 := gpr ?c0 R11, RSP := gpr ?c0 RSP)"
      "rip c4 = gpr ?c0 RCX" "rflags c4 = gpr ?c0 R11" "cs c4 = sysret_cs (star c3)" "ss c4 = sysret_ss (star c3)"
      by (rule epilogue_restores [OF fr, of alu callee k'], assumption, rule that)
    have saved: "gpr c3 x = gpr c x" if "x \<in> {RBX, RBP, R12, R13, R14, R15}" for x
      using c3(3) [of x] that by (auto simp: callee_saved_def c2(2))
    have "gpr c4 x = ((gpr c)(RAX := r, RCX := nxt, R11 := rflags c)) x" for x
      by (cases x) (simp_all add: c4(2) c3(2) saved g0)
    then have "gpr c4 = (gpr c)(RAX := r, RCX := nxt, R11 := rflags c)" by (simp add: fun_eq_iff)
    with c4 c3(1,5) c2(1) Inr rk show ?thesis by (simp add: g0)
  qed
qed

text \<open>
  C13: A system call looks to the user program like a function call that clobbers only \<open>RCX\<close> and \<open>R11\<close>:
  from the \<open>syscall\<close> instruction to \<open>sysretq\<close>, the kernel runs \<open>syscall_entry\<close> on the arguments in
  \<open>RAX\<close>, \<open>RDI\<close>, \<open>RSI\<close>, \<open>RDX\<close>, \<open>R10\<close> and \<open>R8\<close>, and the program continues after the instruction with the
  result in \<open>RAX\<close>, its flags, its stack pointer and every other register unchanged.
\<close>

theorem syscall_handler_preserves:
  assumes "entry_callee umem callee" "temp_apart t ks"
  shows "case syscall_entry umem k (gpr c RAX) (gpr c RDI) (gpr c RSI) (gpr c RDX) (gpr c R10) (gpr c R8) of
      Inl err \<Rightarrow> exec alu callee (syscall_handler t ks e) k (syscall_instr nxt c) = Inl err
    | Inr (r, k') \<Rightarrow> \<exists>c'. exec alu callee (syscall_handler t ks e) k (syscall_instr nxt c) = Inr (c', k') \<and>
        gpr c' = (gpr c)(RAX := r, RCX := nxt, R11 := rflags c) \<and> rip c' = nxt \<and> rflags c' = rflags c \<and>
        cs c' = sysret_cs (star c) \<and> ss c' = sysret_ss (star c)"
  using assms by (rule handler_run)


subsection \<open>Processor set-up\<close>

text \<open>
  After \<open>init_syscalls\<close> with the selectors of the descriptor table: \<open>syscall\<close> enters the handler with
  interrupts off and the kernel's code and data selectors, \<open>sysretq\<close> returns with exactly the user
  selectors of the table, which are those a new task starts with; system call instructions are enabled.
\<close>

lemma init_syscalls_run:
  assumes "gdt_laws gdt_append used gdt_new" "virt_laws virt_new" "canonical handler" "serial1 io"
  shows "\<exists>g sel k' io'. build_gdt gdt_append gdt_new t = Inr (g, sel) \<and>
    init_syscalls virt_new (sel_code sel) (sel_user_data sel) handler f k io = Inr (k', io') \<and>
    ctl_lstar k' = handler \<and> ctl_sfmask k' AND IF_FLAG = IF_FLAG \<and> bit (efer k') 0 \<and>
    syscall_cs (ctl_star k') = sel_code sel \<and> syscall_ss (ctl_star k') = sel_data sel \<and>
    sysret_cs (ctl_star k') = sel_user_code sel \<and> sysret_ss (ctl_star k') = sel_user_data sel \<and>
    c_cs (new_user (sel_user_code sel) (sel_user_data sel) e st) = ucast (sysret_cs (ctl_star k')) \<and>
    c_ss (new_user (sel_user_code sel) (sel_user_data sel) e st) = ucast (sysret_ss (ctl_star k')) \<and> serial1 io'"
proof -
  let ?sel = "\<lparr>sel_code = 0x08, sel_data = 0x10, sel_user_code = 0x23, sel_user_data = 0x1B, sel_tss = 0x28\<rparr>"
  obtain g where g: "build_gdt gdt_append gdt_new t = Inr (g, ?sel)" by (rule build_gdt_run [OF assms(1)])
  have v: "virt_new handler = Inr handler" using assms(2,3) by (simp add: virt_laws_def)
  obtain k' io' where r: "init_syscalls virt_new 0x08 0x1B handler f k io = Inr (k', io')" "ctl_lstar k' = handler"
      "ctl_sfmask k' = IF_FLAG" "efer k' = efer k OR 1" "ctl_star k' = 0x0010000800000000" "serial1 io'"
    using assms(4) unfolding init_syscalls_def Let_def
    by (simp add: v u64_sub_def u64_add_def serial_println_def serial_print_def)
  have "bit (efer k') 0" by (simp add: r(4) bit_or_iff)
  moreover have "syscall_cs (ctl_star k') = 0x08" "syscall_ss (ctl_star k') = 0x10" "sysret_cs (ctl_star k') = 0x23"
      "sysret_ss (ctl_star k') = 0x1B"
    by (simp_all add: r(5) syscall_cs_def syscall_ss_def sysret_cs_def sysret_ss_def)
  ultimately show ?thesis using g r(1-3,6) by (simp add: new_user_def)
qed

subsection \<open>Concrete instances\<close>

definition demo_sys :: sys where
  "demo_sys = \<lparr>sheap = demo_heap,
     sio = \<lparr>serial1 = True, serial_out = [], lapic_address = 0, mmio_log = [], port_log = []\<rparr>\<rparr>"

definition demo_umem :: "u64 \<Rightarrow> u8 option" where
  "demo_umem a = (if a = 0x401000 then Some 0x68 else if a = 0x401001 then Some 0x69 else None)"

lemma demo_sys_heap: "heap_is (sheap demo_sys) demo_pages {}" "room demo_pages {} \<noteq> {}"
  using heap_is_new [OF demo_heap_rel] demo_pages_nonempty by (simp_all add: demo_sys_def room_def)

lemma demo_buffer: "user_buffer demo_umem 0x401000 [0x68, 0x69]"
  by (auto simp: user_buffer_def demo_umem_def less_Suc_eq)

theorem syscall_write_correct_witness:
  "\<exists>s'. syscall_entry demo_umem demo_sys 1 1 0x401000 2 0 0 = Inr (0, s') \<and> serial_out (sio s') = ''[user] hi'' @ newline"
proof -
  have hi: "char_of (104 :: nat) = CHR ''h''" "char_of (105 :: nat) = CHR ''i''" by code_simp+
  have "valid_utf8 [0x68, 0x69]" by (rule valid_ascii) simp
  then show ?thesis
    using syscall_write_correct [OF demo_sys_heap _ demo_buffer, of 1 0 0]
    by (auto simp: demo_sys_def user_line_def text_of_def hi)
qed

theorem syscall_reads_user_memory_only_witness:
  "syscall_entry demo_umem demo_sys 2 1 0x401000 2 0 0 =
   syscall_entry (demo_umem(0xFFFF800000000000 := Some 7)) demo_sys 2 1 0x401000 2 0 0"
  by (rule syscall_reads_user_memory_only) (auto simp: USER_SPACE_LIMIT_def)

theorem syscall_errors_witness:
  "syscall_entry demo_umem demo_sys 1 2 0x401000 2 0 0 = Inr (1, demo_sys) \<and>
   (\<exists>io. syscall_entry demo_umem demo_sys 1 1 0xFFFF800000000000 2 0 0 = Inr (14, demo_sys\<lparr>sio := io\<rparr>))"
  using syscall_errors [of demo_sys 1 demo_umem 2 "0x401000" 2 0 0]
    syscall_errors [of demo_sys 1 demo_umem 1 "0xFFFF800000000000" 2 0 0]
  by (simp add: demo_sys_def)

theorem syscall_large_write_panics_witness:
  "syscall_entry demo_umem demo_sys 1 1 0x401000 5000 0 0 = Inl (PanicMsg ''memory allocation failed'')"
  by (rule syscall_large_write_panics [OF demo_sys_heap(1)]) (simp_all add: user_range_def)

theorem syscall_no_leak_witness:
  "case syscall_entry (\<lambda>_. Some 0xFF) demo_sys 1 1 0x401000 100 0 0 of
     Inl e \<Rightarrow> e \<in> {PanicMsg ''memory allocation failed'', PanicMsg ''capacity overflow'', PanicMsg ''EXCEPTION: PAGE FAULT''}
   | Inr (r, s') \<Rightarrow> heap_is (sheap s') demo_pages {} \<and> (\<exists>t. sio s' = (sio demo_sys)\<lparr>serial_out := serial_out (sio demo_sys) @ t\<rparr>)"
  by (rule syscall_no_leak [OF demo_sys_heap(1)]) (simp add: demo_sys_def)

definition demo_entry :: "sys callee" where
  "demo_entry k c =
     and_then (syscall_entry demo_umem k (gpr c RDI) (gpr c RSI) (gpr c RDX) (gpr c RCX) (gpr c R8) (gpr c R9)) (\<lambda>(r, k').
     Inr (c\<lparr>gpr := (gpr c)(RAX := r, RDI := 0, R10 := 0)\<rparr>, k'))"

lemma demo_entry_callee: "entry_callee demo_umem demo_entry"
  unfolding entry_callee_def demo_entry_def callee_saved_def by (auto split: sum.splits)

definition demo_user_cpu :: "u64 \<Rightarrow> u64 \<Rightarrow> cpu" where
  "demo_user_cpu num sp = \<lparr>gpr = (\<lambda>_. 9)(RAX := num, RSP := sp), rip = 0x400000, cs = 0x23, ss = 0x1B, ds = 0x1B, es = 0x1B,
     fs = 0x1B, gs = 0x1B, rflags = 0x202, star = 0x0010000800000000, lstar = 0x100, sfmask = 0x200, mem = (\<lambda>_. 0)\<rparr>"

lemma demo_temp_apart: "temp_apart 0x500 0x10000"
proof -
  have "(0x500 :: u64) \<noteq> 0x10000 + SYSCALL_STACK_SIZE - 80 + 8 * of_nat i" if "i < 10" for i
  proof -
    have "unat (0x10000 + SYSCALL_STACK_SIZE - 80 + 8 * of_nat i :: u64) = 81840 + 8 * i"
      using that by (simp add: SYSCALL_STACK_SIZE_def unat_word_ariths unat_of_nat)
    moreover have "unat (0x500 :: u64) \<noteq> 81840 + 8 * i" by simp
    ultimately show ?thesis by (metis (no_types))
  qed
  then show ?thesis by (simp add: temp_apart_def)
qed

theorem syscall_handler_preserves_witness:
  "\<exists>c' k'. exec (\<lambda>_ _ f. f) demo_entry (syscall_handler 0x500 0x10000 0x200) demo_sys (syscall_instr 0x400002 (demo_user_cpu 77 0x7000)) =
      Inr (c', k') \<and> gpr c' RAX = U64_MAX \<and> gpr c' RDI = 9 \<and> gpr c' RSP = 0x7000 \<and> rip c' = 0x400002 \<and> cs c' = 0x23"
proof -
  have "\<exists>s'. syscall_entry demo_umem demo_sys 77 9 9 9 9 9 = Inr (U64_MAX, s')"
    by (simp add: syscall_entry_def demo_sys_def serial_println_def serial_print_def)
  then show ?thesis
    using syscall_handler_preserves [OF demo_entry_callee demo_temp_apart, where k = demo_sys and c = "demo_user_cpu 77 0x7000"
        and alu = "\<lambda>_ _ f. f" and e = "0x200" and nxt = "0x400002"]
    by (auto simp: demo_user_cpu_def sysret_cs_def)
qed


end
