(* ===== verification/Interrupts.thy ===== *)
theory Interrupts
  imports Apic Gdt
begin

text \<open>
  Interrupt handling, \<^verbatim>\<open>kernel/src/interrupts.rs\<close>: the descriptor table and the exception handlers;
  \<^verbatim>\<open>kernel/src/drivers/exit.rs\<close>, which they end in; and the panic handler of \<^verbatim>\<open>kernel/src/main.rs\<close>.
  Debug renderings made by other crates are string arguments. A routine that ends in an
  endless loop returns the device state it loops in.
\<close>

datatype QemuExitCode = Success | Failed

fun exit_code :: "QemuExitCode \<Rightarrow> u32" where
  "exit_code Success = 0x11"
| "exit_code Failed = 0x13"

fun exit_name :: "QemuExitCode \<Rightarrow> string" where
  "exit_name Success = ''Success''"
| "exit_name Failed = ''Failed''"

definition exit_qemu :: "QemuExitCode \<Rightarrow> io \<Rightarrow> io outcome" where
  "exit_qemu code io =
     and_then (serial_println (newline @ newline @ ''Exiting QEMU with code '' @ exit_name code @ newline @ newline) io) (\<lambda>io.
     Inr (port_write 0xf4 (drop_bit 1 (exit_code code)) io))"

datatype handler =
    DivideByZero
  | DoubleFault
  | PageFault
  | GeneralProtectionFault
  | TimerInterruptEntry
  | KeyboardInterruptHandler
  | MouseInterruptHandler

record idt_entry =
  ihandler :: handler
  stack_index :: "u16 option"

text \<open>The table by vector: the exceptions at their architectural vectors, then the devices.\<close>

definition IDT :: "u8 \<Rightarrow> idt_entry option" where
  "IDT =
     (\<lambda>_. None)
      (8 := Some \<lparr>ihandler = DoubleFault, stack_index = Some DOUBLE_FAULT_IST_INDEX\<rparr>,
       13 := Some \<lparr>ihandler = GeneralProtectionFault, stack_index = Some GENERAL_PROTECTION_FAULT_IST_INDEX\<rparr>,
       14 := Some \<lparr>ihandler = PageFault, stack_index = Some PAGE_FAULT_IST_INDEX\<rparr>,
       0 := Some \<lparr>ihandler = DivideByZero, stack_index = None\<rparr>,
       interrupt_vector Timer := Some \<lparr>ihandler = TimerInterruptEntry, stack_index = None\<rparr>,
       interrupt_vector Keyboard := Some \<lparr>ihandler = KeyboardInterruptHandler, stack_index = None\<rparr>,
       interrupt_vector Mouse := Some \<lparr>ihandler = MouseInterruptHandler, stack_index = None\<rparr>)"

definition divide_by_zero_handler :: "string \<Rightarrow> io \<Rightarrow> io outcome" where
  "divide_by_zero_handler frame io =
     and_then (serial_println (''EXCEPTION: DIVIDE BY ZERO'' @ newline @ frame) io) (exit_qemu Failed)"

definition double_fault_handler :: "string \<Rightarrow> io \<Rightarrow> io outcome" where
  "double_fault_handler frame io =
     and_then (serial_println (''EXCEPTION: DOUBLE FAULT'' @ newline @ frame) io) (exit_qemu Failed)"

definition page_fault_handler :: "string \<Rightarrow> string \<Rightarrow> string \<Rightarrow> io \<Rightarrow> io outcome" where
  "page_fault_handler cr2 code frame io =
     and_then (serial_println ''EXCEPTION: PAGE FAULT'' io) (\<lambda>io.
     and_then (serial_println (''Accessed Address: '' @ cr2) io) (\<lambda>io.
     and_then (serial_println (''Error Code: '' @ code) io) (\<lambda>io.
     and_then (serial_println frame io) (exit_qemu Failed))))"

definition general_protection_fault_handler :: "u64 \<Rightarrow> string \<Rightarrow> io \<Rightarrow> io outcome" where
  "general_protection_fault_handler code frame io =
     and_then (serial_println ''EXCEPTION: GENERAL PROTECTION FAULT'' io) (\<lambda>io.
     and_then (serial_println (''Error Code: '' @ dec code) io) (\<lambda>io.
     and_then (serial_println frame io) (exit_qemu Failed)))"

definition panic_handler :: "string \<Rightarrow> io \<Rightarrow> io outcome" where
  "panic_handler info io =
     and_then (serial_println (''[failed]'' @ newline) io) (\<lambda>io.
     and_then (serial_println (''Error: '' @ info @ newline) io) (exit_qemu Failed))"

text \<open>The old tick handler of \<^verbatim>\<open>drivers/pit.rs\<close>.\<close>

definition timer_interrupt_handler :: "u16 \<Rightarrow> io \<Rightarrow> io outcome" where
  "timer_interrupt_handler code_segment io =
     (let from_usermode = (code_segment AND 3 = 3)
      in and_then (serial_print (if from_usermode then ''u'' else ''.'') io) (\<lambda>io. Inr (end_interrupt io)))"

subsection \<open>The interrupt controllers and the table agree\<close>

text \<open>
  The indirect registers of the I/O APIC after a sequence of writes: a write to the select register picks
  a register, a write to the window sets it.
\<close>

fun ioapic_regs :: "u64 \<Rightarrow> (u64 \<times> u32) list \<Rightarrow> u32 \<Rightarrow> (u32 \<Rightarrow> u32) \<Rightarrow> (u32 \<Rightarrow> u32)" where
  "ioapic_regs base [] sel r = r"
| "ioapic_regs base ((a, v) # ws) sel r =
     (if a = base then ioapic_regs base ws v r
      else if a = base + 16 then ioapic_regs base ws sel (r(sel := v))
      else ioapic_regs base ws sel r)"

text \<open>The value last written to a register.\<close>

fun last_write :: "u64 \<Rightarrow> (u64 \<times> u32) list \<Rightarrow> u32 option" where
  "last_write a [] = None"
| "last_write a ((b, v) # ws) = (case last_write a ws of Some w \<Rightarrow> Some w | None \<Rightarrow> if a = b then Some v else None)"

text \<open>The low register of the redirection entry of an interrupt line.\<close>

definition redirection :: "nat \<Rightarrow> u32" where
  "redirection irq = of_nat (0x10 + 2 * irq)"

text \<open>
  What the set-up relies on in the address types of the x86_64 crate: page-aligned physical addresses
  below 4 GiB are valid physical and virtual addresses, and the start of their own page.
\<close>

definition apic_env :: "(u64 \<Rightarrow> u64 outcome) \<Rightarrow> (u64 \<Rightarrow> u64 outcome) \<Rightarrow> (u64 \<Rightarrow> u64) \<Rightarrow> bool" where
  "apic_env phys_new virt_new containing \<longleftrightarrow>
     (\<forall>a. unat a < 2 ^ 32 \<and> 4096 dvd unat a \<longrightarrow> phys_new a = Inr a \<and> virt_new a = Inr a \<and> containing a = a)"

definition handles :: "u32 \<Rightarrow> handler \<Rightarrow> bool" where
  "handles v h \<longleftrightarrow> map_option ihandler (IDT (ucast v)) = Some h"

lemma u32_less: "unat (a :: u32) < 2 ^ 32"
  using unsigned_less [of a] by simp

text \<open>The registers of two devices on different pages are different addresses.\<close>

lemma pages_apart:
  assumes "unat p < 2 ^ 32" "4096 dvd unat p" "unat q < 2 ^ 32" "4096 dvd unat q" "p \<noteq> q" "unat x < 4096" "unat y < 4096"
  shows "p + x \<noteq> q + (y :: u64)"
proof
  assume "p + x = q + y"
  moreover have "unat (p + x) = unat p + unat x" "unat (q + y) = unat q + unat y"
    using assms(1,3,6,7) by (simp_all add: unat_word_ariths)
  ultimately have e: "unat p + unat x = unat q + unat y" by simp
  obtain i j where ij: "unat p = 4096 * i" "unat q = 4096 * j" using assms(2,4) by (auto elim!: dvdE)
  have "(4096 * i + unat x) div 4096 = i" "(4096 * j + unat y) div 4096 = j" using assms(6,7) by simp_all
  then have "i = j" using e ij by simp
  then show False using ij assms(5) by (simp add: word_unat_eq_iff)
qed

lemmas reg_defs = lapic_reg_def ptr_offset_def write_volatile_def

text \<open>
  C32: The interrupts the controllers are set up to raise are the ones the kernel handles: after \<open>init\<close>, the
  keyboard line (IRQ 1) and the mouse line (IRQ 12) are redirected, unmasked and to processor 0, to vectors
  whose table entries are the keyboard and the mouse handler (the controllers' pages being mappable); the local timer is enabled, periodic and
  unmasked, at the vector of the timer routine; and \<open>end_interrupt\<close> acknowledges at that controller.
\<close>

theorem apic_vectors_handled:
  assumes "apic_env phys_new virt_new containing" "serial1 io"
    "4096 dvd unat a" "unat l < 2 ^ 32" "4096 dvd unat l" "unat l \<noteq> unat a"
    "map_page m (ucast a) (ucast a) APIC_FLAGS = Inr (Some m1)" "map_page m1 l l APIC_FLAGS = Inr (Some m2)"
  shows "\<exists>m' io' ws. apic_init phys_new virt_new containing map_page rd (Some (ApicModel (a # others) l)) m io = Inr (m', io') \<and>
    mmio_log io' = mmio_log io @ ws \<and>
    (let r = ioapic_regs (ucast a) ws 0 r0
     in handles (r (redirection 1)) KeyboardInterruptHandler \<and> \<not> bit (r (redirection 1)) 16 \<and> r (redirection 1 + 1) = 0 \<and>
        handles (r (redirection 12)) MouseInterruptHandler \<and> \<not> bit (r (redirection 12)) 16 \<and> r (redirection 12 + 1) = 0) \<and>
    (\<exists>t. last_write (l + 0x320) ws = Some t \<and> bit t 17 \<and> \<not> bit t 16 \<and> handles t TimerInterruptEntry) \<and>
    (\<exists>v. last_write (l + 0xF0) ws = Some v \<and> bit v 8) \<and>
    mmio_log (end_interrupt io') = mmio_log io' @ [(l + 0xB0, 0)]"
proof -
  let ?a = "ucast a :: u64"
  have ua: "unat ?a = unat a" using u32_less [of a] by (simp add: unsigned_ucast_eq take_bit_nat_eq_self)
  have "unat ?a < 2 ^ 32" using u32_less [of a] unfolding ua by simp
  then have ea: "phys_new ?a = Inr ?a" "virt_new ?a = Inr ?a" "containing ?a = ?a"
    using assms(1,3) ua by (simp_all add: apic_env_def)
  have el: "phys_new l = Inr l" "virt_new l = Inr l" "containing l = l"
    using assms(1,4,5) by (simp_all add: apic_env_def)
  note m1 = assms(7) and m2 = assms(8)
  have "?a \<noteq> l" using assms(6) ua by auto
  then have neq: "?a \<noteq> l + x" "?a + 16 \<noteq> l + x" "l + x \<noteq> ?a" "l + x \<noteq> ?a + 16" if "unat x < 4096" for x
    using pages_apart [of ?a l 0 x] pages_apart [of ?a l 16 x] that \<open>unat ?a < 2 ^ 32\<close> assms(3-6) ua by auto
  let ?ws = "[(?a, 0x12), (?a + 16, 33), (?a, 0x13), (?a + 16, 0), (?a, 0x28), (?a + 16, 44), (?a, 0x29), (?a + 16, 0),
    (l + 0xF0, rd (l + 0xF0) OR 0x100), (l + 0x320, 0x20020), (l + 0x3E0, 3), (l + 0x380, 2500000), (l + 0x360, 33), (l + 0x350, 44 :: u32)]"
  let ?io = "io\<lparr>lapic_address := l, mmio_log := mmio_log io @ ?ws, serial_out := serial_out io @ ''Local APIC timer initialized'' @ newline\<rparr>"
  have run: "apic_init phys_new virt_new containing map_page rd (Some (ApicModel (a # others) l)) m io = Inr (m2, ?io)"
    using assms(2) ea el m1 m2
    by (cases io) (simp add: apic_init_def init_io_apic_def init_local_apic_def map_apic_def init_timer_def init_keyboard_def
        init_mouse_lint_def reg_defs serial_println_def serial_print_def Let_def)
  have r: "ioapic_regs ?a ?ws 0 r0 = r0(0x12 := 33, 0x13 := 0, 0x28 := 44, 0x29 := 0)"
    by (simp add: neq)
  have red: "redirection 1 = 0x12" "redirection 12 = 0x28" by (simp_all add: redirection_def)
  have h: "handles 33 KeyboardInterruptHandler" "handles 44 MouseInterruptHandler" "handles 0x20020 TimerInterruptEntry"
    by (simp_all add: handles_def IDT_def)
  have b: "\<not> bit (33 :: u32) 16" "\<not> bit (44 :: u32) 16" "\<not> bit (0x20020 :: u32) 16" "bit (0x20020 :: u32) 17" by code_simp+
  have t: "last_write (l + 0x320) ?ws = Some 0x20020" "last_write (l + 0xF0) ?ws = Some (rd (l + 0xF0) OR 0x100)"
    by simp_all
  have v: "bit (rd (l + 0xF0) OR 0x100) 8"
  proof -
    have "bit (0x100 :: u32) 8" by code_simp
    then show ?thesis by (simp only: bit_or_iff simp_thms)
  qed
  have e: "mmio_log (end_interrupt ?io) = mmio_log ?io @ [(l + 0xB0, 0)]" by (simp add: end_interrupt_def reg_defs)
  show ?thesis
    by (rule exI [of _ m2], rule exI [of _ ?io], rule exI [of _ ?ws], intro conjI run e)
      (unfold Let_def r red t, use h b v in simp_all)
qed

text \<open>
  The stack the processor enters a handler on (Intel SDM 6.14.4, 6.14.5): the one the entry's index
  selects, otherwise the kernel stack of the task state segment when it comes from user mode, and the
  stack in use when it comes from the kernel.
\<close>

definition entry_stack :: "tss \<Rightarrow> bool \<Rightarrow> u64 \<Rightarrow> u8 \<Rightarrow> u64 option" where
  "entry_stack t from_user rsp v = map_option (\<lambda>e.
     case stack_index e of
       Some i \<Rightarrow> interrupt_stack_table t ! unat i
     | None \<Rightarrow> if from_user then privilege_stack_table t ! 0 else rsp) (IDT v)"

text \<open>The bytes of a stack of the kernel, by its top.\<close>

definition stack_bytes :: "u64 \<Rightarrow> nat set" where
  "stack_bytes p = {unat p - 20480..<unat p}"

lemma stack_bytes_top: "static_stack p \<Longrightarrow> stack_bytes (p + STACK_SIZE) = {unat p..<unat p + 20480}"
  by (simp add: stack_bytes_def static_stack_def STACK_SIZE_def unat_word_ariths)

text \<open>
  C33: Double faults, page faults and general protection faults each run on a stack of their own: from
  whatever mode and stack they come, the processor enters the handler of vector 8, 14 and 13 at the
  top of the array reserved for that fault, so the fault can be reported when the stack in use is the cause.
  Every other handler of the table runs on the kernel stack when it comes from user mode and stays on the
  stack in use when it comes from the kernel. The stack of such a fault has no byte in common with the stack of
  another one, nor with the one of any other handler entered from user mode.
\<close>

theorem fault_stacks_apart:
  assumes "virt_laws v" "static_stack df" "static_stack pf" "static_stack gp" "static_stack ks"
    "pairwise (\<lambda>p q. {unat p..<unat p + 20480} \<inter> {unat q..<unat q + 20480} = {}) {df, pf, gp, ks}" "distinct [df, pf, gp, ks]"
  shows "\<exists>t. build_tss v df pf gp ks = Inr t \<and>
    (\<forall>u rsp. entry_stack t u rsp 8 = Some (df + STACK_SIZE) \<and> entry_stack t u rsp 14 = Some (pf + STACK_SIZE) \<and>
       entry_stack t u rsp 13 = Some (gp + STACK_SIZE)) \<and>
    map (map_option ihandler \<circ> IDT) [8, 14, 13] = [Some DoubleFault, Some PageFault, Some GeneralProtectionFault] \<and>
    (\<forall>w u rsp. w \<notin> {8, 13, 14} \<and> IDT w \<noteq> None \<longrightarrow> entry_stack t u rsp w = Some (if u then ks + STACK_SIZE else rsp)) \<and>
    (\<forall>f w u rsp rsp' p q. f \<in> {8, 13, 14} \<and> w \<noteq> f \<and> entry_stack t u rsp f = Some p \<and> entry_stack t True rsp' w = Some q \<longrightarrow>
       stack_bytes p \<inter> stack_bytes q = {})"
proof -
  let ?t = "\<lparr>interrupt_stack_table = [df + STACK_SIZE, pf + STACK_SIZE, gp + STACK_SIZE, 0, 0, 0, 0],
         privilege_stack_table = [ks + STACK_SIZE, 0, 0]\<rparr>"
  have run: "build_tss v df pf gp ks = Inr ?t" by (rule build_tss_run [OF assms(1-5)])
  note table = IDT_def DOUBLE_FAULT_IST_INDEX_def PAGE_FAULT_IST_INDEX_def GENERAL_PROTECTION_FAULT_IST_INDEX_def
  have fault: "entry_stack ?t u rsp 8 = Some (df + STACK_SIZE)" "entry_stack ?t u rsp 14 = Some (pf + STACK_SIZE)"
      "entry_stack ?t u rsp 13 = Some (gp + STACK_SIZE)" for u rsp
    by (simp_all add: entry_stack_def table)
  have other: "entry_stack ?t u rsp w = Some (if u then ks + STACK_SIZE else rsp)" if "w \<notin> {8, 13, 14}" "IDT w \<noteq> None" for w u rsp
    using that by (auto simp: entry_stack_def table split: if_splits)
  have apart: "stack_bytes (p + STACK_SIZE) \<inter> stack_bytes (q + STACK_SIZE) = {}"
    if "p \<in> {df, pf, gp, ks}" "q \<in> {df, pf, gp, ks}" "p \<noteq> q" for p q
    using pairwiseD [OF assms(6) that] that(1,2) assms(2-5) by (auto simp: stack_bytes_top)
  let ?base = "\<lambda>w :: u8. if w = 8 then df else if w = 14 then pf else if w = 13 then gp else ks"
  have "stack_bytes p \<inter> stack_bytes q = {}"
    if "f \<in> {8, 13, 14}" "w \<noteq> f" "entry_stack ?t u rsp f = Some p" "entry_stack ?t True rsp' w = Some q" for f w u rsp rsp' p q
  proof -
    have "IDT w \<noteq> None" using that(4) by (auto simp: entry_stack_def)
    then have "entry_stack ?t True rsp' w = Some (?base w + STACK_SIZE)"
      using other [of w True rsp'] fault by (cases "w \<in> {8, 13, 14}") auto
    moreover have "entry_stack ?t u rsp f = Some (?base f + STACK_SIZE)" using that(1) fault by auto
    ultimately have "p = ?base f + STACK_SIZE" "q = ?base w + STACK_SIZE" using that(3,4) by simp_all
    moreover have "?base f \<noteq> ?base w" using that(1,2) assms(7) by auto
    ultimately show ?thesis using apart [of "?base f" "?base w"] by simp
  qed
  note apart = this
  show ?thesis
  proof (intro exI [of _ ?t] conjI allI impI run fault)
    show "map (map_option ihandler \<circ> IDT) [8, 14, 13] = [Some DoubleFault, Some PageFault, Some GeneralProtectionFault]"
      by (simp add: table)
  qed (elim conjE, (rule other | rule apart), assumption+)+
qed

theorem apic_vectors_handled_witness:
  "\<exists>m' io' ws. apic_init Inr Inr (\<lambda>a. of_nat (unat a div 4096 * 4096)) (\<lambda>m p f fl. Inr (Some ((p, f, fl) # m))) (\<lambda>_. 0xF)
      (Some (ApicModel [0xFEC00000] 0xFEE00000)) []
      \<lparr>serial1 = True, serial_out = [], lapic_address = 0, mmio_log = [], port_log = []\<rparr> = Inr (m', io') \<and>
    mmio_log io' = ws \<and> handles (ioapic_regs 0xFEC00000 ws 0 (\<lambda>_. 0) (redirection 12)) MouseInterruptHandler"
proof -
  let ?io = "\<lparr>serial1 = True, serial_out = [], lapic_address = 0, mmio_log = [], port_log = []\<rparr>"
  have env: "apic_env Inr Inr (\<lambda>a. of_nat (unat a div 4096 * 4096))" by (auto simp: apic_env_def dvd_div_mult_self simp del: of_nat_mult)
  have d: "4096 dvd unat (0xFEC00000 :: u32)" "4096 dvd unat (0xFEE00000 :: u64)" by simp_all
  have "serial1 ?io" "unat (0xFEE00000 :: u64) < 2 ^ 32" "unat (0xFEE00000 :: u64) \<noteq> unat (0xFEC00000 :: u32)" by simp_all
  from apic_vectors_handled [where map_page = "\<lambda>m p f fl. Inr (Some ((p, f, fl) # m))" and m = "[]" and rd = "\<lambda>_. 0xF"
      and others = "[]" and ?r0.0 = "\<lambda>_. 0", OF env this(1) d(1) this(2) d(2) this(3) refl refl]
  show ?thesis by (auto simp: Let_def)
qed

theorem fault_stacks_apart_witness:
  "\<exists>t. build_tss Inr 0x10000 0x20000 0x30000 0x40000 = Inr t \<and> entry_stack t False 0x15008 14 = Some 0x25000 \<and>
     stack_bytes 0x15000 \<inter> stack_bytes 0x25000 = {}"
proof -
  have s: "static_stack 0x10000" "static_stack 0x20000" "static_stack 0x30000" "static_stack 0x40000"
    by (simp_all add: static_stack_def canonical_def STACK_SIZE_def)
  have v: "virt_laws Inr" by (simp add: virt_laws_def)
  have p: "pairwise (\<lambda>p q. {unat p..<unat p + 20480} \<inter> {unat q..<unat q + 20480} = {}) {0x10000, 0x20000, 0x30000, 0x40000 :: u64}"
    by (auto simp: pairwise_def)
  have d: "distinct [0x10000, 0x20000, 0x30000, 0x40000 :: u64]" by simp
  obtain t where t: "build_tss Inr 0x10000 0x20000 0x30000 0x40000 = Inr t"
      "\<forall>u rsp. entry_stack t u rsp 8 = Some (0x10000 + STACK_SIZE) \<and> entry_stack t u rsp 14 = Some (0x20000 + STACK_SIZE) \<and>
         entry_stack t u rsp 13 = Some (0x30000 + STACK_SIZE)"
      "\<forall>f w u rsp rsp' p q. f \<in> {8, 13, 14} \<and> w \<noteq> f \<and> entry_stack t u rsp f = Some p \<and> entry_stack t True rsp' w = Some q \<longrightarrow>
         stack_bytes p \<inter> stack_bytes q = {}"
    using fault_stacks_apart [OF v s p d] by (elim exE conjE) (rule that)
  have "stack_bytes (0x10000 + STACK_SIZE) \<inter> stack_bytes (0x20000 + STACK_SIZE) = {}"
    by (rule t(3) [rule_format, of 8 14 False 0 _ 0], use t(2) in simp)
  with t(1,2) show ?thesis by (auto simp: STACK_SIZE_def)
qed

end
