(* ===== verification/Kernel_Entry.thy ===== *)
theory Kernel_Entry
  imports Graphics Acpi Paging Elf_Correct Switch_Correct Syscall_Correct Interrupts
begin

text \<open>
  The entry of the kernel: \<^verbatim>\<open>main\<close> of \<^verbatim>\<open>kernel/src/main.rs\<close> and \<^verbatim>\<open>init\<close> of \<^verbatim>\<open>kernel/src/lib.rs\<close>,
  \<^verbatim>\<open>drivers/mod.rs\<close>, \<^verbatim>\<open>drivers/mouse.rs\<close>, \<^verbatim>\<open>interrupts.rs\<close> and \<^verbatim>\<open>tasks/mod.rs\<close>, which compose the components.
  \<open>kernel_init\<close> sets up the processor, \<open>memory_setup\<close> the memory, \<open>start_program\<close> the first task.

  The properties are those that no component has on its own: who owns which memory when the heap has been filled,
  and what the processor is left with when the embedded program starts.
\<close>

subsection \<open>Processor and devices\<close>

text \<open>
  The machine before and after \<open>init\<close>. \<open>set_on_complete\<close> and \<open>mouse_init\<close> are the functions of the mouse crate;
  \<open>None\<close> is its error.
\<close>

record ('g, 'd) machine =
  mc_io :: io
  mc_mouse :: 'd
  mc_regs :: "'g seg_regs"
  mc_idtr :: "(u8 \<Rightarrow> idt_entry option) option"
  mc_ctl :: ctl

record ('g, 'd) machine_env =
  set_on_complete :: "'d \<Rightarrow> 'd"
  mouse_init :: "'d \<Rightarrow> 'd option"
  env_virt_new :: "u64 \<Rightarrow> u64 outcome"
  env_gdt_append :: "'g \<Rightarrow> descriptor \<Rightarrow> (u16 \<times> 'g) outcome"
  env_gdt_new :: 'g
  env_stacks :: "u64 \<times> u64 \<times> u64 \<times> u64"
  env_handler :: u64
  env_features :: cpu_features

definition init_mouse :: "('g, 'd) machine_env \<Rightarrow> 'd \<Rightarrow> 'd outcome" where
  "init_mouse E mouse =
     (case mouse_init E (set_on_complete E mouse) of
        Some mouse \<Rightarrow> Inr mouse
      | None \<Rightarrow> Inl (PanicMsg ''called `Result::unwrap()` on an `Err` value''))"

definition drivers_init :: "('g, 'd) machine_env \<Rightarrow> ('g, 'd) machine \<Rightarrow> ('g, 'd) machine outcome" where
  "drivers_init E s =
     (let s = s\<lparr>mc_io := init_serial (mc_io s)\<rparr>
      in and_then (init_mouse E (mc_mouse s)) (\<lambda>mouse. Inr (s\<lparr>mc_mouse := mouse\<rparr>)))"

definition interrupts_init :: "('g, 'd) machine \<Rightarrow> ('g, 'd) machine" where
  "interrupts_init s = s\<lparr>mc_idtr := Some IDT\<rparr>"

text \<open>The lazily built statics \<open>TSS\<close> and \<open>GDT\<close>, built at their first use.\<close>

definition lazy_gdt :: "('g, 'd) machine_env \<Rightarrow> ('g \<times> selectors) outcome" where
  "lazy_gdt E =
     (case env_stacks E of (df, pf, gp, ks) \<Rightarrow>
        and_then (build_tss (env_virt_new E) df pf gp ks) (\<lambda>t.
        build_gdt (env_gdt_append E) (env_gdt_new E) t))"

definition tasks_init :: "('g, 'd) machine_env \<Rightarrow> selectors \<Rightarrow> ('g, 'd) machine \<Rightarrow> ('g, 'd) machine outcome" where
  "tasks_init E gdt s =
     and_then (init_syscalls (env_virt_new E) (sel_code gdt) (sel_user_data gdt) (env_handler E) (env_features E) (mc_ctl s) (mc_io s))
       (\<lambda>(k, io). Inr (s\<lparr>mc_ctl := k, mc_io := io\<rparr>))"

definition kernel_init :: "('g, 'd) machine_env \<Rightarrow> ('g, 'd) machine \<Rightarrow> (selectors \<times> ('g, 'd) machine) outcome" where
  "kernel_init E s =
     and_then (drivers_init E s) (\<lambda>s.
     and_then (lazy_gdt E) (\<lambda>gdt.
     let s = s\<lparr>mc_regs := gdt_init gdt (mc_regs s)\<rparr>;
         s = interrupts_init s
     in and_then (tasks_init E (snd gdt) s) (\<lambda>s. Inr (snd gdt, s))))"

subsection \<open>Memory\<close>

record boot_info =
  physical_memory_offset :: "u64 option"
  boot_framebuffer :: "fb_info option"
  memory_regions :: "mem_region list"
  rsdp_addr :: "u64 option"

text \<open>The loop over the iterator of \<open>usable_frames\<close>.\<close>

fun donate_frames :: "paging_crate \<Rightarrow> ('f \<Rightarrow> u64) \<Rightarrow> u64 \<Rightarrow> 'f outcome list \<Rightarrow> heap \<Rightarrow> heap outcome" where
  "donate_frames X start_address phys_mem_offset [] h = Inr h"
| "donate_frames X start_address phys_mem_offset (next # frame_iter) h =
     and_then next (\<lambda>frame.
     and_then (virt_plus X phys_mem_offset (start_address frame)) (\<lambda>virt_addr.
     and_then (heap_add_frame h virt_addr) (\<lambda>h.
     donate_frames X start_address phys_mem_offset frame_iter h)))"

definition unwrap :: "'a option \<Rightarrow> 'a outcome" where
  "unwrap r = (case r of Some x \<Rightarrow> Inr x | None \<Rightarrow> Inl UnwrapNone)"

text \<open>The memory of the kernel after the set-up.\<close>

record 'm kernel_memory =
  km_offset :: u64
  km_mapper :: 'm
  km_frames :: boot_alloc
  km_framebuffer :: framebuffer
  km_pixels :: pixels
  km_heap :: heap
  km_io :: io

text \<open>
  \<open>main\<close> after \<open>kernel::init\<close> up to the filled heap. \<open>storage\<close> and \<open>links\<close> are the static memory of the
  buddy allocator, \<open>h\<close> the static heap.
\<close>

definition memory_setup :: "(u64 \<Rightarrow> 'f outcome) \<Rightarrow> ('f \<Rightarrow> u64) \<Rightarrow> (u64 \<Rightarrow> u64 outcome) \<Rightarrow> (u64 \<Rightarrow> u64 \<Rightarrow> 'm) \<Rightarrow> paging_crate \<Rightarrow>
    (nat \<Rightarrow> u8) \<Rightarrow> (u64 \<Rightarrow> free_frame) \<Rightarrow> boot_info \<Rightarrow> u64 \<Rightarrow> heap \<Rightarrow> pixels \<Rightarrow> io \<Rightarrow> 'm kernel_memory outcome" where
  "memory_setup phys_frame start_address virt_new new_table X storage links boot_info cr3 h m io =
     and_then (serial_println ''Hello World!'' io) (\<lambda>io.
     and_then (unwrap (physical_memory_offset boot_info)) (\<lambda>off.
     and_then (virt_new off) (\<lambda>phys_mem_offset.
     and_then (paging_init new_table X cr3 phys_mem_offset) (\<lambda>mapper.
     and_then (boot_init (memory_regions boot_info)) (\<lambda>frame_allocator.
     and_then (serial_println ''Initializing graphics...'' io) (\<lambda>io.
     and_then (unwrap (boot_framebuffer boot_info)) (\<lambda>info.
     and_then (framebuffer_new phys_frame start_address (phys_plus X) info phys_mem_offset frame_allocator m)
       (\<lambda>(framebuffer, frame_allocator, m).
     and_then (serial_println ''Testing graphics...'' io) (\<lambda>io.
     and_then (test_picture framebuffer m) (\<lambda>m.
     and_then (serial_println ''Initializing heap...'' io) (\<lambda>io.
     let h = init_heap storage links h phys_mem_offset
     in and_then (donate_frames X start_address phys_mem_offset (usable_frames phys_frame frame_allocator) h) (\<lambda>h.
        Inr \<lparr>km_offset = phys_mem_offset, km_mapper = mapper, km_frames = frame_allocator, km_framebuffer = framebuffer, km_pixels = m, km_heap = h,
             km_io = io\<rparr>))))))))))))"

subsection \<open>The first program\<close>

text \<open>
  \<open>main\<close> from the embedded file to the first task. The console of the loader is the console of the kernel.
  \<open>show_error\<close> formats an \<open>ElfError\<close>.
\<close>

definition start_program :: "('m, heap, 'f) elf_env \<Rightarrow> (u64 \<Rightarrow> 'f outcome) \<Rightarrow> selectors \<Rightarrow> (elf_error \<Rightarrow> string) \<Rightarrow> u64 \<Rightarrow> u8 list \<Rightarrow>
    u64 \<Rightarrow> ('m, heap) loader \<Rightarrow> kstate \<Rightarrow> cpu \<Rightarrow> (u64 \<times> ('m, heap) loader \<times> cpu \<times> kstate) outcome" where
  "start_program E phys_frame gdt show_error phys_mem_offset hello_elf next_task_id s k c =
     and_then (print_line ''Creating user tasks...'' s) (\<lambda>s.
     and_then (print_line (''Embedded hello.elf: '' @ dec (of_nat (length hello_elf)) @ '' bytes'') s) (\<lambda>s.
     and_then (print_line ''About to load ELF...'' s) (\<lambda>s.
     and_then (from_elf E phys_frame gdt phys_mem_offset hello_elf next_task_id s) (\<lambda>((next_task_id, s), r).
     case r of
       Inl e \<Rightarrow> and_then (print_line (''Failed to load ELF: '' @ show_error e) s) (\<lambda>s. Inl (PanicMsg ''ELF loading failed''))
     | Inr elf_task \<Rightarrow>
         and_then (print_line (''ELF Task '' @ dec (tid elf_task) @ '' created (entry=0x'' @ hex (c_rip (tcontext elf_task)) @ '')'') s)
           (\<lambda>s.
         let scheduler = add_task (sched k) elf_task
         in and_then (print_line (''Total tasks: '' @ dec (of_nat (task_count scheduler))) s) (\<lambda>s.
            let scheduler = start scheduler
            in and_then (print_line ''Switching to first task...'' s) (\<lambda>s.
               and_then (switch_to_first_task (k\<lparr>sched := scheduler, kio := console s\<rparr>) c) (\<lambda>(c, k).
               Inr (next_task_id, s, c, k)))))))))"

subsection \<open>The processor is ready for user programs\<close>

lemma unwrap_Some [simp]: "unwrap (Some x) = Inr x"
  by (simp add: unwrap_def)

lemma serial_println_on [simp]:
  "serial1 io \<Longrightarrow> serial_println t io = Inr (io\<lparr>serial_out := serial_out io @ t @ newline\<rparr>)"
  by (simp add: serial_println_def serial_print_def)

lemma print_line_on [simp]:
  "serial1 (console s) \<Longrightarrow>
    print_line t s = Inr (s\<lparr>console := (console s)\<lparr>serial_out := serial_out (console s) @ t @ newline\<rparr>\<rparr>)"
  by (simp add: print_line_def)

lemma kernel_init_run:
  assumes "gdt_laws (env_gdt_append E) used (env_gdt_new E)" "virt_laws (env_virt_new E)" "env_stacks E = (df, pf, gp, ks)"
    "static_stack df" "static_stack pf" "static_stack gp" "static_stack ks" "canonical (env_handler E)"
    "mouse_init E (set_on_complete E (mc_mouse s)) = Some d"
  shows "\<exists>gdt s'. kernel_init E s = Inr (gdt, s') \<and> serial1 (mc_io s') \<and> mc_mouse s' = d \<and> mc_idtr s' = Some IDT \<and>
    reg_cs (mc_regs s') = sel_code gdt \<and> task_register (mc_regs s') = sel_tss gdt \<and>
    ctl_lstar (mc_ctl s') = env_handler E \<and> ctl_sfmask (mc_ctl s') AND IF_FLAG = IF_FLAG \<and> bit (efer (mc_ctl s')) 0 \<and>
    syscall_cs (ctl_star (mc_ctl s')) = reg_cs (mc_regs s') \<and> syscall_ss (ctl_star (mc_ctl s')) = reg_ss (mc_regs s') \<and>
    c_cs (new_user (sel_user_code gdt) (sel_user_data gdt) e st) = ucast (sysret_cs (ctl_star (mc_ctl s'))) \<and>
    c_ss (new_user (sel_user_code gdt) (sel_user_data gdt) e st) = ucast (sysret_ss (ctl_star (mc_ctl s')))"
proof -
  let ?io = "init_serial (mc_io s)"
  have on: "serial1 ?io" by (simp add: init_serial_def)
  obtain t where t: "build_tss (env_virt_new E) df pf gp ks = Inr t" using build_tss_run [OF assms(2,4-7)] by blast
  obtain g gdt k' io' where r: "build_gdt (env_gdt_append E) (env_gdt_new E) t = Inr (g, gdt)"
      "init_syscalls (env_virt_new E) (sel_code gdt) (sel_user_data gdt) (env_handler E) (env_features E) (mc_ctl s) ?io = Inr (k', io')"
      "ctl_lstar k' = env_handler E" "ctl_sfmask k' AND IF_FLAG = IF_FLAG" "bit (efer k') 0"
      "syscall_cs (ctl_star k') = sel_code gdt" "syscall_ss (ctl_star k') = sel_data gdt"
      "c_cs (new_user (sel_user_code gdt) (sel_user_data gdt) e st) = ucast (sysret_cs (ctl_star k'))"
      "c_ss (new_user (sel_user_code gdt) (sel_user_data gdt) e st) = ucast (sysret_ss (ctl_star k'))" "serial1 io'"
    using init_syscalls_run [OF assms(1,2,8) on, of t "env_features E" "mc_ctl s" e st] by auto
  have "kernel_init E s =
      Inr (gdt, s\<lparr>mc_io := io', mc_mouse := d, mc_regs := gdt_init (g, gdt) (mc_regs s), mc_idtr := Some IDT, mc_ctl := k'\<rparr>)"
    using assms(3,9) t r(1,2)
    by (simp add: kernel_init_def drivers_init_def init_mouse_def lazy_gdt_def interrupts_init_def tasks_init_def)
  then show ?thesis using r(3-10) by (simp add: gdt_init_def)
qed

text \<open>
  C17: \<open>init\<close> brings the machine up, provided the mouse answers: the serial port works, the segment registers hold the selectors of the
  descriptor table and the interrupt table is loaded; \<open>syscall\<close> then enters the handler with interrupts off and
  exactly the kernel selectors that are loaded, and \<open>sysretq\<close> returns with the selectors a new task starts with.
\<close>

theorem kernel_ready:
  assumes "gdt_laws (env_gdt_append E) used (env_gdt_new E)" "virt_laws (env_virt_new E)" "env_stacks E = (df, pf, gp, ks)"
    "static_stack df" "static_stack pf" "static_stack gp" "static_stack ks" "canonical (env_handler E)"
    "mouse_init E (set_on_complete E (mc_mouse s)) = Some d"
  shows "\<exists>gdt s'. kernel_init E s = Inr (gdt, s') \<and> serial1 (mc_io s') \<and> mc_mouse s' = d \<and> mc_idtr s' = Some IDT \<and>
    reg_cs (mc_regs s') = sel_code gdt \<and> task_register (mc_regs s') = sel_tss gdt \<and>
    ctl_lstar (mc_ctl s') = env_handler E \<and> ctl_sfmask (mc_ctl s') AND IF_FLAG = IF_FLAG \<and> bit (efer (mc_ctl s')) 0 \<and>
    syscall_cs (ctl_star (mc_ctl s')) = reg_cs (mc_regs s') \<and> syscall_ss (ctl_star (mc_ctl s')) = reg_ss (mc_regs s') \<and>
    c_cs (new_user (sel_user_code gdt) (sel_user_data gdt) e st) = ucast (sysret_cs (ctl_star (mc_ctl s'))) \<and>
    c_ss (new_user (sel_user_code gdt) (sel_user_data gdt) e st) = ucast (sysret_ss (ctl_star (mc_ctl s')))"
  using assms by (rule kernel_init_run)

subsection \<open>Who owns the memory\<close>

text \<open>The bytes of the whole pages in the usable regions of a memory map.\<close>

definition usable_bytes :: "mem_region list \<Rightarrow> nat set" where
  "usable_bytes m = (\<Union>g\<in>{g \<in> set m. reg_kind g = Usable}. \<Union>p\<in>{p. page_bytes p \<subseteq> region_bytes g}. page_bytes p)"

text \<open>
  What the boot loader provides: a memory map as above; the physical memory mapped at a page-aligned, non-zero offset with room
  for it in the lower half of the address space; a frame buffer outside the mapping of the usable memory.
\<close>

definition boot_ok :: "mem_region list \<Rightarrow> fb_info \<Rightarrow> u64 \<Rightarrow> bool" where
  "boot_ok regions info off \<longleftrightarrow> map_ok regions \<and>
     off \<noteq> 0 \<and> 4096 dvd unat off \<and> unat off + MAX_PAGES * PAGE_SIZE < 2 ^ 47 \<and> (\<forall>b\<in>usable_bytes regions. unat off + b < 2 ^ 47) \<and>
     0 < unat (fb_stride info) * unat (fb_height info) \<and> unat (fb_stride info) * unat (fb_height info) < 2 ^ 48 \<and>
     fb_width info \<le> fb_stride info \<and> buffer_ok (fb_address info) (unat (fb_stride info) * unat (fb_height info)) \<and>
     buffer_bytes (fb_address info) (unat (fb_stride info) * unat (fb_height info)) \<inter> (+) (unat off) ` usable_bytes regions = {}"

definition heap_static :: "slab_mem \<Rightarrow> heap" where
  "heap_static m = \<lparr>page_allocator = None, caches = slub_allocator_new, slab_memory = m\<rparr>"

text \<open>The pages of the window of the heap that are free in the boot allocator.\<close>

definition boot_pages :: "boot_alloc \<Rightarrow> nat set" where
  "boot_pages s = {p. p < MAX_PAGES \<and> page_bytes p \<subseteq> free_bytes s}"

lemma free_page_whole:
  assumes "boot_inv s" "p * 4096 \<in> free_bytes s"
  shows "page_bytes p \<subseteq> free_bytes s"
proof -
  obtain r where r: "r \<in> set (active s)" "p * 4096 \<in> range_bytes r" using assms(2) by (auto simp: free_bytes_def bytes_def)
  have "range_ok r" using assms(1) r(1) by (auto simp: boot_inv_def intro: ranges_wf_ok)
  then obtain j where j: "unat (rend r) = 4096 * j" by (auto simp: range_ok_def dvd_def)
  have "(p + 1) * 4096 \<le> unat (rend r)" using r(2) by (simp add: range_bytes_def j)
  then have "page_bytes p \<subseteq> range_bytes r" using r(2) by (auto simp: page_bytes_def range_bytes_def)
  then show ?thesis using r(1) by (auto simp: free_bytes_def bytes_def)
qed

lemma apart_mono: "B \<subseteq> C \<Longrightarrow> A \<inter> C = {} \<Longrightarrow> A \<inter> B = {}"
  by blast

lemma donate_frames_eq:
  assumes "\<forall>f\<in>set frs. virt_plus X off (start_address f) = Inr (page_addr off (ix f))"
  shows "donate_frames X start_address off (map Inr frs) h = heap_add_frames h (map (page_addr off) (map ix frs))"
  using assms
proof (induction frs arbitrary: h)
  case (Cons f frs)
  then have "donate_frames X start_address off (map Inr frs) = (\<lambda>h. heap_add_frames h (map (page_addr off) (map ix frs)))"
    by (intro ext) simp
  then show ?case using Cons.prems by simp
qed simp

lemma donate_run:
  assumes inv: "boot_inv al" and pf: "phys_frame_laws phys_frame start_address" and X: "paging_laws X"
    and off: "off \<noteq> 0" "4096 dvd unat off" "unat off + MAX_PAGES * PAGE_SIZE < 2 ^ 47" "\<forall>b\<in>free_bytes al. unat off + b < 2 ^ 47"
  shows "\<exists>h. donate_frames X start_address off (usable_frames phys_frame al) (init_heap (\<lambda>_. 0) links (heap_static sm) off) = Inr h \<and>
    heap_rel h (page_addr off ` boot_pages al) (\<lambda>_. empty_view) {} \<and> heap_at off h"
proof -
  obtain frs where frs: "usable_frames phys_frame al = map Inr frs" "sorted_wrt (<) (map (\<lambda>f. unat (start_address f)) frs)"
      "set (map (\<lambda>f. unat (start_address f)) frs) = {a \<in> free_bytes al. 4096 dvd a}"
    using usable_frames_exact [OF inv pf] by blast
  define ix where "ix f = unat (start_address f) div 4096" for f
  have ix: "unat (start_address f) = ix f * 4096" "unat (start_address f) \<in> free_bytes al" if "f \<in> set frs" for f
  proof -
    have "unat (start_address f) \<in> {a \<in> free_bytes al. 4096 dvd a}" unfolding frs(3) [symmetric] using that by simp
    then show "unat (start_address f) = ix f * 4096" "unat (start_address f) \<in> free_bytes al" by (simp_all add: ix_def)
  qed
  have v: "virt_plus X off (start_address f) = Inr (page_addr off (ix f))" if "f \<in> set frs" for f
  proof -
    have "unat off + unat (start_address f) < 2 ^ 47" using off(4) ix(2) [OF that] by blast
    then have "virt_plus X off (start_address f) = Inr (off + start_address f)" using X by (simp add: paging_laws_def)
    moreover have "start_address f = of_nat (unat (start_address f))" by simp
    ultimately show ?thesis unfolding page_addr_def PAGE_SIZE_def ix(1) [OF that] by simp
  qed
  have d: "distinct (map ix frs)"
  proof -
    have "map (\<lambda>f. unat (start_address f)) frs = map (\<lambda>p. p * 4096) (map ix frs)" using ix(1) by simp
    moreover have "distinct (map (\<lambda>f. unat (start_address f)) frs)" using frs(2) by (simp add: strict_sorted_iff)
    ultimately show ?thesis by (metis distinct_map)
  qed
  have w: "window_ok off" using off(3) by (simp add: window_ok_def)
  have b: "\<forall>p\<in>set (map ix frs). unat off + p * PAGE_SIZE < 2 ^ 64" using off(4) ix by (fastforce simp: PAGE_SIZE_def)
  have s: "set (map ix frs) \<inter> {..<MAX_PAGES} = boot_pages al"
  proof -
    have "p \<in> set (map ix frs) \<longleftrightarrow> page_bytes p \<subseteq> free_bytes al" for p
    proof
      assume "p \<in> set (map ix frs)"
      then have "p * 4096 \<in> free_bytes al" using ix by auto
      then show "page_bytes p \<subseteq> free_bytes al" by (rule free_page_whole [OF inv])
    next
      assume "page_bytes p \<subseteq> free_bytes al"
      moreover have "p * 4096 \<in> page_bytes p" by (simp add: page_bytes_def)
      ultimately have "p * 4096 \<in> set (map (\<lambda>f. unat (start_address f)) frs)" unfolding frs(3) by auto
      then obtain f where "f \<in> set frs" "unat (start_address f) = p * 4096" by auto
      then show "p \<in> set (map ix frs)" by (auto simp: ix_def image_iff intro: bexI [of _ f])
    qed
    then show ?thesis by (auto simp: boot_pages_def)
  qed
  have "donate_frames X start_address off (map Inr frs) h = heap_add_frames h (map (page_addr off) (map ix frs))" for h
    by (rule donate_frames_eq) (use v in blast)
  then show ?thesis
    using heap_init_correct [OF w off(1,2) d b, of links sm] unfolding frs(1) s heap_static_def heap_at_def by auto
qed

text \<open>What the console shows of the set-up.\<close>

definition boot_log :: string where
  "boot_log = ''Hello World!'' @ newline @ ''Initializing graphics...'' @ newline @ ''Testing graphics...'' @ newline @
     ''Initializing heap...'' @ newline"

lemma memory_setup_run:
  fixes regions :: "mem_region list" and info :: fb_info and off :: u64 and rsdp :: "u64 option"
  assumes ok: "boot_ok regions info off" and pf: "phys_frame_laws phys_frame start_address" and X: "paging_laws X"
    and virt: "virt_laws virt_new" and cr3: "unat off + unat cr3 < 2 ^ 47" and ser: "serial1 io"
  defines "boot \<equiv> \<lparr>physical_memory_offset = Some off, boot_framebuffer = Some info, memory_regions = regions, rsdp_addr = rsdp\<rparr>"
    and "n \<equiv> unat (fb_stride info) * unat (fb_height info)"
  obtains (none) al where "memory_setup phys_frame start_address virt_new new_table X (\<lambda>_. 0) links boot cr3 (heap_static sm) m io =
      Inl (PanicMsg ''Failed to allocate back buffer pages'')" "boot_init regions = Inr al"
      "framebuffer_new phys_frame start_address (phys_plus X) info off al m = Inl (PanicMsg ''Failed to allocate back buffer pages'')"
  | (some) km al m1 where "memory_setup phys_frame start_address virt_new new_table X (\<lambda>_. 0) links boot cr3 (heap_static sm) m io = Inr km"
      "boot_inv (km_frames km)" "heap_rel (km_heap km) (page_addr off ` boot_pages (km_frames km)) (\<lambda>_. empty_view) {}"
      "free_bytes (km_frames km) \<subseteq> usable_bytes regions"
      "buffer_bytes (back_buffer (km_framebuffer km)) n \<subseteq> (+) (unat off) ` (usable_bytes regions - free_bytes (km_frames km))"
      "\<forall>y<unat (fb_height info). \<forall>x<unat (fb_stride info).
         km_pixels km (pixel_ptr (fb_address info) (of_nat (y * unat (fb_stride info) + x))) = (if x < unat (fb_width info) then 0x00FF00 else 0)"
      "boot_init regions = Inr al"
      "framebuffer_new phys_frame start_address (phys_plus X) info off al m = Inr (km_framebuffer km, km_frames km, m1)"
      "heap_at off (km_heap km)" "km_offset km = off" "km_mapper km = new_table (off + cr3) off"
      "km_io km = io\<lparr>serial_out := serial_out io @ boot_log\<rparr>"
proof -
  have o: "map_ok regions" "off \<noteq> 0" "4096 dvd unat off" "unat off + MAX_PAGES * PAGE_SIZE < 2 ^ 47"
      "\<forall>b\<in>usable_bytes regions. unat off + b < 2 ^ 47" "0 < n" "n < 2 ^ 48" "fb_width info \<le> fb_stride info"
      "buffer_ok (fb_address info) n" "buffer_bytes (fb_address info) n \<inter> (+) (unat off) ` usable_bytes regions = {}"
    using ok by (simp_all add: boot_ok_def n_def)
  have "canonical off" using o(4) by (simp add: canonical_def)
  then have v: "virt_new off = Inr off" using virt by (simp add: virt_laws_def)
  have p: "paging_init new_table X cr3 off = Inr (new_table (off + cr3) off)"
    using X cr3 by (simp add: paging_init_def active_level_4_table_def paging_laws_def)
  obtain al where al: "boot_init regions = Inr al" "boot_inv al" "free_bytes al = usable_bytes regions"
    using boot_init_run [OF o(1)] by (auto simp: usable_bytes_def)
  have pp: "phys_plus_laws (phys_plus X)" using X by (simp add: paging_laws_def phys_plus_laws_def)
  have off: "\<forall>b\<in>free_bytes al. unat off + b < 2 ^ 52" using o(5) unfolding al(3) by fastforce
  have run: "memory_setup phys_frame start_address virt_new new_table X (\<lambda>_. 0) links boot cr3 (heap_static sm) m io =
      and_then (framebuffer_new phys_frame start_address (phys_plus X) info off al m) (\<lambda>(fb, al, m).
      and_then (test_picture fb m) (\<lambda>m.
      and_then (donate_frames X start_address off (usable_frames phys_frame al) (init_heap (\<lambda>_. 0) links (heap_static sm) off)) (\<lambda>h.
      Inr \<lparr>km_offset = off, km_mapper = new_table (off + cr3) off, km_frames = al, km_framebuffer = fb, km_pixels = m, km_heap = h,
           km_io = io\<lparr>serial_out := serial_out io @ boot_log\<rparr>\<rparr>)))"
    using ser v p al(1) by (simp add: memory_setup_def boot_def boot_log_def)
  show thesis
    using al(2) pf pp o(6,7) [unfolded n_def] off
  proof (cases rule: framebuffer_new_ok [where info = info and m = m])
    case none
    then show thesis using al(1) by (intro that(1)) (simp_all add: run)
  next
    case (some bb al')
    let ?fb = "\<lparr>front_buffer = fb_address info, back_buffer = bb, width = fb_width info, height = fb_height info, stride = fb_stride info\<rparr>"
    have bb: "buffer_ok bb n" "buffer_bytes bb n \<subseteq> (+) (unat off) ` (usable_bytes regions - free_bytes al')"
        "free_bytes al' \<subseteq> usable_bytes regions"
      using some(3-5) by (simp_all add: n_def al(3))
    have dj: "buffer_bytes bb n \<inter> buffer_bytes (fb_address info) n = {}" using o(10) bb(2) by blast
    have z: "zero_pixels m bb n (pixel_ptr bb (of_nat i)) = 0" if "i < n" for i
      using in_buffer_pixel [OF bb(1) that] by (simp add: zero_pixels_def)
    obtain m' where m': "test_picture ?fb (zero_pixels m bb n) = Inr m'"
        "\<forall>y<unat (fb_height info). \<forall>x<unat (fb_stride info). m' (pixel_ptr (fb_address info) (of_nat (y * unat (fb_stride info) + x))) =
           (if x < unat (fb_width info) then 0x00FF00 else 0)"
      using test_picture_ok [of ?fb "zero_pixels m bb n"] bb(1) o(7-9) dj z by (auto simp: n_def)
    have "\<forall>b\<in>free_bytes al'. unat off + b < 2 ^ 47" using o(5) bb(3) by blast
    then obtain h where h: "donate_frames X start_address off (usable_frames phys_frame al') (init_heap (\<lambda>_. 0) links (heap_static sm) off) = Inr h"
        "heap_rel h (page_addr off ` boot_pages al') (\<lambda>_. empty_view) {}" "heap_at off h"
      using donate_run [OF some(2) pf X o(2-4)] by blast
    show thesis
    proof (rule that(2))
      show "memory_setup phys_frame start_address virt_new new_table X (\<lambda>_. 0) links boot cr3 (heap_static sm) m io =
        Inr \<lparr>km_offset = off, km_mapper = new_table (off + cr3) off, km_frames = al', km_framebuffer = ?fb, km_pixels = m', km_heap = h,
           km_io = io\<lparr>serial_out := serial_out io @ boot_log\<rparr>\<rparr>"
        unfolding run some(1) using m'(1) h(1) by (simp add: n_def)
    qed (use some(2) h(2,3) bb(2,3) m'(2) al(1) some(1) in simp_all)
  qed
qed

text \<open>
  C3: After the set-up of the memory the heap has no block in use and owns exactly the pages below 1 GiB that are free in the
  boot allocator, which are usable memory; none of them overlaps the back buffer. The only way the set-up fails is that no
  free block is large enough for the back buffer.
\<close>

theorem boot_memory_correct:
  assumes "boot_ok regions info off" "phys_frame_laws phys_frame start_address" "paging_laws X" "virt_laws virt_new"
    "unat off + unat cr3 < 2 ^ 47" "serial1 io"
    "boot = \<lparr>physical_memory_offset = Some off, boot_framebuffer = Some info, memory_regions = regions, rsdp_addr = rsdp\<rparr>"
  shows "memory_setup phys_frame start_address virt_new new_table X (\<lambda>_. 0) links boot cr3 (heap_static sm) m io =
      Inl (PanicMsg ''Failed to allocate back buffer pages'') \<or>
    (\<exists>km. memory_setup phys_frame start_address virt_new new_table X (\<lambda>_. 0) links boot cr3 (heap_static sm) m io = Inr km \<and>
      boot_inv (km_frames km) \<and> heap_rel (km_heap km) (page_addr off ` boot_pages (km_frames km)) (\<lambda>_. empty_view) {} \<and>
      live_blocks (\<lambda>_. empty_view) {} = {} \<and>
      (\<forall>p\<in>boot_pages (km_frames km). page_bytes p \<subseteq> usable_bytes regions \<and>
         {unat (page_addr off p)..<unat (page_addr off p) + PAGE_SIZE} \<inter>
           buffer_bytes (back_buffer (km_framebuffer km)) (unat (fb_stride info) * unat (fb_height info)) = {}))"
  using assms(1-6)
proof (cases rule: memory_setup_run [where rsdp = rsdp and new_table = new_table and links = links and sm = sm and m = m])
  case (none al)
  then show ?thesis by (simp add: assms(7))
next
  case (some km al m1)
  have w: "window_ok off" using assms(1) by (simp add: boot_ok_def window_ok_def)
  have "page_bytes p \<subseteq> usable_bytes regions \<and> {unat (page_addr off p)..<unat (page_addr off p) + PAGE_SIZE} \<inter>
      buffer_bytes (back_buffer (km_framebuffer km)) (unat (fb_stride info) * unat (fb_height info)) = {}"
    if p: "p \<in> boot_pages (km_frames km)" for p
  proof -
    have f: "p \<le> MAX_PAGES" "page_bytes p \<subseteq> free_bytes (km_frames km)" using p by (simp_all add: boot_pages_def)
    have "{unat (page_addr off p)..<unat (page_addr off p) + PAGE_SIZE} = (+) (unat off) ` page_bytes p"
      unfolding unat_page_addr [OF w f(1)] page_bytes_def image_add_atLeastLessThan by (simp add: PAGE_SIZE_def algebra_simps)
    moreover have "(+) (unat off) ` page_bytes p \<inter> (+) (unat off) ` (usable_bytes regions - free_bytes (km_frames km)) = {}"
      using f(2) by auto
    ultimately have "{unat (page_addr off p)..<unat (page_addr off p) + PAGE_SIZE} \<inter>
        (+) (unat off) ` (usable_bytes regions - free_bytes (km_frames km)) = {}" by (simp only:)
    then have "{unat (page_addr off p)..<unat (page_addr off p) + PAGE_SIZE} \<inter>
        buffer_bytes (back_buffer (km_framebuffer km)) (unat (fb_stride info) * unat (fb_height info)) = {}"
      by (rule apart_mono [OF some(5)])
    then show ?thesis using subset_trans [OF f(2) some(4)] by (intro conjI)
  qed
  then show ?thesis
    unfolding assms(7)
    by (intro disjI2 exI [of _ km] conjI [OF some(1)] conjI [OF some(2)] conjI [OF some(3)] conjI [OF live_blocks_empty] ballI)
qed

text \<open>
  C38: The boot allocator is used on after its free frames have been given to the heap, for the page tables that map the
  interrupt controllers: every frame below 1 GiB that it hands out then is a page that the heap holds as free and hands out
  again.
\<close>

theorem boot_frames_shared:
  assumes "boot_ok regions info off" "phys_frame_laws phys_frame start_address" "paging_laws X" "virt_laws virt_new"
    "unat off + unat cr3 < 2 ^ 47" "serial1 io"
    "memory_setup phys_frame start_address virt_new new_table X (\<lambda>_. 0) links
       \<lparr>physical_memory_offset = Some off, boot_framebuffer = Some info, memory_regions = regions, rsdp_addr = rsdp\<rparr> cr3 (heap_static sm) m io = Inr km"
    "boot_allocate_frame phys_frame (km_frames km) = Inr (Some f, al)" "unat (start_address f) < MAX_PAGES * PAGE_SIZE"
  shows "\<exists>A. heap_rel (km_heap km) A (\<lambda>_. empty_view) {} \<and> off + start_address f \<in> A"
  using assms(1-6)
proof (cases rule: memory_setup_run [where rsdp = rsdp and new_table = new_table and links = links and sm = sm and m = m])
  case (none al)
  then show ?thesis using assms(7) by simp
next
  case (some km' al0 m1)
  then have km: "km' = km" using assms(7) by simp
  let ?c = "(phys_frame, start_address)" and ?F = "{p :: u64. 4096 dvd unat p \<and> unat p \<in> free_bytes (km_frames km)}"
  have own: "boot_owns ?c (km_frames km) ?F" using assms(2) some(2) by (simp add: boot_owns_def km)
  have ne: "?F \<noteq> {}"
  proof
    assume "?F = {}"
    with own have "boot_owns ?c (km_frames km) {}" by (simp only:)
    from boot_frames.take_none [OF this] assms(8) show False by simp
  qed
  have "start_address f \<in> ?F" using boot_frames.take_some [OF own ne] assms(8) by auto
  then have f: "4096 dvd unat (start_address f)" "unat (start_address f) \<in> free_bytes (km_frames km)" by simp_all
  define p where "p = unat (start_address f) div 4096"
  have p: "unat (start_address f) = p * 4096" "p < MAX_PAGES" using f(1) assms(9) by (simp_all add: p_def PAGE_SIZE_def)
  have "p \<in> boot_pages (km_frames km)"
    using free_page_whole [of "km_frames km" p] some(2) f(2) p by (simp add: boot_pages_def km)
  moreover have "off + start_address f = page_addr off p"
    unfolding page_addr_def PAGE_SIZE_def p(1) [symmetric] by simp
  ultimately show ?thesis using some(3) by (auto simp: km)
qed

subsection \<open>The first program runs\<close>

lemma elf_image_console [simp]: "elf_image E data V off (s\<lparr>console := io\<rparr>) = elf_image E data V off s"
proof -
  have "user_byte V off (s\<lparr>console := io\<rparr>) = user_byte V off s"
    by (rule ext) (simp add: user_byte_def split: option.split)
  then show ?thesis by (simp only: elf_image_def)
qed

lemma fresh_console [simp]: "fresh V (s\<lparr>console := io\<rparr>) I ps = fresh V s I ps"
  by (simp add: fresh_def)

lemma selector_trip [simp]: "ucast (ucast (a :: u16) :: u64) = a"
  by (rule bit_word_eqI) (simp add: bit_simps)

text \<open>
  Starting the embedded program: for a well-formed file and enough free frames in the heap, \<open>main\<close> ends in user mode at the
  entry point of the file, on the user stack, with interrupts enabled and the user selectors. The address space holds the program and its
  stack, the scheduler has exactly this task, running, and the heap has given away its kernel stack and at most four frames
  for each page of the program.
\<close>

lemma start_program_run:
  assumes heap: "heap_owns_frames c (frames_from s) F" "4 * length (elf_plan E data) < card F"
    and env: "env_laws E (heap_allocate_frame (fst (hc_frames c))) (heap_owns_frames c) V (hc_offset c)"
      "frame_start E = snd (hc_frames c)"
    and tabs: "F \<inter> tables V (mapper s) = {}" "\<forall>t\<in>tables V (mapper s). frame_ok (hc_offset c) t"
    and elf: "elf_ok E data" "fresh V s Map.empty (elf_plan E data)" and ser: "serial1 (console s)"
    and k: "sched k = scheduler_new"
  shows "\<exists>s' r k' t. start_program E (fst (hc_frames c)) gdt show_error (hc_offset c) data n s k r0 = Inr (n + 1, s', r, k') \<and>
    elf_image E data V (hc_offset c) s' \<and>
    rip r = e_entry (header_at E data) \<and> gpr r RSP = USER_STACK_TOP \<and> rflags r = 0x200 \<and>
    cs r = sel_user_code gdt OR 3 \<and> ss r = sel_user_data gdt OR 3 \<and> ds r = ss r \<and>
    sched_inv (sched k') \<and> is_initialized (sched k') \<and> tasks (sched k') = [t] \<and> tid t = n \<and> tstate t = Running \<and>
    serial1 (kio k') \<and> (\<exists>F'\<subseteq>F. heap_rel (frames_from s') ((+) (hc_offset c) ` F') (hc_blocks c) (insert (kernel_stack t) (hc_pages c)) \<and>
      card F \<le> card F' + 4 * length (elf_plan E data) + 1)"
proof -
  let ?say = "\<lambda>t s. s\<lparr>console := (console s)\<lparr>serial_out := serial_out (console s) @ t @ newline\<rparr>\<rparr>"
  let ?s = "?say ''About to load ELF...'' (?say (''Embedded hello.elf: '' @ dec (of_nat (length data)) @ '' bytes'') (?say ''Creating user tasks...'' s))"
  have heap': "heap_owns_frames c (frames_from ?s) F" using heap(1) by simp
  have tabs': "F \<inter> tables V (mapper ?s) = {}" "\<forall>t\<in>tables V (mapper ?s). frame_ok (hc_offset c) t" using tabs by simp_all
  have elf': "fresh V ?s Map.empty (elf_plan E data)" "serial1 (console ?s)" using elf(2) ser by simp_all
  obtain s1 t g where r: "from_elf E (fst (hc_frames c)) gdt (hc_offset c) data n ?s = Inr ((n + 1, s1), Inr t)"
      "tid t = n" "tstate t = Ready"
      "tcontext t = new_user (sel_user_code gdt) (sel_user_data gdt) (e_entry (header_at E data)) USER_STACK_TOP"
      "elf_image E data V (hc_offset c) s1" "g \<in> F" "kernel_stack t = hc_offset c + g" "serial1 (console s1)"
      "\<exists>F'\<subseteq>F. heap_rel (frames_from s1) ((+) (hc_offset c) ` F') (hc_blocks c) (insert (kernel_stack t) (hc_pages c)) \<and>
        card F \<le> card F' + 4 * length (elf_plan E data) + 1"
    using from_elf_run [OF heap' heap(2) env tabs' elf(1) elf', of gdt n] by blast
  let ?sc = "\<lparr>tasks = [t\<lparr>tstate := Running\<rparr>], current = 0, initialized = True\<rparr>"
  have sc: "start (add_task (sched k) t) = ?sc" by (simp add: k scheduler_new_def add_task_def start_def)
  have "unat (kernel_stack t) + 4096 < 2 ^ 64"
    using heap_frames_window(1) [OF heap(1) r(6)] unat_add_u64 [of "hc_offset c" g] by (simp add: r(7))
  then have st: "stacks_ok ?sc" by (simp add: stacks_ok_def)
  define io where "io = console (?say ''Switching to first task...'' (?say (''Total tasks: '' @ dec 1) (?say (''ELF Task '' @ dec n @
    '' created (entry=0x'' @ hex (e_entry (header_at E data)) @ '')'') s1)))"
  obtain r' k' where sw: "switch_to_first_task (k\<lparr>sched := ?sc, kio := io\<rparr>) r0 = Inr (r', k')" "sched k' = ?sc" "kio k' = io"
      "rip r' = e_entry (header_at E data)" "cs r' = ucast (c_cs (tcontext t))" "rflags r' = 0x200" "ss r' = ucast (c_ss (tcontext t))"
      "ds r' = ucast (c_ss (tcontext t))" "gpr r' = (gpr r0)(RSP := USER_STACK_TOP)"
    using first_task_run [of "k\<lparr>sched := ?sc, kio := io\<rparr>" "tcontext t" r0] st by (auto simp: r(4) new_user_def)
  have "start_program E (fst (hc_frames c)) gdt show_error (hc_offset c) data n s k r0 =
      Inr (n + 1, s1\<lparr>console := io\<rparr>, r', k')"
    using ser r(1,2,4,8) sw(1)
    by (simp add: start_program_def sc task_count_def add_task_def k scheduler_new_def start_def io_def new_user_def)
  moreover have "sched_inv ?sc" by (simp add: sched_inv_def)
  moreover have on: "serial1 io" using r(8) by (simp add: io_def)
  ultimately show ?thesis
    using sw(2-9) r(2,4,5,9) on
    by (intro exI [of _ "s1\<lparr>console := io\<rparr>"] exI [of _ r'] exI [of _ k'] exI [of _ "t\<lparr>tstate := Running\<rparr>"])
      (simp add: is_initialized_def new_user_def)
qed

subsection \<open>Concrete instances\<close>

definition demo_machine_env :: "(descriptor list, nat) machine_env" where
  "demo_machine_env = \<lparr>set_on_complete = Suc, mouse_init = Some, env_virt_new = Inr, env_gdt_append = list_append, env_gdt_new = [],
     env_stacks = (0x10000, 0x20000, 0x30000, 0x40000), env_handler = 0x8000001000,
     env_features = \<lparr>feature_info = Some (True, False), extended_feature_info = None\<rparr>\<rparr>"

definition demo_machine :: "(descriptor list, nat) machine" where
  "demo_machine = \<lparr>mc_io = \<lparr>serial1 = False, serial_out = [], lapic_address = 0, mmio_log = [], port_log = []\<rparr>, mc_mouse = 0,
     mc_regs = \<lparr>gdtr = None, reg_cs = 0, reg_ss = 0, reg_ds = 0, task_register = 0\<rparr>, mc_idtr = None,
     mc_ctl = \<lparr>cr0 = 0, cr4 = 0, efer = 0, ctl_lstar = 0, ctl_sfmask = 0, ctl_star = 0\<rparr>\<rparr>"

theorem kernel_ready_witness:
  "\<exists>gdt s'. kernel_init demo_machine_env demo_machine = Inr (gdt, s') \<and> serial1 (mc_io s') \<and> mc_mouse s' = 1 \<and>
     syscall_cs (ctl_star (mc_ctl s')) = reg_cs (mc_regs s')"
proof -
  have "gdt_laws (env_gdt_append demo_machine_env) (\<lambda>g. sum_list (map slots_of g) + 1) (env_gdt_new demo_machine_env)"
    using list_gdt_laws by (simp add: demo_machine_env_def)
  from kernel_ready [OF this, of "0x10000" "0x20000" "0x30000" "0x40000" demo_machine 1 0 0] show ?thesis
    by (auto simp: demo_machine_env_def demo_machine_def virt_laws_def static_stack_def canonical_def STACK_SIZE_def)
qed

text \<open>A machine with 1 MiB of memory, mapped at 1 TiB, and a small screen.\<close>

definition demo_regions :: "mem_region list" where
  "demo_regions = [\<lparr>reg_start = 0x2000, reg_end = 0x102000, reg_kind = Usable\<rparr>]"

abbreviation demo_offset :: u64 where "demo_offset \<equiv> 0x10000000000"

definition demo_boot :: boot_info where
  "demo_boot = \<lparr>physical_memory_offset = Some demo_offset, boot_framebuffer = Some demo_info, memory_regions = demo_regions, rsdp_addr = Some 0xE0000\<rparr>"

abbreviation demo_io_on :: io where
  "demo_io_on \<equiv> \<lparr>serial1 = True, serial_out = [], lapic_address = 0, mmio_log = [], port_log = []\<rparr>"

abbreviation demo_memory :: "slab_mem \<Rightarrow> (u64 \<times> u64) kernel_memory outcome" where
  "demo_memory sm \<equiv> memory_setup demo_frame demo_start Inr Pair demo_paging (\<lambda>_. 0) (\<lambda>_. \<lparr>fnext = None, fprev = None\<rparr>) demo_boot 0x1000 (heap_static sm)
     (\<lambda>_. 7) demo_io_on"

lemma demo_boot_ok: "boot_ok demo_regions demo_info demo_offset"
proof -
  have r: "region_bytes \<lparr>reg_start = 0x2000, reg_end = 0x102000, reg_kind = Usable\<rparr> = {0x2000..<0x102000}" by (simp add: region_bytes_def)
  have u: "b < 0x102000" if "b \<in> usable_bytes demo_regions" for b
    using that by (auto simp: usable_bytes_def demo_regions_def r)
  have "map_ok demo_regions" by (simp add: map_ok_def demo_regions_def MAX_RANGES_def)
  moreover have "buffer_bytes (fb_address demo_info) (unat (fb_stride demo_info) * unat (fb_height demo_info)) \<inter>
      (+) (unat demo_offset) ` usable_bytes demo_regions = {}"
    by (auto simp: buffer_bytes_def demo_info_def)
  ultimately show ?thesis
    unfolding boot_ok_def by (auto simp: demo_info_def MAX_PAGES_def PAGE_SIZE_def buffer_ok_def dest: u)
qed

lemma demo_crate_laws: "paging_laws demo_paging" "virt_laws Inr"
  by (simp_all add: paging_laws_def demo_paging_def virt_laws_def)

lemma demo_boot_init:
  "boot_init demo_regions = Inr \<lparr>free_ranges = range_new 0x2000 0x102000 # replicate 255 range_empty, range_count = 1,
     allocated_bytes = 0, total_bytes = 0x100000\<rparr>"
  using replicate_Suc [of 255 range_empty]
  by (simp add: boot_init_def demo_regions_def u64_add_def u64_sub_def Let_def MAX_RANGES_def sort_ranges_def range_new_def)

lemma demo_buffer_new:
  "framebuffer_new demo_frame demo_start (phys_plus demo_paging) demo_info demo_offset
     \<lparr>free_ranges = range_new 0x2000 0x102000 # replicate 255 range_empty, range_count = 1, allocated_bytes = 0, total_bytes = 0x100000\<rparr> m =
   Inr (\<lparr>front_buffer = 0xE0000000, back_buffer = 0x10000002000, width = 3, height = 2, stride = 4\<rparr>,
     \<lparr>free_ranges = range_new 0x3000 0x102000 # replicate 255 range_empty, range_count = 1, allocated_bytes = 0x1000, total_bytes = 0x100000\<rparr>,
     zero_pixels m 0x10000002000 8)"
  by (simp add: framebuffer_new_def demo_info_def u64_mul_def u64_add_def
      allocate_contiguous_def allocate_contiguous_aligned_def alloc_loop.simps [of _ _ _ _ 0] align_up_def
        u64_sub_def range_new_def Let_def)
   (simp add: take_from_range_def remove_range_def insert_range_sorted_def u64_add_def range_new_def
        Let_def MAX_RANGES_def demo_frame_def range_empty_def demo_start_def demo_paging_def)

lemma demo_memory_set:
  obtains km where "demo_memory sm = Inr km"
    "km_frames km = \<lparr>free_ranges = range_new 0x3000 0x102000 # replicate 255 range_empty, range_count = 1, allocated_bytes = 0x1000,
       total_bytes = 0x100000\<rparr>"
proof -
  have c: "unat demo_offset + unat (0x1000 :: u64) < 2 ^ 47" "serial1 demo_io_on" by simp_all
  show thesis
    using demo_boot_ok demo_frame_laws demo_crate_laws c
  proof (cases rule: memory_setup_run [where rsdp = "Some 0xE0000" and new_table = Pair and links = "\<lambda>_. \<lparr>fnext = None, fprev = None\<rparr>" and sm = sm and m = "\<lambda>_. 7"])
    case (none al)
    then show thesis using demo_boot_init demo_buffer_new by simp
  next
    case (some km al m1)
    then show thesis using demo_boot_init demo_buffer_new by (intro that [of km]) (simp_all add: demo_boot_def)
  qed
qed

theorem boot_memory_correct_witness:
  "\<exists>km. demo_memory \<lparr>headers = \<lambda>_. \<lparr>next_slab = None, freelist = None, in_use = 0\<rparr>, objects = \<lambda>_. None\<rparr> = Inr km \<and>
     heap_rel (km_heap km) (page_addr demo_offset ` boot_pages (km_frames km)) (\<lambda>_. empty_view) {} \<and> 3 \<in> boot_pages (km_frames km)"
proof -
  let ?sm = "\<lparr>headers = \<lambda>_. \<lparr>next_slab = None, freelist = None, in_use = 0\<rparr>, objects = \<lambda>_. None\<rparr> :: slab_mem"
  have c: "unat demo_offset + unat (0x1000 :: u64) < 2 ^ 47" "serial1 demo_io_on" by simp_all
  obtain km where km: "demo_memory ?sm = Inr km"
      "km_frames km = \<lparr>free_ranges = range_new 0x3000 0x102000 # replicate 255 range_empty, range_count = 1, allocated_bytes = 0x1000,
       total_bytes = 0x100000\<rparr>"
    by (rule demo_memory_set)
  have "3 \<in> boot_pages (km_frames km)"
    by (auto simp: km(2) boot_pages_def page_bytes_def free_bytes_def active_def range_bytes_def range_new_def MAX_PAGES_def)
  then show ?thesis
    using boot_memory_correct [OF demo_boot_ok demo_frame_laws demo_crate_laws c demo_boot_def, of Pair "\<lambda>_. \<lparr>fnext = None, fprev = None\<rparr>" ?sm "\<lambda>_. 7"]
      km(1) by auto
qed

theorem boot_frames_shared_witness:
  "\<exists>km al A. demo_memory \<lparr>headers = \<lambda>_. \<lparr>next_slab = None, freelist = None, in_use = 0\<rparr>, objects = \<lambda>_. None\<rparr> = Inr km \<and>
     boot_allocate_frame demo_frame (km_frames km) = Inr (Some 3, al) \<and> heap_rel (km_heap km) A (\<lambda>_. empty_view) {} \<and> 0x10000003000 \<in> A"
proof -
  let ?sm = "\<lparr>headers = \<lambda>_. \<lparr>next_slab = None, freelist = None, in_use = 0\<rparr>, objects = \<lambda>_. None\<rparr> :: slab_mem"
  have c: "unat demo_offset + unat (0x1000 :: u64) < 2 ^ 47" "serial1 demo_io_on" "unat (demo_start 3) < MAX_PAGES * PAGE_SIZE"
    by (simp_all add: demo_start_def MAX_PAGES_def PAGE_SIZE_def)
  obtain km where km: "demo_memory ?sm = Inr km"
      "km_frames km = \<lparr>free_ranges = range_new 0x3000 0x102000 # replicate 255 range_empty, range_count = 1, allocated_bytes = 0x1000,
       total_bytes = 0x100000\<rparr>"
    by (rule demo_memory_set)
  have "\<exists>al. boot_allocate_frame demo_frame (km_frames km) = Inr (Some 3, al)"
    by (simp add: km(2) boot_allocate_frame_def u64_mul_def
      allocate_contiguous_def allocate_contiguous_aligned_def alloc_loop.simps [of _ _ _ _ 0] align_up_def
        u64_add_def u64_sub_def range_new_def Let_def)
     (simp add: take_from_range_def remove_range_def insert_range_sorted_def u64_add_def range_new_def
        Let_def MAX_RANGES_def demo_frame_def range_empty_def)
  then obtain al where al: "boot_allocate_frame demo_frame (km_frames km) = Inr (Some 3, al)" by blast
  from boot_frames_shared [OF demo_boot_ok demo_frame_laws demo_crate_laws c(1,2) km(1) [unfolded demo_boot_def] al c(3)]
  obtain A where "heap_rel (km_heap km) A (\<lambda>_. empty_view) {}" "demo_offset + demo_start 3 \<in> A" by blast
  then show ?thesis using km(1) al by (auto simp: demo_start_def)
qed

end
