(* ===== verification/Heap_Test.thy ===== *)
theory Heap_Test
  imports Elf_Loader Syscall_Heap
begin

text \<open>
  The allocations that \<^verbatim>\<open>main\<close> of \<^verbatim>\<open>kernel/src/main.rs\<close> makes on the filled heap, and keeps: a boxed number, a vector grown by
  500 pushes, a vector in an \<open>Rc\<close>. The types of the standard library are modelled by the calls of the global allocator they make: a vector of
  numbers with its growth, the reference-counted box with its two counters.
\<close>

subsection \<open>Vectors of numbers\<close>

record int_vec =
  ibuf :: u64
  icap :: u64
  ints :: "u32 list"

definition int_vec_new :: int_vec where
  "int_vec_new = \<lparr>ibuf = 4, icap = 0, ints = []\<rparr>"

definition int_layout :: "u64 \<Rightarrow> layout" where
  "int_layout n = \<lparr>lsize = 4 * n, lalign = 4\<rparr>"

definition int_vec_drop :: "heap \<Rightarrow> int_vec \<Rightarrow> heap outcome" where
  "int_vec_drop h v = (if icap v = 0 then Inr h else global_dealloc h (ibuf v) (int_layout (icap v)))"

definition int_vec_grow :: "heap \<Rightarrow> int_vec \<Rightarrow> (int_vec \<times> heap) outcome" where
  "int_vec_grow h v =
     (let newcap = max 4 (max (2 * unat (icap v)) (length (ints v) + 1))
      in if 4 * newcap > 0x7FFFFFFFFFFFFFFF then Inl (PanicMsg ''capacity overflow'')
         else and_then (box_new (4 * of_nat newcap) 4 h) (\<lambda>(p, h).
              and_then (int_vec_drop h v) (\<lambda>h.
              Inr (v\<lparr>ibuf := p, icap := of_nat newcap\<rparr>, h))))"

definition int_vec_push :: "heap \<Rightarrow> int_vec \<Rightarrow> u32 \<Rightarrow> (int_vec \<times> heap) outcome" where
  "int_vec_push h v i =
     and_then (if length (ints v) = unat (icap v) then int_vec_grow h v else Inr (v, h)) (\<lambda>(v, h).
     Inr (v\<lparr>ints := ints v @ [i]\<rparr>, h))"

fun push_each :: "heap \<Rightarrow> int_vec \<Rightarrow> u32 list \<Rightarrow> (int_vec \<times> heap) outcome" where
  "push_each h v [] = Inr (v, h)"
| "push_each h v (i # is) = and_then (int_vec_push h v i) (\<lambda>(v, h). push_each h v is)"

text \<open>The macro \<open>vec!\<close> on a list of literals: a boxed array, taken over as the buffer.\<close>

definition int_vec_of :: "heap \<Rightarrow> u32 list \<Rightarrow> (int_vec \<times> heap) outcome" where
  "int_vec_of h is =
     and_then (box_new (4 * of_nat (length is)) 4 h) (\<lambda>(p, h).
     Inr (\<lparr>ibuf = p, icap = of_nat (length is), ints = is\<rparr>, h))"

subsection \<open>Reference counting\<close>

record rc_inner =
  rc_strong :: u64
  rc_weak :: u64
  rc_value :: int_vec

definition RC_SIZE :: u64 where "RC_SIZE = 40"

definition rc_new :: "heap \<Rightarrow> int_vec \<Rightarrow> (u64 \<times> rc_inner \<times> heap) outcome" where
  "rc_new h v = and_then (box_new RC_SIZE 8 h) (\<lambda>(p, h). Inr (p, \<lparr>rc_strong = 1, rc_weak = 1, rc_value = v\<rparr>, h))"

definition rc_clone :: "rc_inner \<Rightarrow> rc_inner outcome" where
  "rc_clone r =
     (let strong = rc_strong r + 1
      in if strong = 0 then Inl (PanicMsg ''abort'') else Inr (r\<lparr>rc_strong := strong\<rparr>))"

definition rc_drop :: "heap \<Rightarrow> u64 \<Rightarrow> rc_inner \<Rightarrow> (rc_inner \<times> heap) outcome" where
  "rc_drop h p r =
     (let r = r\<lparr>rc_strong := rc_strong r - 1\<rparr>
      in if rc_strong r = 0 then
           and_then (int_vec_drop h (rc_value r)) (\<lambda>h.
           let r = r\<lparr>rc_weak := rc_weak r - 1\<rparr>
           in if rc_weak r = 0 then and_then (global_dealloc h p \<lparr>lsize = RC_SIZE, lalign = 8\<rparr>) (\<lambda>h. Inr (r, h))
              else Inr (r, h))
         else Inr (r, h))"

subsection \<open>The test\<close>

text \<open>What \<open>main\<close> holds on to.\<close>

record kept =
  heap_value :: u64
  kept_vec :: int_vec
  cloned_reference :: u64
  shared :: rc_inner

definition heap_test :: "heap \<Rightarrow> io \<Rightarrow> (kept \<times> heap \<times> io) outcome" where
  "heap_test h io =
     and_then (box_new 4 4 h) (\<lambda>(heap_value, h).
     and_then (serial_println (''heap_value at 0x'' @ hex heap_value) io) (\<lambda>io.
     and_then (push_each h int_vec_new (map of_nat [0..<500])) (\<lambda>(vec, h).
     and_then (serial_println (''vec at 0x'' @ hex (ibuf vec)) io) (\<lambda>io.
     and_then (int_vec_of h [1, 2, 3]) (\<lambda>(v, h).
     and_then (rc_new h v) (\<lambda>(reference_counted, r, h).
     and_then (rc_clone r) (\<lambda>r.
     and_then (serial_println (''current reference count is '' @ dec (rc_strong r)) io) (\<lambda>io.
     and_then (rc_drop h reference_counted r) (\<lambda>(r, h).
     and_then (serial_println (''reference count is '' @ dec (rc_strong r) @ '' now'') io) (\<lambda>io.
     Inr (\<lparr>heap_value = heap_value, kept_vec = vec, cloned_reference = reference_counted, shared = r\<rparr>, h, io)))))))))))"

subsection \<open>Room on the heap\<close>

lemma room_insert:
  assumes "Suc n < card (room P L)"
  shows "n < card (room P (insert b L))"
proof -
  have "room P (insert b L) = room P L - {page_of (fst b)}" by (auto simp: room_def)
  moreover have "card (room P L) - 1 \<le> card (room P L - {page_of (fst b)})" by (simp add: card_Diff_singleton_if)
  ultimately show ?thesis using assms by simp
qed

lemma room_some: "n < card (room P L) \<Longrightarrow> room P L \<noteq> {}"
  by auto

lemma box_new_some:
  assumes "heap_in off h P L" "room P L \<noteq> {}" "n \<le> 4096"
  obtains p h' where "box_new n al h = Inr (p, h')" "(p, block_size \<lparr>lsize = n, lalign = al\<rparr>) \<notin> L"
    "heap_in off h' P (insert (p, block_size \<lparr>lsize = n, lalign = al\<rparr>) L)"
proof -
  let ?l = "\<lparr>lsize = n, lalign = al\<rparr>"
  have "lsize ?l \<le> 4096" using assms(3) by simp
  from heap_in_alloc [OF assms(1,2) this] obtain p h' where "global_alloc h ?l = Inr (p, h')" "p \<noteq> 0"
      "(p, block_size ?l) \<notin> L" "heap_in off h' P (insert (p, block_size ?l) L)" .
  then show thesis by (intro that [of p h']) (simp_all add: box_new_def)
qed

lemma card_page_addr:
  assumes "window_ok off" "S \<subseteq> {..<MAX_PAGES}"
  shows "card (page_addr off ` S) = card S"
  by (rule card_image [OF inj_on_subset [OF page_addr_inj_on [OF assms(1)] assms(2)]])

subsection \<open>Growth of the vector\<close>

definition int_blocks :: "int_vec \<Rightarrow> (u64 \<times> u64) set" where
  "int_blocks v = (if icap v = 0 then {} else {(ibuf v, block_size (int_layout (icap v)))})"

definition int_vec_in :: "u64 \<Rightarrow> heap \<Rightarrow> u64 set \<Rightarrow> (u64 \<times> u64) set \<Rightarrow> int_vec \<Rightarrow> bool" where
  "int_vec_in off h P L v \<longleftrightarrow> heap_in off h P (L \<union> int_blocks v) \<and> int_blocks v \<inter> L = {}"

lemma int_vec_in_upd [simp]: "int_vec_in off h P L (v\<lparr>ints := xs\<rparr>) = int_vec_in off h P L v"
  by (simp add: int_vec_in_def int_blocks_def)

lemma int_vec_drop_run:
  assumes "heap_in off h P (insert b (L \<union> int_blocks v))" "int_blocks v \<inter> insert b L = {}"
  obtains h' where "int_vec_drop h v = Inr h'" "heap_in off h' P (insert b L)"
proof (cases "icap v = 0")
  case True
  then show thesis using assms by (intro that [of h]) (simp_all add: int_vec_drop_def int_blocks_def)
next
  case False
  let ?b = "(ibuf v, block_size (int_layout (icap v)))"
  have r: "heap_in off h P (insert ?b (insert b L))" "?b \<notin> insert b L" using assms False by (auto simp: int_blocks_def insert_commute)
  obtain h' where "global_dealloc h (ibuf v) (int_layout (icap v)) = Inr h'" "heap_in off h' P (insert ?b (insert b L) - {?b})"
    by (rule heap_in_dealloc [OF r(1) insertI1])
  then show thesis using False r(2) by (intro that [of h']) (simp_all add: int_vec_drop_def)
qed

lemma room_blocks: "Suc n < card (room P L) \<Longrightarrow> n < card (room P (L \<union> int_blocks v))"
  using room_insert [of n P L] by (auto simp: int_blocks_def)

lemma int_vec_grow_run:
  assumes v: "int_vec_in off h P L v" and room: "1 < card (room P L)"
    and n: "n = max 4 (max (2 * unat (icap v)) (length (ints v) + 1))" "n \<le> 512"
  obtains v' h' where "int_vec_grow h v = Inr (v', h')" "int_vec_in off h' P L v'" "unat (icap v') = n" "ints v' = ints v"
proof -
  let ?l = "\<lparr>lsize = 4 * of_nat n, lalign = 4\<rparr>" and ?v = "\<lambda>p. v\<lparr>ibuf := p, icap := of_nat n\<rparr>"
  have u: "unat (of_nat n :: u64) = n" using n(2) by (intro unat_of_nat_u64) simp
  have "4 * of_nat n \<le> (4096 :: u64)"
  proof -
    have "unat (4 * of_nat n :: u64) = 4 * n" using unat_mult_lem [of 4 "of_nat n :: u64"] n(2) by (simp add: u)
    then show ?thesis using n(2) by (simp add: word_le_nat_alt)
  qed
  moreover have "room P (L \<union> int_blocks v) \<noteq> {}" using room_blocks [of 0 P L v] room by (intro room_some) simp
  moreover have "heap_in off h P (L \<union> int_blocks v)" "int_blocks v \<inter> L = {}" using v by (simp_all add: int_vec_in_def)
  ultimately obtain p h1 where b: "box_new (4 * of_nat n) 4 h = Inr (p, h1)" "(p, block_size ?l) \<notin> L \<union> int_blocks v"
      "heap_in off h1 P (insert (p, block_size ?l) (L \<union> int_blocks v))" "int_blocks v \<inter> L = {}"
    by (metis box_new_some)
  then have "int_blocks v \<inter> insert (p, block_size ?l) L = {}" by auto
  from int_vec_drop_run [OF b(3) this] obtain h2 where h2: "int_vec_drop h1 v = Inr h2" "heap_in off h2 P (insert (p, block_size ?l) L)" .
  have g: "int_vec_grow h v = Inr (?v p, h2)"
    unfolding int_vec_grow_def n(1) [symmetric] Let_def using b(1) h2(1) n(2) by simp
  have "n \<noteq> 0" using n(1) by simp
  then have "(of_nat n :: u64) \<noteq> 0" using u by (metis unsigned_0)
  then have "int_blocks (?v p) = {(p, block_size ?l)}" by (simp add: int_blocks_def int_layout_def)
  then show thesis using g h2(2) b(2) u by (intro that [of "?v p" h2]) (simp_all add: int_vec_in_def)
qed

text \<open>The capacity of a vector that has grown from empty to \<open>n\<close> elements by pushes.\<close>

definition pushed_cap :: "nat \<Rightarrow> nat" where
  "pushed_cap n =
     (if n = 0 then 0 else if n \<le> 4 then 4 else if n \<le> 8 then 8 else if n \<le> 16 then 16 else if n \<le> 32 then 32
      else if n \<le> 64 then 64 else if n \<le> 128 then 128 else if n \<le> 256 then 256 else 512)"

lemma pushed_cap_full:
  assumes "n = pushed_cap n" "n < 512"
  shows "pushed_cap (Suc n) = max 4 (max (2 * pushed_cap n) (n + 1))" "pushed_cap (Suc n) \<le> 512"
proof -
  have "n \<in> {0, 4, 8, 16, 32, 64, 128, 256, 512}" using assms(1) by (simp add: pushed_cap_def split: if_splits)
  then show "pushed_cap (Suc n) = max 4 (max (2 * pushed_cap n) (n + 1))" "pushed_cap (Suc n) \<le> 512"
    using assms(2) by (auto simp: pushed_cap_def)
qed

lemma pushed_cap_free: "n \<noteq> pushed_cap n \<Longrightarrow> n < 512 \<Longrightarrow> pushed_cap (Suc n) = pushed_cap n"
  by (auto simp: pushed_cap_def split: if_splits)

lemma int_vec_push_run:
  assumes v: "int_vec_in off h P L v" "unat (icap v) = pushed_cap (length (ints v))" and room: "1 < card (room P L)"
    and n: "length (ints v) < 512"
  obtains v' h' where "int_vec_push h v i = Inr (v', h')" "int_vec_in off h' P L v'" "ints v' = ints v @ [i]"
    "unat (icap v') = pushed_cap (length (ints v'))"
proof (cases "length (ints v) = unat (icap v)")
  case True
  then have f: "length (ints v) = pushed_cap (length (ints v))" using v(2) by simp
  obtain v' h' where g: "int_vec_grow h v = Inr (v', h')" "int_vec_in off h' P L v'" "unat (icap v') = pushed_cap (Suc (length (ints v)))"
      "ints v' = ints v"
    by (rule int_vec_grow_run [OF v(1) room, of "pushed_cap (Suc (length (ints v)))"])
       (use pushed_cap_full [OF f n] in \<open>simp_all add: v(2)\<close>)
  then show thesis using True
    by (intro that [of "v'\<lparr>ints := ints v @ [i]\<rparr>" h']) (simp_all add: int_vec_push_def)
next
  case False
  then show thesis using v pushed_cap_free [OF _ n]
    by (intro that [of "v\<lparr>ints := ints v @ [i]\<rparr>" h]) (simp_all add: int_vec_push_def)
qed

lemma push_each_run:
  assumes "int_vec_in off h P L v" "unat (icap v) = pushed_cap (length (ints v))" "1 < card (room P L)" "length (ints v) + length xs \<le> 512"
  shows "\<exists>v' h'. push_each h v xs = Inr (v', h') \<and> int_vec_in off h' P L v' \<and> ints v' = ints v @ xs \<and>
    unat (icap v') = pushed_cap (length (ints v @ xs))"
  using assms
proof (induction xs arbitrary: h v)
  case (Cons i xs)
  have "length (ints v) < 512" using Cons.prems(4) by simp
  from int_vec_push_run [OF Cons.prems(1-3) this] obtain v1 h1 where 1: "int_vec_push h v i = Inr (v1, h1)" "int_vec_in off h1 P L v1"
      "ints v1 = ints v @ [i]" "unat (icap v1) = pushed_cap (length (ints v1))" .
  have "length (ints v1) + length xs \<le> 512" using Cons.prems(4) by (simp add: 1(3))
  from Cons.IH [OF 1(2,4) Cons.prems(3) this] 1(1,3) show ?case by auto
qed auto

subsection \<open>What the test leaves\<close>

text \<open>The blocks that \<open>main\<close> keeps, and what the console shows.\<close>

definition kept_blocks :: "kept \<Rightarrow> (u64 \<times> u64) set" where
  "kept_blocks k = {(heap_value k, 16), (ibuf (kept_vec k), 2048), (ibuf (rc_value (shared k)), 16), (cloned_reference k, 64)}"

definition test_log :: "kept \<Rightarrow> string" where
  "test_log k = ''heap_value at 0x'' @ hex (heap_value k) @ newline @ ''vec at 0x'' @ hex (ibuf (kept_vec k)) @ newline @
     ''current reference count is 2'' @ newline @ ''reference count is 1 now'' @ newline"

lemma test_sizes:
  "block_size \<lparr>lsize = 4, lalign = 4\<rparr> = 16" "block_size \<lparr>lsize = 12, lalign = 4\<rparr> = 16" "block_size \<lparr>lsize = RC_SIZE, lalign = 8\<rparr> = 64"
  "block_size (int_layout 512) = 2048"
  by (simp_all add: block_size_def class_size_def cache_index_def int_layout_def RC_SIZE_def)

lemma println_on:
  "serial1 io \<Longrightarrow> serial_println t io = Inr (io\<lparr>serial_out := serial_out io @ t @ newline\<rparr>)"
  by (simp add: serial_println_def serial_print_def)

lemma pushed_500:
  assumes "heap_in off h P L" "1 < card (room P L)"
  obtains v h' where "push_each h int_vec_new (map of_nat [0..<500]) = Inr (v, h')" "heap_in off h' P (insert (ibuf v, 2048) L)"
    "(ibuf v, 2048) \<notin> L" "ints v = map of_nat [0..<500]"
proof -
  have "int_vec_in off h P L int_vec_new" using assms(1) by (simp add: int_vec_in_def int_blocks_def int_vec_new_def)
  moreover have "unat (icap int_vec_new) = pushed_cap (length (ints int_vec_new))" by (simp add: int_vec_new_def pushed_cap_def)
  moreover have "length (ints int_vec_new) + length (map of_nat [0..<500] :: u32 list) \<le> 512" by (simp add: int_vec_new_def)
  ultimately obtain v h' where v: "push_each h int_vec_new (map of_nat [0..<500]) = Inr (v, h')" "int_vec_in off h' P L v"
      "ints v = map of_nat [0..<500]" "unat (icap v) = pushed_cap 500"
    using push_each_run [OF _ _ assms(2), of off h int_vec_new "map of_nat [0..<500]"] by (auto simp: int_vec_new_def)
  have "icap v = 512" using v(4) by (simp add: pushed_cap_def word_unat_eq_iff)
  then have "int_blocks v = {(ibuf v, 2048)}" by (simp add: int_blocks_def test_sizes)
  then show thesis using v by (intro that [of v h']) (simp_all add: int_vec_in_def)
qed

lemma heap_test_run:
  assumes heap: "heap_in off h P L" "3 < card (room P L)" and on: "serial1 io"
  obtains k h' where "heap_test h io = Inr (k, h', io\<lparr>serial_out := serial_out io @ test_log k\<rparr>)"
    "heap_in off h' P (L \<union> kept_blocks k)" "kept_blocks k \<inter> L = {}" "card (kept_blocks k) = 4"
    "ints (kept_vec k) = map of_nat [0..<500]" "ints (rc_value (shared k)) = [1, 2, 3]" "rc_strong (shared k) = 1"
proof -
  obtain a h1 where a: "box_new 4 4 h = Inr (a, h1)" "(a, 16) \<notin> L" "heap_in off h1 P (insert (a, 16) L)"
    by (rule box_new_some [OF heap(1) room_some [OF heap(2)], of 4 4]) (simp_all add: test_sizes)
  let ?L1 = "insert (a, 16) L"
  have r1: "2 < card (room P ?L1)" using heap(2) by (intro room_insert [of _ P L]) simp
  then have "1 < card (room P ?L1)" by simp
  from pushed_500 [OF a(3) this] obtain v h2 where v: "push_each h1 int_vec_new (map of_nat [0..<500]) = Inr (v, h2)"
      "heap_in off h2 P (insert (ibuf v, 2048) ?L1)" "(ibuf v, 2048) \<notin> ?L1" "ints v = map of_nat [0..<500]" .
  let ?L2 = "insert (ibuf v, 2048) ?L1"
  have r2: "1 < card (room P ?L2)" using r1 by (intro room_insert [of _ P ?L1]) simp
  obtain b h3 where b: "box_new 12 4 h2 = Inr (b, h3)" "(b, 16) \<notin> ?L2" "heap_in off h3 P (insert (b, 16) ?L2)"
    by (rule box_new_some [OF v(2) room_some [OF r2], of 12 4]) (simp_all add: test_sizes)
  let ?L3 = "insert (b, 16) ?L2"
  have r3: "0 < card (room P ?L3)" using r2 by (intro room_insert [of _ P ?L2]) simp
  obtain c h4 where c: "box_new RC_SIZE 8 h3 = Inr (c, h4)" "(c, 64) \<notin> ?L3" "heap_in off h4 P (insert (c, 64) ?L3)"
    by (rule box_new_some [OF b(3) room_some [OF r3], of RC_SIZE 8]) (simp_all add: test_sizes, simp add: RC_SIZE_def)
  let ?v = "\<lparr>ibuf = b, icap = 3, ints = [1, 2, 3]\<rparr>"
  let ?k = "\<lparr>heap_value = a, kept_vec = v, cloned_reference = c, shared = \<lparr>rc_strong = 1, rc_weak = 1, rc_value = ?v\<rparr>\<rparr>"
  have d: "dec 2 = ''2''" "dec 1 = ''1''" by code_simp+
  have "heap_test h io = Inr (?k, h4, io\<lparr>serial_out := serial_out io @ test_log ?k\<rparr>)"
    using a(1) v(1) b(1) c(1) on
    by (simp add: heap_test_def println_on int_vec_of_def rc_new_def rc_clone_def rc_drop_def test_log_def d Let_def)
  moreover have "insert (c, 64) ?L3 = L \<union> kept_blocks ?k" by (auto simp: kept_blocks_def)
  moreover have "kept_blocks ?k \<inter> L = {}" "card (kept_blocks ?k) = 4"
    using a(2) v(3) b(2) c(2) by (auto simp: kept_blocks_def)
  ultimately show thesis using c(3) v(4) by (intro that [of ?k h4]) simp_all
qed

text \<open>
  C35: The test of the heap in \<open>main\<close>: with four free pages it runs through, the vector holds the 500 numbers in order and the counter of the
  shared vector is reported as 2 and, after one owner is gone, as 1. Of the eleven allocations, all of the vector's old buffers are given back: the heap
  then has exactly four more blocks in use, of the size classes of a number, 512 numbers, 3 numbers and the counted box, and these
  are new and do not overlap.
\<close>

theorem heap_test_correct:
  assumes "heap_is h P L" "3 < card (room P L)" "serial1 io"
  shows "\<exists>k h'. heap_test h io = Inr (k, h', io\<lparr>serial_out := serial_out io @ test_log k\<rparr>) \<and>
    ints (kept_vec k) = map of_nat [0..<500] \<and> ints (rc_value (shared k)) = [1, 2, 3] \<and> rc_strong (shared k) = 1 \<and>
    heap_is h' P (L \<union> kept_blocks k) \<and> kept_blocks k \<inter> L = {} \<and> card (kept_blocks k) = 4 \<and>
    pairwise (\<lambda>b b'. block_bytes b \<inter> block_bytes b' = {}) (L \<union> kept_blocks k)"
proof -
  obtain off where off: "heap_in off h P L" using heap_is_in [OF assms(1)] by blast
  obtain k h' where k: "heap_test h io = Inr (k, h', io\<lparr>serial_out := serial_out io @ test_log k\<rparr>)"
    "heap_in off h' P (L \<union> kept_blocks k)" "kept_blocks k \<inter> L = {}" "card (kept_blocks k) = 4"
    "ints (kept_vec k) = map of_nat [0..<500]" "ints (rc_value (shared k)) = [1, 2, 3]" "rc_strong (shared k) = 1"
    by (rule heap_test_run [OF off assms(2,3)])
  have h: "heap_is h' P (L \<union> kept_blocks k)" using k(2) by (simp add: heap_in_def)
  have "pairwise (\<lambda>b b'. block_bytes b \<inter> block_bytes b' = {}) (L \<union> kept_blocks k)"
    using heap_is_apart [OF h] by (simp add: pairwise_def)
  then show ?thesis using k(1,3-7) h by (intro exI conjI)
qed

theorem heap_test_correct_witness:
  "\<exists>k h' io'. heap_test demo_heap \<lparr>serial1 = True, serial_out = [], lapic_address = 0, mmio_log = [], port_log = []\<rparr> = Inr (k, h', io') \<and>
     heap_is h' demo_pages (kept_blocks k) \<and> card (kept_blocks k) = 4"
proof -
  have h: "heap_is demo_heap demo_pages {}" by (rule heap_is_new [OF demo_heap_rel])
  have "card demo_pages = 2048"
    unfolding demo_pages_def by (subst card_page_addr) (auto simp: window_ok_def MAX_PAGES_def PAGE_SIZE_def)
  then have "3 < card (room demo_pages {})" by (simp add: room_def)
  from heap_test_correct [OF h this, of "\<lparr>serial1 = True, serial_out = [], lapic_address = 0, mmio_log = [], port_log = []\<rparr>"]
  show ?thesis by auto
qed

end
