(* ===== verification/Kernel_Main.thy ===== *)
theory Kernel_Main
  imports Kernel_Entry Heap_Test
begin






subsection \<open>What the kernel relies on\<close>






subsection \<open>The controllers\<close>


subsection \<open>From the heap to the frames of the loader\<close>






subsection \<open>The way to the first program\<close>




subsection \<open>A concrete boot\<close>















end
