(* ===== verification/User_Program.thy ===== *)
theory User_Program
  imports Elf_Correct Syscall_Correct
begin

text \<open>
  The embedded program (\<^verbatim>\<open>userspace/rs_helloworld/src/main.rs\<close>): \<open>print\<close>, whose inline assembly makes a system call, and \<open>main\<close>.

  \<open>user_print\<close> runs from the operands of the inline assembly to the instruction after \<open>syscall\<close>. The program's
  memory is what its page tables make of the physical memory the ELF loader has filled, so what is shown here spans the
  loader, the assembly of the system call, the kernel's reading of user memory, the heap and the console.
\<close>

definition user_print :: "(u64 \<Rightarrow> u64 \<Rightarrow> u64 \<Rightarrow> u64) \<Rightarrow> 'k callee \<Rightarrow> instr list \<Rightarrow> u64 \<Rightarrow> u64 \<Rightarrow> u64 \<Rightarrow> 'k \<Rightarrow> cpu \<Rightarrow> (cpu \<times> 'k) outcome" where
  "user_print alu callee handler nxt ptr len k c =
     (let c = c\<lparr>gpr := (gpr c)(RAX := 1, RDI := 1, RSI := ptr, RDX := len)\<rparr>
      in exec alu callee handler k (syscall_instr nxt c))"

text \<open>
  \<open>main\<close> of the program up to the \<open>n\<close>-th turn of its endless loop. A string is its address and length. What the compiler puts
  between the calls, the loop of \<open>pause\<close> instructions included, is \<open>glue\<close>, and \<open>nxt\<close> gives the addresses behind the
  \<open>syscall\<close> instructions.
\<close>

fun run_prints :: "(u64 \<Rightarrow> u64 \<Rightarrow> u64 \<Rightarrow> u64) \<Rightarrow> 'k callee \<Rightarrow> instr list \<Rightarrow> ((cpu \<Rightarrow> cpu) \<times> u64 \<times> u64 \<times> u64) list \<Rightarrow> 'k \<Rightarrow> cpu \<Rightarrow>
    (cpu \<times> 'k) outcome" where
  "run_prints alu callee handler [] k c = Inr (c, k)"
| "run_prints alu callee handler ((glue, nxt, ptr, len) # ps) k c =
     and_then (user_print alu callee handler nxt ptr len k (glue c)) (\<lambda>(c, k). run_prints alu callee handler ps k c)"

definition user_main :: "(u64 \<Rightarrow> u64 \<Rightarrow> u64 \<Rightarrow> u64) \<Rightarrow> 'k callee \<Rightarrow> instr list \<Rightarrow> (nat \<Rightarrow> cpu \<Rightarrow> cpu) \<Rightarrow> (nat \<Rightarrow> u64) \<Rightarrow>
    u64 \<times> u64 \<Rightarrow> u64 \<times> u64 \<Rightarrow> u64 \<times> u64 \<Rightarrow> nat \<Rightarrow> 'k \<Rightarrow> cpu \<Rightarrow> (cpu \<times> 'k) outcome" where
  "user_main alu callee handler glue nxt test more_test hello n =
     run_prints alu callee handler
       ([(glue 0, nxt 0, test), (glue 1, nxt 1, more_test), (glue 2, nxt 2, test)] @ map (\<lambda>i. (glue (i + 3), nxt 3, hello)) [0..<n])"

subsection \<open>What a program prints reaches the console\<close>

text \<open>The bytes that the page tables of the loaded program show at its addresses.\<close>

definition user_memory :: "'m page_view \<Rightarrow> u64 \<Rightarrow> ('m, 'a) loader \<Rightarrow> u64 \<Rightarrow> u8 option" where
  "user_memory V off s a = map_option snd (user_byte V off s a)"

text \<open>Text in the file data of a loadable segment: \<open>n\<close> bytes from the program's address \<open>p\<close> on.\<close>

definition file_text :: "u8 list \<Rightarrow> program_header \<Rightarrow> u64 \<Rightarrow> nat \<Rightarrow> u8 list" where
  "file_text data ph p n = take n (drop (unat (p_offset ph) + (unat p - unat (p_vaddr ph))) data)"

lemma image_buffer:
  assumes img: "elf_image E data V off s" and i: "i < unat (e_phnum (header_at E data))" "ph = phdr_of E data i" "p_type ph = 1"
    and ok: "seg_ok data ph" and p: "p \<noteq> 0" "unat (p_vaddr ph) \<le> unat p" "unat p + n \<le> unat (p_vaddr ph) + unat (p_filesz ph)"
  shows "user_buffer (user_memory V off s) p (file_text data ph p n)" "length (file_text data ph p n) = n"
proof -
  let ?o = "unat (p_offset ph) + (unat p - unat (p_vaddr ph))"
  have o: "unat (p_vaddr ph) + unat (p_memsz ph) + 4096 < 2 ^ 47" "unat (p_filesz ph) \<le> unat (p_memsz ph)"
      "unat (p_offset ph) + unat (p_filesz ph) \<le> length data"
    using ok by (simp_all add: seg_ok_def word_le_nat_alt)
  have ol: "?o + n \<le> length data" using o(3) p(2,3) by linarith
  then show len: "length (file_text data ph p n) = n" by (simp add: file_text_def)
  have "user_memory V off s (p + of_nat j) = Some (file_text data ph p n ! j)" if j: "j < n" for j
  proof -
    have a: "unat (p + of_nat j) = unat p + j"
      using j p o(1,2) unat_of_nat_u64 [of j] unat_add_u64 [of p "of_nat j"] by simp
    have "user_byte V off s (p + of_nat j) = Some (seg_flags ph, seg_byte data ph (unat (p + of_nat j)))"
      using img i p(2,3) j o(2) unfolding elf_image_def by (auto simp: a)
    moreover have "seg_byte data ph (unat p + j) = data ! (?o + j)"
      using p(2,3) j by (simp add: seg_byte_def add.assoc)
    ultimately show ?thesis using j ol by (simp add: user_memory_def a file_text_def)
  qed
  moreover have "unat p + n \<le> 2 ^ 47" "unat p < 2 ^ 47" using p(3) o(1,2) by linarith+
  ultimately show "user_buffer (user_memory V off s) p (file_text data ph p n)"
    using p(1) by (simp add: user_buffer_def len)
qed

text \<open>
  A string constant of a program that the ELF loader has put into memory: \<open>print\<close> shows exactly its bytes on the console, after
  the prefix and followed by a newline, and returns behind the \<open>syscall\<close> instruction with only the registers
  changed that the inline assembly declares (\<open>RAX\<close>, \<open>RCX\<close>, \<open>R11\<close>; its inputs keep their values); the heap has the same pages
  and blocks in use as before.
\<close>

lemma print_run:
  assumes img: "elf_image E data V off s" and i: "i < unat (e_phnum (header_at E data))" "ph = phdr_of E data i" "p_type ph = 1"
    and ok: "seg_ok data ph" and p: "p \<noteq> 0" "unat (p_vaddr ph) \<le> unat p" "unat p + n \<le> unat (p_vaddr ph) + unat (p_filesz ph)"
    and str: "n \<le> 4096" "valid_utf8 (file_text data ph p n)"
    and k: "heap_is (sheap k) P L" "room P L \<noteq> {}" "serial1 (sio k)"
    and call: "entry_callee (user_memory V off s) callee" "temp_apart t ks"
  shows "\<exists>c' k'. user_print alu callee (syscall_handler t ks e) nxt p (of_nat n) k c = Inr (c', k') \<and>
    sio k' = (sio k)\<lparr>serial_out := serial_out (sio k) @ user_line (file_text data ph p n)\<rparr> \<and>
    gpr c' = (gpr c)(RAX := 0, RDI := 1, RSI := p, RDX := of_nat n, RCX := nxt, R11 := rflags c) \<and>
    rip c' = nxt \<and> rflags c' = rflags c \<and> heap_is (sheap k') P L"
proof -
  let ?c = "c\<lparr>gpr := (gpr c)(RAX := 1, RDI := 1, RSI := p, RDX := of_nat n)\<rparr>" and ?bs = "file_text data ph p n"
  note buf = image_buffer [OF img i ok p]
  obtain k' where w:
      "syscall_entry (user_memory V off s) k 1 1 p (of_nat n) (gpr c R10) (gpr c R8) = Inr (0, k')"
      "sio k' = (sio k)\<lparr>serial_out := serial_out (sio k) @ user_line ?bs\<rparr>" "heap_is (sheap k') P L"
    using write_run [OF k buf(1) _ str(2), of 1 "gpr c R10" "gpr c R8"] str(1) by (auto simp: buf(2))
  obtain c' where c': "exec alu callee (syscall_handler t ks e) k (syscall_instr nxt ?c) = Inr (c', k')"
      "gpr c' = (gpr ?c)(RAX := 0, RCX := nxt, R11 := rflags ?c)" "rip c' = nxt" "rflags c' = rflags ?c"
    using handler_run [OF call, where k = k and c = ?c and alu = alu and e = e and nxt = nxt] w(1) by auto
  have "gpr c' = (gpr c)(RAX := 0, RDI := 1, RSI := p, RDX := of_nat n, RCX := nxt, R11 := rflags c)"
    unfolding c'(2) by (rule ext) simp
  then show ?thesis using c' w(2,3) by (auto simp: user_print_def Let_def)
qed

subsection \<open>The program never stops\<close>

text \<open>The text \<open>t\<close> is a string constant at \<open>p\<close>: ASCII characters in the file data of a loadable segment.\<close>

definition string_at :: "('m, 'a, 'f) elf_env \<Rightarrow> u8 list \<Rightarrow> string \<Rightarrow> u64 \<Rightarrow> bool" where
  "string_at E data t p \<longleftrightarrow> p \<noteq> 0 \<and> length t \<le> 4096 \<and>
     (\<exists>i<unat (e_phnum (header_at E data)). p_type (phdr_of E data i) = 1 \<and> seg_ok data (phdr_of E data i) \<and>
        unat (p_vaddr (phdr_of E data i)) \<le> unat p \<and>
        unat p + length t \<le> unat (p_vaddr (phdr_of E data i)) + unat (p_filesz (phdr_of E data i)) \<and>
        (\<forall>b\<in>set (file_text data (phdr_of E data i) p (length t)). b < 0x80) \<and>
        text_of (file_text data (phdr_of E data i) p (length t)) = t)"

text \<open>The line the console shows for a text.\<close>

definition line :: "string \<Rightarrow> string" where
  "line t = ''[user] '' @ t @ newline"

lemma print_string:
  assumes "elf_image E data V off s" "string_at E data t p" "heap_is (sheap k) P L" "room P L \<noteq> {}" "serial1 (sio k)"
    "entry_callee (user_memory V off s) callee" "temp_apart tp ks"
  shows "\<exists>c' k'. user_print alu callee (syscall_handler tp ks e) nxt p (of_nat (length t)) k c = Inr (c', k') \<and>
    sio k' = (sio k)\<lparr>serial_out := serial_out (sio k) @ line t\<rparr> \<and> heap_is (sheap k') P L"
proof -
  obtain i where i: "i < unat (e_phnum (header_at E data))" "p_type (phdr_of E data i) = 1" "seg_ok data (phdr_of E data i)"
      "unat (p_vaddr (phdr_of E data i)) \<le> unat p"
      "unat p + length t \<le> unat (p_vaddr (phdr_of E data i)) + unat (p_filesz (phdr_of E data i))"
      "\<forall>b\<in>set (file_text data (phdr_of E data i) p (length t)). b < 0x80"
      "text_of (file_text data (phdr_of E data i) p (length t)) = t" "p \<noteq> 0" "length t \<le> 4096"
    using assms(2) by (auto simp: string_at_def)
  have "user_line (file_text data (phdr_of E data i) p (length t)) = line t" by (simp add: user_line_def line_def i(7))
  then show ?thesis
    using print_run [OF assms(1) i(1) refl i(2,3,8,4,5,9) valid_ascii [OF i(6)] assms(3-7), where alu = alu and e = e and nxt = nxt and c = c]
    by auto
qed

lemma run_prints_shows:
  assumes "elf_image E data V off s" "heap_is (sheap k) P L" "room P L \<noteq> {}" "serial1 (sio k)"
    "entry_callee (user_memory V off s) callee" "temp_apart tp ks"
    "\<forall>x\<in>set ps. case x of (t, g, nx, p) \<Rightarrow> string_at E data t p"
  shows "\<exists>c' k'. run_prints alu callee (syscall_handler tp ks e) (map (\<lambda>(t, g, nx, p). (g, nx, p, of_nat (length t))) ps) k c = Inr (c', k') \<and>
    sio k' = (sio k)\<lparr>serial_out := serial_out (sio k) @ concat (map (line \<circ> fst) ps)\<rparr> \<and> heap_is (sheap k') P L"
  using assms(2,4,7)
proof (induction ps arbitrary: k c)
  case (Cons x ps)
  obtain t g nx p where x: "x = (t, g, nx, p)" by (cases x) auto
  have "string_at E data t p" using Cons.prems(3) by (simp add: x)
  then obtain c1 k1 where 1: "user_print alu callee (syscall_handler tp ks e) nx p (of_nat (length t)) k (g c) = Inr (c1, k1)"
      "sio k1 = (sio k)\<lparr>serial_out := serial_out (sio k) @ line t\<rparr>" "heap_is (sheap k1) P L"
    using print_string [OF assms(1) _ Cons.prems(1) assms(3) Cons.prems(2) assms(5,6)] by blast
  have "serial1 (sio k1)" "\<forall>x\<in>set ps. case x of (t, g, nx, p) \<Rightarrow> string_at E data t p" using Cons.prems(2,3) 1(2) by simp_all
  from Cons.IH [OF 1(3) this] obtain c2 k2 where "run_prints alu callee (syscall_handler tp ks e) (map (\<lambda>(t, g, nx, p). (g, nx, p, of_nat (length t))) ps) k1 c1 = Inr (c2, k2)"
      "sio k2 = (sio k1)\<lparr>serial_out := serial_out (sio k1) @ concat (map (line \<circ> fst) ps)\<rparr>" "heap_is (sheap k2) P L"
    by blast
  then show ?case using 1 by (auto simp: x comp_def)
qed simp

text \<open>
  The embedded program runs forever: for every \<open>n\<close>, its \<open>main\<close> reaches the \<open>n\<close>-th turn of the loop without a panic of the kernel, and the
  console then shows exactly its four texts in order, the last one \<open>n\<close> times. One free page in the heap is enough for all the
  calls, which leave the heap as it was.
\<close>

lemma main_prints:
  assumes img: "elf_image E data V off s"
    and strs: "string_at E data ''Test'' p1" "string_at E data ''More test'' p2" "string_at E data ''Hello, world!'' p3"
    and k: "heap_is (sheap k) P L" "room P L \<noteq> {}" "serial1 (sio k)"
    and call: "entry_callee (user_memory V off s) callee" "temp_apart t ks"
  shows "\<exists>c' k'. user_main alu callee (syscall_handler t ks e) glue nxt (p1, 4) (p2, 9) (p3, 13) n k c = Inr (c', k') \<and>
    serial_out (sio k') = serial_out (sio k) @
      concat (map line ([''Test'', ''More test'', ''Test''] @ replicate n ''Hello, world!'')) \<and>
    heap_is (sheap k') P L"
proof -
  let ?ps = "[(''Test'', glue 0, nxt 0, p1), (''More test'', glue 1, nxt 1, p2), (''Test'', glue 2, nxt 2, p1)] @
    map (\<lambda>i. (''Hello, world!'', glue (i + 3), nxt 3, p3)) [0..<n]"
  have lines: "map (line \<circ> fst) ?ps = map line ([''Test'', ''More test'', ''Test''] @ replicate n ''Hello, world!'')"
    by (simp add: comp_def map_replicate_const)
  have calls: "map (\<lambda>(t, g, nx, p). (g, nx, p, of_nat (length t))) ?ps =
      [(glue 0, nxt 0, p1, 4), (glue 1, nxt 1, p2, 9), (glue 2, nxt 2, p1, 4)] @ map (\<lambda>i. (glue (i + 3), nxt 3, p3, 13)) [0..<n]"
    by (simp add: comp_def)
  have strings: "\<forall>x\<in>set ?ps. case x of (t, g, nx, p) \<Rightarrow> string_at E data t p" using strs by auto
  obtain c' k' where "run_prints alu callee (syscall_handler t ks e) (map (\<lambda>(t, g, nx, p). (g, nx, p, of_nat (length t))) ?ps) k c = Inr (c', k')"
      "sio k' = (sio k)\<lparr>serial_out := serial_out (sio k) @ concat (map (line \<circ> fst) ?ps)\<rparr>" "heap_is (sheap k') P L"
    using run_prints_shows [OF img k call strings] by blast
  then show ?thesis unfolding calls lines user_main_def by (intro exI [of _ c'] exI [of _ k']) simp
qed

subsection \<open>Concrete instances\<close>

definition demo_call :: "(u64 \<Rightarrow> u8 option) \<Rightarrow> sys callee" where
  "demo_call umem k c =
     and_then (syscall_entry umem k (gpr c RDI) (gpr c RSI) (gpr c RDX) (gpr c RCX) (gpr c R8) (gpr c R9)) (\<lambda>(r, k').
     Inr (c\<lparr>gpr := (gpr c)(RAX := r, RDI := 0, R10 := 0)\<rparr>, k'))"

lemma demo_call_entry: "entry_callee umem (demo_call umem)"
  unfolding entry_callee_def demo_call_def callee_saved_def by (auto split: sum.splits)

lemma demo_segment:
  "0 < unat (e_phnum (header_at demo_env demo_elf))" "p_type (phdr_of demo_env demo_elf 0) = 1"
  "seg_ok demo_elf (phdr_of demo_env demo_elf 0)"
  by (simp_all add: demo_header demo_phdr seg_ok_def demo_lengths)

lemma demo_strings:
  "string_at demo_env demo_elf ''Test'' 0x40007C" "string_at demo_env demo_elf ''More test'' 0x400080"
  "string_at demo_env demo_elf ''Hello, world!'' 0x400089"
proof -
  have t: "file_text demo_elf (phdr_of demo_env demo_elf 0) 0x40007C 4 = [0x54, 0x65, 0x73, 0x74]"
      "file_text demo_elf (phdr_of demo_env demo_elf 0) 0x400080 9 = [0x4D, 0x6F, 0x72, 0x65, 0x20, 0x74, 0x65, 0x73, 0x74]"
      "file_text demo_elf (phdr_of demo_env demo_elf 0) 0x400089 13 =
         [0x48, 0x65, 0x6C, 0x6C, 0x6F, 0x2C, 0x20, 0x77, 0x6F, 0x72, 0x6C, 0x64, 0x21]"
    unfolding file_text_def demo_phdr by (simp_all add: demo_elf_def demo_elf_header_def)
  have c: "text_of [0x54, 0x65, 0x73, 0x74] = ''Test''"
      "text_of [0x4D, 0x6F, 0x72, 0x65, 0x20, 0x74, 0x65, 0x73, 0x74] = ''More test''"
      "text_of [0x48, 0x65, 0x6C, 0x6C, 0x6F, 0x2C, 0x20, 0x77, 0x6F, 0x72, 0x6C, 0x64, 0x21] = ''Hello, world!''"
    by code_simp+
  have l: "length ''Test'' = 4" "length ''More test'' = 9" "length ''Hello, world!'' = 13" by simp_all
  show "string_at demo_env demo_elf ''Test'' 0x40007C" unfolding string_at_def l
    by (intro conjI exI [of _ 0] demo_segment) (simp_all only: t c, simp_all add: demo_phdr)
  show "string_at demo_env demo_elf ''More test'' 0x400080" unfolding string_at_def l
    by (intro conjI exI [of _ 0] demo_segment) (simp_all only: t c, simp_all add: demo_phdr)
  show "string_at demo_env demo_elf ''Hello, world!'' 0x400089" unfolding string_at_def l
    by (intro conjI exI [of _ 0] demo_segment) (simp_all only: t c, simp_all add: demo_phdr)
qed

end
