(* ===== verification/Asm_Program.thy ===== *)
theory Asm_Program
  imports Syscall_Correct
begin






subsection \<open>What the program shows\<close>








end
