(* ===== verification/Events.thy ===== *)
theory Events
  imports Apic
begin

text \<open>
  Input: the event queue (\<^verbatim>\<open>kernel/src/events.rs\<close>) and the keyboard and mouse interrupt handlers
  (\<^verbatim>\<open>kernel/src/drivers/keyboard.rs\<close>, \<^verbatim>\<open>kernel/src/drivers/mouse.rs\<close>). The lock-free queue, the
  scancode decoder and the mouse packet decoder are other crates': they are arguments, as is the
  byte the keyboard controller's data port 0x60 delivers.
\<close>

definition EVENT_QUEUE_SIZE :: nat where "EVENT_QUEUE_SIZE = 128"

datatype 'c KeyboardEvent = KeyPressed 'c | KeyReleased 'c | SingleShotEvent 'c

datatype ('c, 'm) Event = KeyboardEv "'c KeyboardEvent" | MouseEv 'm

text \<open>The operations of \<open>ArrayQueue\<close>: \<open>push\<close> answers \<open>None\<close> when the queue is full.\<close>

record ('q, 'e) queue_ops =
  q_push :: "'q \<Rightarrow> 'e \<Rightarrow> 'q option"
  q_pop :: "'q \<Rightarrow> 'e option \<times> 'q"
  q_is_empty :: "'q \<Rightarrow> bool"

definition push_event :: "('q, 'e) queue_ops \<Rightarrow> ('e \<Rightarrow> string) \<Rightarrow> 'e \<Rightarrow> 'q \<times> io \<Rightarrow> ('q \<times> io) outcome" where
  "push_event ops show_event event s =
     (case q_push ops (fst s) event of
        Some q \<Rightarrow> Inr (q, snd s)
      | None \<Rightarrow>
          and_then (serial_println (''[WARNING] Event queue full, dropping event: '' @ show_event event) (snd s)) (\<lambda>io.
          Inr (fst s, io)))"

definition pop_event :: "('q, 'e) queue_ops \<Rightarrow> 'q \<Rightarrow> 'e option \<times> 'q" where
  "pop_event ops q = q_pop ops q"

definition has_events :: "('q, 'e) queue_ops \<Rightarrow> 'q \<Rightarrow> bool" where
  "has_events ops q = (\<not> q_is_empty ops q)"

datatype KeyState = Down | Up | SingleShot

text \<open>The decoder's answer to a byte: an error, nothing yet, or a key with its state.\<close>

type_synonym 'c decoded = "(KeyState \<times> 'c) option option"

definition keyboard_interrupt_handler :: "('q, ('c, 'm) Event) queue_ops \<Rightarrow> (('c, 'm) Event \<Rightarrow> string) \<Rightarrow>
    ('k \<Rightarrow> u8 \<Rightarrow> 'c decoded \<times> 'k) \<Rightarrow> u8 \<Rightarrow> 'k \<Rightarrow> 'q \<times> io \<Rightarrow> ('k \<times> 'q \<times> io) outcome" where
  "keyboard_interrupt_handler ops show_event add_byte scancode keyboard s =
     (case add_byte keyboard scancode of
        (r, keyboard) \<Rightarrow>
          and_then
            (case r of
               Some (Some (state, code)) \<Rightarrow>
                 push_event ops show_event
                   (KeyboardEv (case state of Down \<Rightarrow> KeyPressed code | Up \<Rightarrow> KeyReleased code
                                             | SingleShot \<Rightarrow> SingleShotEvent code)) s
             | _ \<Rightarrow> Inr s)
            (\<lambda>(q, io). Inr (keyboard, q, end_interrupt io)))"

text \<open>A byte completes at most one mouse packet, for which the decoder calls \<open>handle_on_complete\<close>.\<close>

definition handle_on_complete :: "('q, ('c, 'm) Event) queue_ops \<Rightarrow> (('c, 'm) Event \<Rightarrow> string) \<Rightarrow> 'm \<Rightarrow> 'q \<times> io \<Rightarrow>
    ('q \<times> io) outcome" where
  "handle_on_complete ops show_event state = push_event ops show_event (MouseEv state)"

definition mouse_interrupt_handler :: "('q, ('c, 'm) Event) queue_ops \<Rightarrow> (('c, 'm) Event \<Rightarrow> string) \<Rightarrow>
    ('s \<Rightarrow> u8 \<Rightarrow> 'm option \<times> 's) \<Rightarrow> u8 \<Rightarrow> 's \<Rightarrow> 'q \<times> io \<Rightarrow> ('s \<times> 'q \<times> io) outcome" where
  "mouse_interrupt_handler ops show_event process_packet data mouse s =
     (case process_packet mouse data of
        (r, mouse) \<Rightarrow>
          and_then (case r of Some state \<Rightarrow> handle_on_complete ops show_event state s | None \<Rightarrow> Inr s)
            (\<lambda>(q, io). Inr (mouse, q, end_interrupt io)))"

subsection \<open>Events are delivered once and in order\<close>

text \<open>\<open>ArrayQueue\<close>, as documented: a bounded first-in first-out queue.\<close>

definition array_queue :: "nat \<Rightarrow> ('q \<Rightarrow> 'e list) \<Rightarrow> ('q, 'e) queue_ops \<Rightarrow> bool" where
  "array_queue cap contents ops \<longleftrightarrow>
     (\<forall>q e. if length (contents q) < cap then \<exists>q'. q_push ops q e = Some q' \<and> contents q' = contents q @ [e]
            else q_push ops q e = None) \<and>
     (\<forall>q. case contents q of [] \<Rightarrow> fst (q_pop ops q) = None \<and> contents (snd (q_pop ops q)) = []
          | e # es \<Rightarrow> fst (q_pop ops q) = Some e \<and> contents (snd (q_pop ops q)) = es) \<and>
     (\<forall>q. q_is_empty ops q \<longleftrightarrow> contents q = [])"

text \<open>A sequence of keyboard interrupts, by the scancodes they deliver.\<close>

fun keyboard_interrupts :: "('q, ('c, 'm) Event) queue_ops \<Rightarrow> (('c, 'm) Event \<Rightarrow> string) \<Rightarrow>
    ('k \<Rightarrow> u8 \<Rightarrow> 'c decoded \<times> 'k) \<Rightarrow> u8 list \<Rightarrow> 'k \<Rightarrow> 'q \<times> io \<Rightarrow> ('k \<times> 'q \<times> io) outcome" where
  "keyboard_interrupts ops sh add_byte [] k s = Inr (k, s)"
| "keyboard_interrupts ops sh add_byte (b # bs) k s =
     and_then (keyboard_interrupt_handler ops sh add_byte b k s) (\<lambda>(k, s). keyboard_interrupts ops sh add_byte bs k s)"

text \<open>The events the decoder finds in a sequence of scancodes.\<close>

fun decode :: "('k \<Rightarrow> u8 \<Rightarrow> 'c decoded \<times> 'k) \<Rightarrow> u8 list \<Rightarrow> 'k \<Rightarrow> ('c, 'm) Event list" where
  "decode add_byte [] k = []"
| "decode add_byte (b # bs) k =
     (case add_byte k b of
        (Some (Some (Down, c)), k) \<Rightarrow> KeyboardEv (KeyPressed c) # decode add_byte bs k
      | (Some (Some (Up, c)), k) \<Rightarrow> KeyboardEv (KeyReleased c) # decode add_byte bs k
      | (Some (Some (SingleShot, c)), k) \<Rightarrow> KeyboardEv (SingleShotEvent c) # decode add_byte bs k
      | (_, k) \<Rightarrow> decode add_byte bs k)"

lemma push_event_spec:
  assumes "array_queue cap contents ops" "serial1 io" "length (contents q) \<le> cap"
  obtains q' io' where "push_event ops sh e (q, io) = Inr (q', io')" "contents q' = take cap (contents q @ [e])"
    "serial1 io'" "mmio_log io' = mmio_log io" "lapic_address io' = lapic_address io"
proof (cases "length (contents q) < cap")
  case True
  then obtain q' where "q_push ops q e = Some q'" "contents q' = contents q @ [e]"
    using assms(1) unfolding array_queue_def by meson
  with True assms(2) show thesis by (intro that [of q' io]) (auto simp: push_event_def)
next
  case False
  then have "q_push ops q e = None" using assms(1) unfolding array_queue_def by meson
  with False assms(2,3) show thesis
    by (intro that [of q "io\<lparr>serial_out := serial_out io @ ''[WARNING] Event queue full, dropping event: '' @ sh e @ newline\<rparr>"])
      (auto simp: push_event_def serial_println_def serial_print_def)
qed

lemma take_take_append: "take n (take n xs @ ys) = take n (xs @ ys)"
  by (cases "n \<le> length xs") auto

text \<open>The events one decoder answer stands for.\<close>

fun key_events :: "'c decoded \<Rightarrow> ('c, 'm) Event list" where
  "key_events (Some (Some (Down, c))) = [KeyboardEv (KeyPressed c)]"
| "key_events (Some (Some (Up, c))) = [KeyboardEv (KeyReleased c)]"
| "key_events (Some (Some (SingleShot, c))) = [KeyboardEv (SingleShotEvent c)]"
| "key_events _ = []"

lemma keyboard_handler_spec:
  fixes ops :: "('q, ('c, 'm) Event) queue_ops"
  assumes "array_queue cap contents ops" "serial1 io" "length (contents q) \<le> cap" "add_byte k b = (r, k1)"
  obtains q1 io1 where "keyboard_interrupt_handler ops sh add_byte b k (q, io) = Inr (k1, q1, io1)"
    "contents q1 = take cap (contents q @ key_events r)" "serial1 io1"
    "mmio_log io1 = mmio_log io @ [(lapic_address io + 0xB0, 0)]" "lapic_address io1 = lapic_address io"
proof -
  have eoi: "mmio_log (end_interrupt i) = mmio_log i @ [(lapic_address i + 0xB0, 0)]"
      "serial1 (end_interrupt i) = serial1 i" "lapic_address (end_interrupt i) = lapic_address i" for i
    by (simp_all add: end_interrupt_def lapic_reg_def ptr_offset_def write_volatile_def)
  show thesis
  proof (cases "key_events r :: ('c, 'm) Event list")
    case Nil
    then have "keyboard_interrupt_handler ops sh add_byte b k (q, io) = Inr (k1, q, end_interrupt io)"
      using assms(4) by (cases r rule: key_events.cases) (auto simp: keyboard_interrupt_handler_def)
    with Nil assms(2,3) show thesis by (intro that [of q "end_interrupt io"]) (simp_all add: eoi)
  next
    case (Cons e es)
    then have e: "es = []" by (cases r rule: key_events.cases) auto
    obtain q' io' where q': "push_event ops sh e (q, io) = Inr (q', io')" "contents q' = take cap (contents q @ [e])"
        "serial1 io'" "mmio_log io' = mmio_log io" "lapic_address io' = lapic_address io"
      by (rule push_event_spec [OF assms(1-3), of sh e])
    have "keyboard_interrupt_handler ops sh add_byte b k (q, io) = Inr (k1, q', end_interrupt io')"
      using assms(4) Cons q'(1) by (cases r rule: key_events.cases) (auto simp: keyboard_interrupt_handler_def)
    with Cons e q' show thesis by (intro that [of q' "end_interrupt io'"]) (simp_all add: eoi)
  qed
qed

text \<open>
  C34: Keyboard input is queued in order: after any sequence of keyboard interrupts the queue holds what it
  held, followed by the decoded key events in order of arrival, cut off at its capacity; no interrupt
  panics, and each is acknowledged exactly once, also when its event is dropped.
\<close>

theorem keyboard_events_in_order:
  assumes "array_queue EVENT_QUEUE_SIZE contents ops" "serial1 io" "length (contents q) \<le> EVENT_QUEUE_SIZE"
  shows "\<exists>k' q' io'. keyboard_interrupts ops sh add_byte bs k (q, io) = Inr (k', q', io') \<and>
    contents q' = take EVENT_QUEUE_SIZE (contents q @ decode add_byte bs k) \<and>
    mmio_log io' = mmio_log io @ replicate (length bs) (lapic_address io + 0xB0, 0)"
  using assms(2,3)
proof (induction bs arbitrary: k q io)
  case Nil
  then show ?case by simp
next
  case (Cons b bs)
  obtain r k1 where ab: "add_byte k b = (r, k1)" by (cases "add_byte k b")
  have dec: "decode add_byte (b # bs) k = key_events r @ decode add_byte bs k1"
    by (cases r rule: key_events.cases) (auto simp: ab)
  obtain q1 io1 where 1: "keyboard_interrupt_handler ops sh add_byte b k (q, io) = Inr (k1, q1, io1)"
      "contents q1 = take EVENT_QUEUE_SIZE (contents q @ key_events r)" "serial1 io1"
      "mmio_log io1 = mmio_log io @ [(lapic_address io + 0xB0, 0)]" "lapic_address io1 = lapic_address io"
    by (rule keyboard_handler_spec [where contents = contents and add_byte = add_byte and r = r, OF assms(1) Cons.prems ab, of sh])
  have "length (contents q1) \<le> EVENT_QUEUE_SIZE" by (simp add: 1(2))
  from Cons.IH [OF 1(3) this, of k1] obtain k' q' io' where r:
      "keyboard_interrupts ops sh add_byte bs k1 (q1, io1) = Inr (k', q', io')"
      "contents q' = take EVENT_QUEUE_SIZE (contents q1 @ decode add_byte bs k1)"
      "mmio_log io' = mmio_log io1 @ replicate (length bs) (lapic_address io1 + 0xB0, 0)" by blast
  have "contents q' = take EVENT_QUEUE_SIZE (contents q @ decode add_byte (b # bs) k)"
    unfolding dec by (simp only: r(2) 1(2) take_take_append append_assoc)
  with r(1,3) 1 show ?case by simp
qed

text \<open>
  Consuming events: \<open>pop_event\<close> yields the queued events in order and then nothing, \<open>has_events\<close> tells
  whether there is one, and a mouse packet adds its state at the end of the queue if there is room.
\<close>

lemma pop_events_in_order:
  assumes "array_queue EVENT_QUEUE_SIZE contents ops" "serial1 io" "length (contents q) < EVENT_QUEUE_SIZE"
    "process_packet m b = (Some st, m1)"
  shows "\<exists>q' io'. mouse_interrupt_handler ops sh process_packet b m (q, io) = Inr (m1, q', io') \<and>
    contents q' = contents q @ [MouseEv st] \<and> has_events ops q' \<and>
    fst (pop_event ops q') = Some (hd (contents q @ [MouseEv st])) \<and> contents (snd (pop_event ops q')) = tl (contents q @ [MouseEv st])"
proof -
  obtain q' io' where q': "push_event ops sh (MouseEv st) (q, io) = Inr (q', io')"
      "contents q' = take EVENT_QUEUE_SIZE (contents q @ [MouseEv st])"
    by (rule push_event_spec [OF assms(1,2) less_imp_le [OF assms(3)], of sh "MouseEv st"], rule that)
  then have c: "contents q' = contents q @ [MouseEv st]" using assms(3) by simp
  have "mouse_interrupt_handler ops sh process_packet b m (q, io) = Inr (m1, q', end_interrupt io')"
    using assms(4) q'(1) by (simp add: mouse_interrupt_handler_def handle_on_complete_def)
  moreover have "has_events ops q'" using assms(1) c by (simp add: array_queue_def has_events_def)
  moreover have "fst (pop_event ops q') = Some (hd (contents q')) \<and> contents (snd (pop_event ops q')) = tl (contents q')"
  proof -
    obtain e es where e: "contents q' = e # es" unfolding c by (cases "contents q") auto
    have "case contents q' of [] \<Rightarrow> fst (q_pop ops q') = None \<and> contents (snd (q_pop ops q')) = []
        | e # es \<Rightarrow> fst (q_pop ops q') = Some e \<and> contents (snd (q_pop ops q')) = es"
      using assms(1) unfolding array_queue_def by blast
    then show ?thesis by (simp add: e pop_event_def)
  qed
  ultimately have "mouse_interrupt_handler ops sh process_packet b m (q, io) = Inr (m1, q', end_interrupt io') \<and>
      contents q' = contents q @ [MouseEv st] \<and> has_events ops q' \<and>
      fst (pop_event ops q') = Some (hd (contents q @ [MouseEv st])) \<and> contents (snd (pop_event ops q')) = tl (contents q @ [MouseEv st])"
    using c by simp
  then show ?thesis by blast
qed

subsection \<open>A queue as a list\<close>

definition list_queue :: "('e list, 'e) queue_ops" where
  "list_queue = \<lparr>q_push = (\<lambda>q e. if length q < EVENT_QUEUE_SIZE then Some (q @ [e]) else None),
     q_pop = (\<lambda>q. case q of [] \<Rightarrow> (None, []) | e # es \<Rightarrow> (Some e, es)), q_is_empty = (\<lambda>q. q = [])\<rparr>"

lemma list_array_queue: "array_queue EVENT_QUEUE_SIZE (\<lambda>q. q) list_queue"
  by (auto simp: array_queue_def list_queue_def split: list.splits)

definition demo_io :: io where
  "demo_io = \<lparr>serial1 = True, serial_out = [], lapic_address = 0xFEE00000, mmio_log = [], port_log = []\<rparr>"

text \<open>A decoder that reports every byte as a pressed key, or a released one from 128 on.\<close>

definition demo_decoder :: "unit \<Rightarrow> u8 \<Rightarrow> u8 decoded \<times> unit" where
  "demo_decoder k b = (Some (Some (if b < 128 then Down else Up, b)), ())"

theorem keyboard_events_in_order_witness:
  "\<exists>k' q' io'. keyboard_interrupts list_queue (\<lambda>_. []) demo_decoder [30, 158] () ([] :: (u8, unit) Event list, demo_io) = Inr (k', q', io') \<and>
     q' = [KeyboardEv (KeyPressed 30), KeyboardEv (KeyReleased 158)] \<and> mmio_log io' = [(0xFEE000B0, 0), (0xFEE000B0, 0)]"
proof -
  have d: "decode demo_decoder [30, 158] () = [KeyboardEv (KeyPressed 30), KeyboardEv (KeyReleased 158) :: (u8, unit) Event]"
    by (simp add: demo_decoder_def)
  have r: "replicate (length [30, 158 :: u8]) x = [x, x]" for x :: "u64 \<times> u32" by simp
  show ?thesis
    using keyboard_events_in_order [where contents = "\<lambda>q :: (u8, unit) Event list. q", OF list_array_queue, of demo_io "[]" "\<lambda>_. []" demo_decoder "[30, 158]" "()"]
    unfolding d r by (auto simp: demo_io_def EVENT_QUEUE_SIZE_def)
qed

end
