(* ===== verification/Host.thy ===== *)
theory Host
  imports Interrupts
begin

text \<open>
  The host side: the build script (\<^verbatim>\<open>build.rs\<close>), which makes the disk image, and the host program (\<^verbatim>\<open>src/main.rs\<close>), which starts the
  emulator on it and reports how the kernel ended. Paths are strings; the creation of the image, the download of the firmware and
  the run of the emulator are arguments.
\<close>

subsection \<open>The build script\<close>

text \<open>\<^verbatim>\<open>PathBuf::join\<close> with the name of a file.\<close>

definition path_join :: "string \<Rightarrow> string \<Rightarrow> string" where
  "path_join dir name = (if dir = [] \<or> last dir = CHR ''/'' then dir @ name else dir @ ''/'' @ name)"

definition build_script :: "(string \<Rightarrow> string option) \<Rightarrow> (string \<Rightarrow> string \<Rightarrow> bool) \<Rightarrow> string outcome" where
  "build_script var_os create_disk_image =
     (case var_os ''OUT_DIR'' of
        None \<Rightarrow> Inl UnwrapNone
      | Some out_dir \<Rightarrow>
          (case var_os ''CARGO_BIN_FILE_KERNEL_kernel'' of
             None \<Rightarrow> Inl UnwrapNone
           | Some kernel_bin \<Rightarrow>
               let uefi_path = path_join out_dir ''uefi.img''
               in if create_disk_image kernel_bin uefi_path then Inr (''cargo:rustc-env=UEFI_PATH='' @ uefi_path @ newline)
                  else Inl (PanicMsg ''called `Result::unwrap()` on an `Err` value'')))"

subsection \<open>The host program\<close>

definition qemu_args :: "string \<Rightarrow> string \<Rightarrow> string \<Rightarrow> string list" where
  "qemu_args uefi_path code vars =
     [''-m'', ''256M'',
      ''-serial'', ''stdio'',
      ''-device'', ''isa-debug-exit,iobase=0xf4,iosize=0x04'',
      ''-drive'', ''format=raw,file='' @ uefi_path,
      ''-drive'', ''if=pflash,format=raw,unit=0,file='' @ code @ '',readonly=on'',
      ''-drive'', ''if=pflash,format=raw,unit=1,file='' @ vars @ '',snapshot=on'']"

definition runner_report :: "nat option \<Rightarrow> string" where
  "runner_report status =
     (case status of
        Some code \<Rightarrow>
          if code = 0x11 then ''QEMU exited with success.'' @ newline
          else ''QEMU exited with failure code: '' @ digits 10 code @ newline
      | None \<Rightarrow> ''QEMU terminated by signal'' @ newline)"

text \<open>
  \<open>fetch\<close> gives the downloaded firmware, \<open>get_code\<close> and \<open>get_vars\<close> the paths of its two files, and \<open>run\<close> the exit
  status of a command, \<open>None\<close> if it cannot be run. The result is what the program prints.
\<close>

definition runner_main :: "string \<Rightarrow> (string \<Rightarrow> 'p option) \<Rightarrow> ('p \<Rightarrow> string) \<Rightarrow> ('p \<Rightarrow> string) \<Rightarrow> (string \<Rightarrow> string list \<Rightarrow> nat option option) \<Rightarrow>
    string outcome" where
  "runner_main uefi_path fetch get_code get_vars run =
     (let out = ''kernel binary at: '' @ uefi_path @ newline @ ''Downloading OVMF firmware...'' @ newline
      in case fetch ''target/omvf'' of
           None \<Rightarrow> Inl (PanicMsg ''Failed to download OMVF'')
         | Some prebuilt \<Rightarrow>
             let out = out @ ''Starting QEMU...'' @ newline;
                 code = get_code prebuilt;
                 vars = get_vars prebuilt
             in case run ''qemu-system-x86_64'' (qemu_args uefi_path code vars) of
                  None \<Rightarrow> Inl (PanicMsg ''called `Result::unwrap()` on an `Err` value'')
                | Some status \<Rightarrow> Inr (out @ runner_report status))"

subsection \<open>What the host program reports\<close>

text \<open>The emulator starts the image that the build script has made.\<close>

lemma image_started:
  assumes "build_script var_os create_disk_image = Inr (''cargo:rustc-env=UEFI_PATH='' @ uefi_path @ newline)"
  shows "\<exists>kernel_bin xs ys. var_os ''CARGO_BIN_FILE_KERNEL_kernel'' = Some kernel_bin \<and> create_disk_image kernel_bin uefi_path \<and>
    qemu_args uefi_path code vars = xs @ [''-drive'', ''format=raw,file='' @ uefi_path] @ ys"
proof -
  have "qemu_args uefi_path code vars = take 6 (qemu_args uefi_path code vars) @ [''-drive'', ''format=raw,file='' @ uefi_path] @
      drop 8 (qemu_args uefi_path code vars)"
    by (simp add: qemu_args_def)
  then show ?thesis using assms by (auto simp: build_script_def Let_def split: option.splits if_splits)
qed

text \<open>
  The debug exit device: an emulator that is started with it turns a write of \<open>v\<close> to its port into the exit status \<open>2 * v + 1\<close>.
  \<open>emulator ws\<close> runs a command when the kernel in it makes the port writes \<open>ws\<close>.
\<close>

definition debug_exit :: "((u16 \<times> u32) list \<Rightarrow> string \<Rightarrow> string list \<Rightarrow> nat option option) \<Rightarrow> bool" where
  "debug_exit emulator \<longleftrightarrow> (\<forall>ws v args xs ys. unat v < 128 \<and> args = xs @ [''-device'', ''isa-debug-exit,iobase=0xf4,iosize=0x04''] @ ys \<longrightarrow>
     emulator (ws @ [(0xF4, v)]) ''qemu-system-x86_64'' args = Some (Some (2 * unat v + 1)))"

lemma exit_qemu_run:
  assumes "serial1 io"
  obtains io' where "exit_qemu x io = Inr io'" "port_log io' = port_log io @ [(0xF4, drop_bit 1 (exit_code x))]"
  using assms by (simp add: exit_qemu_def serial_println_def serial_print_def port_write_def)

definition greeting :: "string \<Rightarrow> string" where
  "greeting uefi_path = ''kernel binary at: '' @ uefi_path @ newline @ ''Downloading OVMF firmware...'' @ newline @ ''Starting QEMU...'' @ newline"

lemma runner_status:
  assumes "debug_exit emulator" "fetch ''target/omvf'' = Some p"
  shows "runner_main uefi_path fetch get_code get_vars (emulator (ws @ [(0xF4, drop_bit 1 (exit_code x))])) =
    Inr (greeting uefi_path @ runner_report (Some (unat (exit_code x))))"
proof -
  let ?args = "qemu_args uefi_path (get_code p) (get_vars p)"
  have "?args = take 4 ?args @ [''-device'', ''isa-debug-exit,iobase=0xf4,iosize=0x04''] @ drop 6 ?args" by (simp add: qemu_args_def)
  then have e: "emulator (ws @ [(0xF4, v)]) ''qemu-system-x86_64'' ?args = Some (Some (2 * unat v + 1))" if "unat v < 128" for v ws
    using assms(1) that unfolding debug_exit_def by blast
  have d: "drop_bit 1 (0x11 :: u32) = 8" "drop_bit 1 (0x13 :: u32) = 9" by code_simp+
  have "emulator (ws @ [(0xF4, drop_bit 1 (exit_code x))]) ''qemu-system-x86_64'' ?args = Some (Some (unat (exit_code x)))"
    by (cases x) (simp_all add: e d)
  then show ?thesis using assms(2) by (simp add: runner_main_def greeting_def)
qed

text \<open>
  C37: The host program reports success exactly when the kernel exits with \<open>Success\<close>: it starts the emulator with the exit device at the port that the
  kernel writes to, and each exit code survives the shift in the kernel and the arithmetic of the device. After a panic or a fault the
  report is the failure code 19.
\<close>

theorem exit_reported:
  assumes "debug_exit emulator" "fetch ''target/omvf'' = Some p" "serial1 io"
  shows "(\<exists>io' out. exit_qemu x io = Inr io' \<and> runner_main uefi_path fetch get_code get_vars (emulator (port_log io')) = Inr (greeting uefi_path @ out) \<and>
      (out = ''QEMU exited with success.'' @ newline) = (x = Success)) \<and>
    (\<forall>h \<in> {panic_handler info, divide_by_zero_handler info, double_fault_handler info, page_fault_handler a code info,
        general_protection_fault_handler num info}.
      \<exists>io'. h io = Inr io' \<and> runner_main uefi_path fetch get_code get_vars (emulator (port_log io')) =
        Inr (greeting uefi_path @ ''QEMU exited with failure code: 19'' @ newline))"
proof -
  have dig: "digits 10 19 = ''19''" by code_simp
  have run: "\<exists>io'. exit_qemu x io = Inr io' \<and> runner_main uefi_path fetch get_code get_vars (emulator (port_log io')) =
      Inr (greeting uefi_path @ runner_report (Some (unat (exit_code x))))" if on: "serial1 io" for io x
  proof -
    obtain io' where io': "exit_qemu x io = Inr io'" "port_log io' = port_log io @ [(0xF4, drop_bit 1 (exit_code x))]"
      by (rule exit_qemu_run [OF on])
    show ?thesis by (intro exI conjI, rule io'(1)) (simp only: io'(2) runner_status [where fetch = fetch, OF assms(1,2)])
  qed
  have "(runner_report (Some (unat (exit_code x))) = ''QEMU exited with success.'' @ newline) = (x = Success)"
    by (cases x) (simp_all add: runner_report_def dig)
  moreover have "\<exists>io'. h io = Inr io' \<and> runner_main uefi_path fetch get_code get_vars (emulator (port_log io')) =
      Inr (greeting uefi_path @ ''QEMU exited with failure code: 19'' @ newline)"
    if "h \<in> {panic_handler info, divide_by_zero_handler info, double_fault_handler info, page_fault_handler a code info,
        general_protection_fault_handler num info}" for h
  proof -
    have "runner_report (Some (unat (exit_code Failed))) = ''QEMU exited with failure code: 19'' @ newline" by (simp add: runner_report_def dig)
    then have "\<exists>io'. exit_qemu Failed io = Inr io' \<and> runner_main uefi_path fetch get_code get_vars (emulator (port_log io')) =
        Inr (greeting uefi_path @ ''QEMU exited with failure code: 19'' @ newline)" if "serial1 io" for io
      using run [OF that, of Failed] by simp
    then show ?thesis using that assms(3)
      by (auto simp: panic_handler_def divide_by_zero_handler_def double_fault_handler_def page_fault_handler_def
          general_protection_fault_handler_def serial_println_def serial_print_def)
  qed
  ultimately show ?thesis using run [OF assms(3), of x] by blast
qed

theorem exit_reported_witness:
  "\<exists>io'. panic_handler ''boom'' \<lparr>serial1 = True, serial_out = [], lapic_address = 0, mmio_log = [], port_log = []\<rparr> = Inr io' \<and>
     runner_main ''uefi.img'' (\<lambda>_. Some ()) (\<lambda>_. ''code.fd'') (\<lambda>_. ''vars.fd'') (\<lambda>_ _. Some (Some (2 * unat (snd (last (port_log io'))) + 1))) =
       Inr (greeting ''uefi.img'' @ ''QEMU exited with failure code: 19'' @ newline)"
proof -
  have "debug_exit (\<lambda>ws _ _. Some (Some (2 * unat (snd (last ws)) + 1)))" by (simp add: debug_exit_def)
  from exit_reported [OF this, of "\<lambda>_. Some ()" "()" "\<lparr>serial1 = True, serial_out = [], lapic_address = 0, mmio_log = [], port_log = []\<rparr>" Success
      "''uefi.img''" "\<lambda>_. ''code.fd''" "\<lambda>_. ''vars.fd''" "''boom''"]
  show ?thesis by simp
qed

end
